(* ===== verification/Prelude.thy ===== *)
theory Prelude
  imports Main "HOL-Library.Word" "HOL-Library.Code_Target_Nat"
begin

text \<open>
  Shared vocabulary of the development: the machine integer types of the C++ sources, the
  wrap-around of \<open>uint32_t\<close> and \<open>uint64_t\<close> arithmetic written on natural numbers, the outcome of
  an operation guarded by \<open>UCCL_CHECK\<close> or \<open>throw\<close>, and the generic lemmas on lists, circular
  indices and words that the component theories use.
\<close>

unbundle bit_operations_syntax

section \<open>Machine integers\<close>

type_synonym u8 = "8 word"
type_synonym u16 = "16 word"
type_synonym u32 = "32 word"
type_synonym u64 = "64 word"

text \<open>Unsigned arithmetic on natural numbers with the wrap-around written out.\<close>

definition u32_wrap :: "nat \<Rightarrow> nat" where
  "u32_wrap n = n mod 2 ^ 32"

definition u64_wrap :: "nat \<Rightarrow> nat" where
  "u64_wrap n = n mod 2 ^ 64"

text \<open>
  The difference of two unsigned values; \<open>a\<close> and \<open>b\<close> are below the modulus, so adding the
  modulus first keeps the subtraction on \<^typ>\<open>nat\<close> exact.
\<close>

definition u32_sub :: "nat \<Rightarrow> nat \<Rightarrow> nat" where
  "u32_sub a b = (a + 2 ^ 32 - b) mod 2 ^ 32"

named_theorems wrap_simps \<open>unsigned arithmetic that does not overflow\<close>

lemma u32_wrap_less [wrap_simps]: "n < 2 ^ 32 \<Longrightarrow> u32_wrap n = n"
  by (simp add: u32_wrap_def)

lemma u64_wrap_less [wrap_simps]: "n < 2 ^ 64 \<Longrightarrow> u64_wrap n = n"
  by (simp add: u64_wrap_def)

lemma u32_sub_le [wrap_simps]: "b \<le> a \<Longrightarrow> a < 2 ^ 32 \<Longrightarrow> u32_sub a b = a - b"
proof -
  assume "b \<le> a" "a < 2 ^ 32"
  then have "a + 2 ^ 32 - b = (a - b) + 2 ^ 32" by simp
  then show "u32_sub a b = a - b"
    using \<open>a < 2 ^ 32\<close> unfolding u32_sub_def by (metis less_imp_diff_less mod_add_self2 mod_less)
qed

lemma unat_u8_less: "unat (x :: u8) < 256"
  using unsigned_less [of x, where 'a = nat] by simp

lemma unat_u32_less: "unat (x :: u32) < 2 ^ 32"
  using unsigned_less [of x, where 'a = nat] by simp

lemma unat_u64_less: "unat (x :: u64) < 2 ^ 64"
  using unsigned_less [of x, where 'a = nat] by simp

section \<open>Circular indices\<close>

lemma circ_mod_less:
  fixes h n c :: nat
  assumes "h < c" "n < c"
  shows "(h + n) mod c = (if h + n < c then h + n else h + n - c)"
  using assms by (auto simp: mod_if)

lemma circ_mod_inj:
  fixes h i j c :: nat
  assumes "i < c" "j < c" "(h + i) mod c = (h + j) mod c"
  shows "i = j"
proof -
  have "(h mod c + i) mod c = (h mod c + j) mod c"
    using assms(3) by (simp add: mod_add_left_eq)
  moreover have "h mod c < c" using assms(1) by (cases c) auto
  ultimately show ?thesis using assms(1,2) by (auto simp: circ_mod_less split: if_splits)
qed

end
