(* ===== verification/CircularBuffer.thy ===== *)
theory CircularBuffer
  imports Prelude
begin

text \<open>
  The template \<open>CircularBuffer<T, Sync, Capacity>\<close> of \<open>include/util/cb.h\<close>: a ring of
  \<open>capacity_\<close> slots (field \<open>cb_slots\<close>) of which one always stays free, with \<open>uint32_t\<close> indices. The storage is a
  list whose initial contents are whatever fresh storage holds (the argument \<open>d\<close>). The spin lock
  of the \<open>Sync\<close> variant makes every operation one atomic step; \<open>work_steal\<close> takes the outcome of
  \<open>TryLock\<close> on the victim as an argument.

  The abstraction \<open>cb_list\<close> reads the ring as a list; the locale \<open>bounded_deque\<close> is the contract
  that the clients (\<open>SharedPool\<close>, the bucket pool of the timing wheel) rely on.
\<close>

section \<open>Operations\<close>

record 'a CircularBuffer =
  cb_items :: "'a list"
  cb_head :: nat
  cb_tail :: nat
  cb_slots :: nat

definition cb_new :: "'a \<Rightarrow> nat \<Rightarrow> 'a CircularBuffer" where
  "cb_new d n = (let cap = u32_wrap (n + 1)
     in \<lparr>cb_items = replicate cap d, cb_head = 0, cb_tail = 0, cb_slots = cap\<rparr>)"

definition cb_capacity :: "'a CircularBuffer \<Rightarrow> nat" where
  "cb_capacity c = u32_sub (cb_slots c) 1"

definition cb_size :: "'a CircularBuffer \<Rightarrow> nat" where
  "cb_size c =
     (if cb_tail c < cb_head c then u32_sub (u32_wrap (cb_tail c + cb_slots c)) (cb_head c)
      else u32_sub (cb_tail c) (cb_head c))"

definition cb_push_front :: "'a \<Rightarrow> 'a CircularBuffer \<Rightarrow> bool \<times> 'a CircularBuffer" where
  "cb_push_front d c =
     (let new_head = u32_sub (u32_wrap (cb_head c + cb_slots c)) 1 mod cb_slots c;
          success = (new_head \<noteq> cb_tail c)
      in if success
         then (True, c\<lparr>cb_items := (cb_items c)[new_head := d], cb_head := new_head\<rparr>)
         else (False, c))"

definition cb_push_back :: "'a \<Rightarrow> 'a CircularBuffer \<Rightarrow> bool \<times> 'a CircularBuffer" where
  "cb_push_back d c =
     (let new_tail = u32_wrap (cb_tail c + 1) mod cb_slots c;
          success = (new_tail \<noteq> cb_head c)
      in if success
         then (True, c\<lparr>cb_items := (cb_items c)[cb_tail c := d], cb_tail := new_tail\<rparr>)
         else (False, c))"

definition cb_push_back_override :: "'a \<Rightarrow> 'a CircularBuffer \<Rightarrow> 'a option \<times> 'a CircularBuffer" where
  "cb_push_back_override d c =
     (let new_tail = u32_wrap (cb_tail c + 1) mod cb_slots c;
          (overrided, c1) =
            (if new_tail = cb_head c
             then (Some (cb_items c ! cb_head c), c\<lparr>cb_head := u32_wrap (cb_head c + 1) mod cb_slots c\<rparr>)
             else (None, c))
      in (overrided, c1\<lparr>cb_items := (cb_items c1)[cb_tail c := d], cb_tail := new_tail\<rparr>))"

definition cb_pop_front :: "'a CircularBuffer \<Rightarrow> 'a option \<times> 'a CircularBuffer" where
  "cb_pop_front c =
     (if cb_head c \<noteq> cb_tail c
      then (Some (cb_items c ! cb_head c), c\<lparr>cb_head := u32_wrap (cb_head c + 1) mod cb_slots c\<rparr>)
      else (None, c))"

text \<open>The copy loop of \<open>work_steal\<close>; \<open>tail\<close> is the thief's local variable.\<close>

fun cb_steal_loop ::
    "nat \<Rightarrow> nat \<Rightarrow> 'a CircularBuffer \<Rightarrow> 'a CircularBuffer \<Rightarrow> nat \<times> 'a CircularBuffer \<times> 'a CircularBuffer"
  where
  "cb_steal_loop 0 tail self cb = (tail, self, cb)"
| "cb_steal_loop (Suc n) tail self cb =
     (let self' = self\<lparr>cb_items := (cb_items self)[tail := cb_items cb ! cb_head cb]\<rparr>;
          cb' = cb\<lparr>cb_head := u32_wrap (cb_head cb + 1) mod cb_slots cb\<rparr>
      in cb_steal_loop n (u32_wrap (tail + 1) mod cb_slots self) self' cb')"

definition cb_work_steal ::
    "bool \<Rightarrow> 'a CircularBuffer \<Rightarrow> 'a CircularBuffer \<Rightarrow> bool \<times> 'a CircularBuffer \<times> 'a CircularBuffer"
  where
  "cb_work_steal try_lock self cb =
     (if cb_size cb div 2 = 0 then (False, self, cb)
      else if \<not> try_lock then (False, self, cb)
      else
        (let steal_size = min (cb_size cb div 2) (u32_sub (cb_capacity self) (cb_size self));
             (tail, self1, cb1) = cb_steal_loop steal_size (cb_tail self) self cb
         in (True, self1\<lparr>cb_tail := tail\<rparr>, cb1)))"

definition cb_clear :: "'a CircularBuffer \<Rightarrow> 'a CircularBuffer" where
  "cb_clear c = c\<lparr>cb_head := cb_tail c\<rparr>"

text \<open>\<open>for_each\<close> returns the items in the order its callback sees them.\<close>

partial_function (option) cb_visit :: "'a CircularBuffer \<Rightarrow> nat \<Rightarrow> 'a list \<Rightarrow> 'a list option" where
  "cb_visit c idx seen =
     (if idx = cb_tail c then Some seen
      else cb_visit c (u32_wrap (idx + 1) mod cb_slots c) (seen @ [cb_items c ! idx]))"

definition cb_for_each :: "'a CircularBuffer \<Rightarrow> 'a list option" where
  "cb_for_each c = cb_visit c (cb_head c) []"

section \<open>Well-formed rings and their contents\<close>

text \<open>
  \<open>head_ + capacity_\<close> must not wrap, hence the bound \<open>2 ^ 31\<close> on the number of slots.
\<close>

definition cb_inv :: "'a CircularBuffer \<Rightarrow> bool" where
  "cb_inv c \<longleftrightarrow> 0 < cb_slots c \<and> cb_slots c \<le> 2 ^ 31 \<and> cb_head c < cb_slots c \<and>
     cb_tail c < cb_slots c \<and> length (cb_items c) = cb_slots c"

definition cb_len :: "'a CircularBuffer \<Rightarrow> nat" where
  "cb_len c = (if cb_head c \<le> cb_tail c then cb_tail c - cb_head c else cb_tail c + cb_slots c - cb_head c)"

definition cb_list :: "'a CircularBuffer \<Rightarrow> 'a list" where
  "cb_list c = map (\<lambda>i. cb_items c ! ((cb_head c + i) mod cb_slots c)) [0..<cb_len c]"

lemma cb_len_less: "cb_inv c \<Longrightarrow> cb_len c < cb_slots c"
  by (auto simp: cb_inv_def cb_len_def)

lemma length_cb_list [simp]: "length (cb_list c) = cb_len c"
  by (simp add: cb_list_def)

lemma cb_tail_eq: "cb_inv c \<Longrightarrow> cb_tail c = (cb_head c + cb_len c) mod cb_slots c"
  by (auto simp: cb_inv_def cb_len_def)

lemma cb_next_index [wrap_simps]:
  assumes "cb_inv c" "i < cb_slots c"
  shows "u32_wrap (i + 1) mod cb_slots c = (i + 1) mod cb_slots c"
  using assms by (simp add: cb_inv_def u32_wrap_less)

lemma cb_prev_index [wrap_simps]:
  assumes "cb_inv c"
  shows "u32_sub (u32_wrap (cb_head c + cb_slots c)) 1 mod cb_slots c
       = (cb_head c + (cb_slots c - 1)) mod cb_slots c"
proof -
  have "u32_wrap (cb_head c + cb_slots c) = cb_head c + cb_slots c"
    using assms by (intro u32_wrap_less) (simp add: cb_inv_def)
  moreover have "u32_sub (cb_head c + cb_slots c) 1 = cb_head c + cb_slots c - 1"
    using assms by (intro u32_sub_le) (auto simp: cb_inv_def)
  ultimately show ?thesis using assms by (simp add: cb_inv_def)
qed

lemma cb_size_eq: "cb_inv c \<Longrightarrow> cb_size c = cb_len c"
  by (auto simp: cb_size_def cb_len_def cb_inv_def u32_wrap_less u32_sub_le)

lemma cb_capacity_eq: "cb_inv c \<Longrightarrow> cb_capacity c = cb_slots c - 1"
  by (auto simp: cb_capacity_def cb_inv_def u32_sub_le)

lemma cb_list_Nil_iff: "cb_inv c \<Longrightarrow> cb_list c = [] \<longleftrightarrow> cb_head c = cb_tail c"
  by (auto simp: cb_list_def cb_len_def cb_inv_def)

section \<open>Each operation on the contents\<close>

lemma cb_new_inv: "n < 2 ^ 31 \<Longrightarrow> cb_inv (cb_new d n)"
  by (simp add: cb_inv_def cb_new_def Let_def u32_wrap_less)

lemma cb_new_list: "cb_list (cb_new d n) = []"
  by (simp add: cb_list_def cb_new_def cb_len_def Let_def)

lemma cb_new_slots: "n < 2 ^ 31 \<Longrightarrow> cb_slots (cb_new d n) = n + 1"
  by (simp add: cb_new_def Let_def u32_wrap_less)

lemma cb_list_nth: "i < cb_len c \<Longrightarrow> cb_list c ! i = cb_items c ! ((cb_head c + i) mod cb_slots c)"
  by (simp add: cb_list_def)

lemma cb_step_unfold:
  assumes "cb_inv c"
  shows "cb_push_back d c =
      (if (cb_tail c + 1) mod cb_slots c \<noteq> cb_head c
       then (True, c\<lparr>cb_items := (cb_items c)[cb_tail c := d], cb_tail := (cb_tail c + 1) mod cb_slots c\<rparr>)
       else (False, c))"
    and "cb_push_front d c =
      (if (cb_head c + (cb_slots c - 1)) mod cb_slots c \<noteq> cb_tail c
       then (True, c\<lparr>cb_items := (cb_items c)[(cb_head c + (cb_slots c - 1)) mod cb_slots c := d],
                       cb_head := (cb_head c + (cb_slots c - 1)) mod cb_slots c\<rparr>)
       else (False, c))"
    and "cb_pop_front c =
      (if cb_head c \<noteq> cb_tail c
       then (Some (cb_items c ! cb_head c), c\<lparr>cb_head := (cb_head c + 1) mod cb_slots c\<rparr>)
       else (None, c))"
proof -
  have lt: "cb_tail c < cb_slots c" "cb_head c < cb_slots c" using assms by (auto simp: cb_inv_def)
  show "cb_push_back d c =
      (if (cb_tail c + 1) mod cb_slots c \<noteq> cb_head c
       then (True, c\<lparr>cb_items := (cb_items c)[cb_tail c := d], cb_tail := (cb_tail c + 1) mod cb_slots c\<rparr>)
       else (False, c))"
    unfolding cb_push_back_def cb_next_index [OF assms lt(1)] Let_def by (rule refl)
  show "cb_push_front d c =
      (if (cb_head c + (cb_slots c - 1)) mod cb_slots c \<noteq> cb_tail c
       then (True, c\<lparr>cb_items := (cb_items c)[(cb_head c + (cb_slots c - 1)) mod cb_slots c := d],
                       cb_head := (cb_head c + (cb_slots c - 1)) mod cb_slots c\<rparr>)
       else (False, c))"
    unfolding cb_push_front_def cb_prev_index [OF assms] Let_def by (rule refl)
  show "cb_pop_front c =
      (if cb_head c \<noteq> cb_tail c
       then (Some (cb_items c ! cb_head c), c\<lparr>cb_head := (cb_head c + 1) mod cb_slots c\<rparr>)
       else (None, c))"
    unfolding cb_pop_front_def cb_next_index [OF assms lt(2)] by (rule refl)
qed

lemma cb_push_back_ok:
  assumes "cb_inv c" "cb_len c < cb_slots c - 1"
  obtains c' where "cb_push_back d c = (True, c')" "cb_inv c'"
    "cb_list c' = cb_list c @ [d]" "cb_slots c' = cb_slots c"
proof -
  define c' where "c' = c\<lparr>cb_items := (cb_items c)[cb_tail c := d],
      cb_tail := (cb_tail c + 1) mod cb_slots c\<rparr>"
  have sel: "cb_items c' = (cb_items c)[cb_tail c := d]" "cb_head c' = cb_head c"
    "cb_slots c' = cb_slots c" by (simp_all add: c'_def)
  have ne: "(cb_tail c + 1) mod cb_slots c \<noteq> cb_head c"
    using assms by (auto simp: cb_inv_def cb_len_def mod_Suc split: if_splits)
  have len: "cb_len c' = Suc (cb_len c)"
    using assms by (auto simp: c'_def cb_inv_def cb_len_def mod_Suc split: if_splits)
  have old: "(cb_head c + i) mod cb_slots c = cb_tail c \<longleftrightarrow> i = cb_len c" if "i \<le> cb_len c" for i
    using that assms circ_mod_inj [of i "cb_slots c" "cb_len c" "cb_head c"]
      cb_len_less [OF assms(1)] cb_tail_eq [OF assms(1)] by auto
  have "cb_list c' = cb_list c @ [d]"
  proof (rule nth_equalityI)
    show "length (cb_list c') = length (cb_list c @ [d])" by (simp add: len)
  next
    fix i assume "i < length (cb_list c')"
    then have i: "i \<le> cb_len c" by (simp add: len)
    have nth: "cb_list c' ! i = (cb_items c)[cb_tail c := d] ! ((cb_head c + i) mod cb_slots c)"
      using i by (simp add: cb_list_nth len sel)
    show "cb_list c' ! i = (cb_list c @ [d]) ! i"
    proof (cases "i = cb_len c")
      case True
      with nth old [OF i] assms(1) show ?thesis by (simp add: nth_append cb_inv_def)
    next
      case False
      with nth old [OF i] i show ?thesis by (simp add: nth_append cb_list_nth)
    qed
  qed
  moreover have "cb_inv c'" "cb_slots c' = cb_slots c" using assms by (simp_all add: cb_inv_def c'_def)
  moreover have "cb_push_back d c = (True, c')"
    unfolding cb_step_unfold(1) [OF assms(1)] c'_def using ne by simp
  ultimately show ?thesis using that by simp
qed

lemma cb_push_back_full:
  assumes "cb_inv c" "cb_len c = cb_slots c - 1"
  shows "cb_push_back d c = (False, c)"
proof -
  have "(cb_tail c + 1) mod cb_slots c = cb_head c"
    using assms by (auto simp: cb_inv_def cb_len_def mod_Suc split: if_splits)
  then show ?thesis unfolding cb_step_unfold(1) [OF assms(1)] by simp
qed

lemma cb_push_front_ok:
  assumes "cb_inv c" "cb_len c < cb_slots c - 1"
  obtains c' where "cb_push_front d c = (True, c')" "cb_inv c'"
    "cb_list c' = d # cb_list c" "cb_slots c' = cb_slots c"
proof -
  define n where "n = cb_slots c"
  define h where "h = (cb_head c + (n - 1)) mod n"
  define c' where "c' = c\<lparr>cb_items := (cb_items c)[h := d], cb_head := h\<rparr>"
  have sel: "cb_items c' = (cb_items c)[h := d]" "cb_head c' = h" "cb_slots c' = n"
    by (simp_all add: c'_def n_def)
  have pos: "0 < n" and hn: "h < n" using assms by (auto simp: cb_inv_def n_def h_def)
  have ne: "h \<noteq> cb_tail c" and len: "cb_len c' = Suc (cb_len c)"
    using assms circ_mod_less [of "cb_head c" "cb_slots c" "cb_slots c - 1"]
    by (auto simp: h_def n_def c'_def cb_inv_def cb_len_def split: if_splits)
  have shift: "(h + Suc i) mod n = (cb_head c + i) mod n" for i
  proof -
    have "(h + Suc i) mod n = (cb_head c + (n - 1) + Suc i) mod n"
      unfolding h_def by (rule mod_add_left_eq)
    also have "cb_head c + (n - 1) + Suc i = cb_head c + i + n" using pos by simp
    finally show ?thesis by simp
  qed
  have old: "(cb_head c + i) mod n \<noteq> h" if "i < cb_len c" for i
  proof
    assume "(cb_head c + i) mod n = h"
    then have "i = n - 1"
      using that assms(2) pos unfolding h_def by (intro circ_mod_inj [of i n _ "cb_head c"]) (auto simp: n_def)
    with that assms(2) show False by (simp add: n_def)
  qed
  have "cb_list c' = d # cb_list c"
  proof (rule nth_equalityI)
    show "length (cb_list c') = length (d # cb_list c)" by (simp add: len)
  next
    fix i assume "i < length (cb_list c')"
    then have "i < Suc (cb_len c)" by (simp add: len)
    then show "cb_list c' ! i = (d # cb_list c) ! i"
      using assms(1) hn old shift [of "i - 1"]
      by (cases i) (auto simp: cb_list_nth len sel cb_inv_def n_def nth_list_update)
  qed
  moreover have "cb_inv c'" "cb_slots c' = cb_slots c"
    using assms hn by (simp_all add: cb_inv_def c'_def n_def)
  moreover have "cb_push_front d c = (True, c')"
    unfolding cb_step_unfold(2) [OF assms(1)] c'_def using ne by (simp add: h_def n_def)
  ultimately show ?thesis using that by simp
qed

lemma cb_push_front_full:
  assumes "cb_inv c" "cb_len c = cb_slots c - 1"
  shows "cb_push_front d c = (False, c)"
proof -
  have "(cb_head c + (cb_slots c - 1)) mod cb_slots c = cb_tail c"
    using assms(2) cb_tail_eq [OF assms(1)] by simp
  then show ?thesis unfolding cb_step_unfold(2) [OF assms(1)] by simp
qed

lemma cb_pop_front_empty:
  assumes "cb_inv c" "cb_list c = []"
  shows "cb_pop_front c = (None, c)"
  using assms by (simp add: cb_pop_front_def cb_list_Nil_iff)

lemma cb_pop_front_ok:
  assumes "cb_inv c" "cb_list c = x # xs"
  obtains c' where "cb_pop_front c = (Some x, c')" "cb_inv c'" "cb_list c' = xs"
    "cb_slots c' = cb_slots c"
proof -
  define c' where "c' = c\<lparr>cb_head := (cb_head c + 1) mod cb_slots c\<rparr>"
  have sel: "cb_items c' = cb_items c" "cb_head c' = (cb_head c + 1) mod cb_slots c"
    "cb_slots c' = cb_slots c" by (simp_all add: c'_def)
  have ne: "cb_head c \<noteq> cb_tail c" using assms cb_list_Nil_iff [of c] by auto
  have len: "cb_len c = Suc (cb_len c')"
    using assms(1) ne by (auto simp: c'_def cb_inv_def cb_len_def mod_Suc split: if_splits)
  have shift: "((cb_head c + 1) mod cb_slots c + i) mod cb_slots c = (cb_head c + Suc i) mod cb_slots c" for i
    by (subst mod_add_left_eq) simp
  have "cb_list c = cb_items c ! cb_head c # cb_list c'"
  proof (rule nth_equalityI)
    show "length (cb_list c) = length (cb_items c ! cb_head c # cb_list c')" by (simp add: len)
  next
    fix i assume "i < length (cb_list c)"
    then have "i < Suc (cb_len c')" by (simp add: len)
    then show "cb_list c ! i = (cb_items c ! cb_head c # cb_list c') ! i"
      using assms(1) shift [of "i - 1"] len
      by (cases i) (auto simp: cb_list_nth sel cb_inv_def)
  qed
  then have "x = cb_items c ! cb_head c" "cb_list c' = xs" using assms(2) by auto
  moreover have "cb_inv c'" "cb_slots c' = cb_slots c" using assms by (simp_all add: cb_inv_def c'_def)
  moreover have "cb_pop_front c = (Some (cb_items c ! cb_head c), c')"
    unfolding cb_step_unfold(3) [OF assms(1)] c'_def using ne by simp
  ultimately show ?thesis using that by simp
qed

lemma cb_clear_ok:
  assumes "cb_inv c"
  shows "cb_inv (cb_clear c)" "cb_list (cb_clear c) = []" "cb_slots (cb_clear c) = cb_slots c"
  using assms by (simp_all add: cb_inv_def cb_clear_def cb_list_def cb_len_def)

text \<open>
  \<open>push_back_override\<close> is a pop of the oldest item when the ring is full, then a push.
\<close>

lemma cb_push_back_override_room:
  assumes "cb_inv c" "cb_len c < cb_slots c - 1"
  shows "cb_push_back_override d c = (None, snd (cb_push_back d c))"
proof -
  have lt: "cb_tail c < cb_slots c" using assms by (simp add: cb_inv_def)
  obtain c' where "cb_push_back d c = (True, c')" using cb_push_back_ok [OF assms] by metis
  then have "(cb_tail c + 1) mod cb_slots c \<noteq> cb_head c"
    unfolding cb_step_unfold(1) [OF assms(1)] by (auto split: if_splits)
  then show ?thesis
    unfolding cb_push_back_override_def cb_step_unfold(1) [OF assms(1)]
      cb_next_index [OF assms(1) lt] Let_def by simp
qed

lemma cb_push_back_override_full:
  assumes "cb_inv c" "cb_len c = cb_slots c - 1" "2 \<le> cb_slots c"
  shows "cb_push_back_override d c =
    (fst (cb_pop_front c), snd (cb_push_back d (snd (cb_pop_front c))))"
proof -
  have lt: "cb_tail c < cb_slots c" "cb_head c < cb_slots c" using assms by (auto simp: cb_inv_def)
  have full: "(cb_tail c + 1) mod cb_slots c = cb_head c"
    using assms by (auto simp: cb_inv_def cb_len_def mod_Suc split: if_splits)
  have ne: "cb_head c \<noteq> cb_tail c" using assms by (auto simp: cb_len_def)
  have inv': "cb_inv (c\<lparr>cb_head := (cb_head c + 1) mod cb_slots c\<rparr>)"
    using assms(1) by (simp add: cb_inv_def)
  have ne': "cb_head c \<noteq> (cb_head c + 1) mod cb_slots c"
    using lt assms(3) by (simp add: mod_Suc)
  show ?thesis
    unfolding cb_push_back_override_def cb_step_unfold(3) [OF assms(1)]
      cb_next_index [OF assms(1) lt(1)] cb_next_index [OF assms(1) lt(2)] Let_def
    using ne full ne' cb_step_unfold(1) [OF inv', of d] by simp
qed

lemma cb_push_back_override_ok:
  assumes "cb_inv c" "2 \<le> cb_slots c"
  shows "cb_inv (snd (cb_push_back_override d c))"
    and "cb_list (snd (cb_push_back_override d c)) =
      (if cb_len c < cb_slots c - 1 then cb_list c @ [d] else tl (cb_list c) @ [d])"
    and "fst (cb_push_back_override d c) =
      (if cb_len c < cb_slots c - 1 then None else Some (hd (cb_list c)))"
proof -
  consider (room) "cb_len c < cb_slots c - 1" | (full) "cb_len c = cb_slots c - 1"
    using cb_len_less [OF assms(1)] by linarith
  then have "cb_inv (snd (cb_push_back_override d c)) \<and>
      cb_list (snd (cb_push_back_override d c)) =
        (if cb_len c < cb_slots c - 1 then cb_list c @ [d] else tl (cb_list c) @ [d]) \<and>
      fst (cb_push_back_override d c) =
        (if cb_len c < cb_slots c - 1 then None else Some (hd (cb_list c)))"
  proof cases
    case room
    obtain c' where "cb_push_back d c = (True, c')" "cb_inv c'" "cb_list c' = cb_list c @ [d]"
      using cb_push_back_ok [OF assms(1) room] by metis
    with room show ?thesis by (simp add: cb_push_back_override_room [OF assms(1) room])
  next
    case full
    obtain x xs where xs: "cb_list c = x # xs"
      using full assms(2) length_cb_list [of c] by (cases "cb_list c") auto
    obtain c1 where c1: "cb_pop_front c = (Some x, c1)" "cb_inv c1" "cb_list c1 = xs"
      "cb_slots c1 = cb_slots c" using cb_pop_front_ok [OF assms(1) xs] by metis
    have "cb_len c1 < cb_slots c1 - 1"
      using c1(3,4) full assms(2) length_cb_list [of c] length_cb_list [of c1] xs by simp
    then obtain c2 where "cb_push_back d c1 = (True, c2)" "cb_inv c2" "cb_list c2 = xs @ [d]"
      using cb_push_back_ok [OF c1(2)] c1(3) by metis
    with c1 xs full show ?thesis by (simp add: cb_push_back_override_full [OF assms(1) full assms(2)])
  qed
  then show "cb_inv (snd (cb_push_back_override d c))"
    "cb_list (snd (cb_push_back_override d c)) =
      (if cb_len c < cb_slots c - 1 then cb_list c @ [d] else tl (cb_list c) @ [d])"
    "fst (cb_push_back_override d c) =
      (if cb_len c < cb_slots c - 1 then None else Some (hd (cb_list c)))" by auto
qed

text \<open>\<open>for_each\<close> terminates and visits the contents in order.\<close>

lemma cb_index_eq_tail:
  assumes "cb_inv c" "k \<le> cb_len c"
  shows "(cb_head c + k) mod cb_slots c = cb_tail c \<longleftrightarrow> k = cb_len c"
  using assms circ_mod_inj [of k "cb_slots c" "cb_len c" "cb_head c"]
    cb_len_less [OF assms(1)] cb_tail_eq [OF assms(1)] by auto

lemma cb_visit_from:
  assumes "cb_inv c" "k \<le> cb_len c"
  shows "cb_visit c ((cb_head c + k) mod cb_slots c) seen = Some (seen @ drop k (cb_list c))"
  using assms(2)
proof (induction "cb_len c - k" arbitrary: k seen)
  case 0
  then have "k = cb_len c" by simp
  then show ?case
    by (subst cb_visit.simps) (simp add: cb_index_eq_tail [OF assms(1)])
next
  case (Suc n)
  let ?i = "(cb_head c + k) mod cb_slots c"
  have lt: "?i < cb_slots c" using assms(1) by (simp add: cb_inv_def)
  have k: "k < cb_len c" using Suc.hyps(2) by simp
  then have ne: "?i \<noteq> cb_tail c" using cb_index_eq_tail [OF assms(1)] Suc.prems by simp
  have nxt: "(?i + 1) mod cb_slots c = (cb_head c + Suc k) mod cb_slots c"
    by (subst mod_add_left_eq) simp
  have "cb_visit c ?i seen = cb_visit c ((cb_head c + Suc k) mod cb_slots c) (seen @ [cb_items c ! ?i])"
    using ne by (subst cb_visit.simps) (simp only: if_False cb_next_index [OF assms(1) lt] nxt)
  also have "\<dots> = Some ((seen @ [cb_items c ! ?i]) @ drop (Suc k) (cb_list c))"
    using Suc.hyps k by (intro Suc.hyps(1)) auto
  also have "\<dots> = Some (seen @ drop k (cb_list c))"
    using k by (simp add: Cons_nth_drop_Suc [symmetric] cb_list_nth)
  finally show ?case .
qed

lemma cb_for_each_eq:
  assumes "cb_inv c"
  shows "cb_for_each c = Some (cb_list c)"
  using cb_visit_from [OF assms, of 0 "[]"] assms by (simp add: cb_for_each_def cb_inv_def)

text \<open>\<open>work_steal\<close> moves a prefix of the victim to the end of the thief.\<close>

lemma cb_steal_loop_ok:
  assumes "cb_inv cb" "cb_inv (self\<lparr>cb_tail := t\<rparr>)" "n < cb_len cb"
    and "cb_len (self\<lparr>cb_tail := t\<rparr>) + n \<le> cb_slots self - 1"
    and "cb_steal_loop n t self cb = (t', self', cb')"
  shows "cb_inv cb' \<and> cb_inv (self'\<lparr>cb_tail := t'\<rparr>) \<and> cb_list cb' = drop n (cb_list cb) \<and>
    cb_list (self'\<lparr>cb_tail := t'\<rparr>) = cb_list (self\<lparr>cb_tail := t\<rparr>) @ take n (cb_list cb) \<and>
    cb_slots cb' = cb_slots cb \<and> cb_slots self' = cb_slots self"
  using assms
proof (induction n arbitrary: t self cb)
  case 0
  then show ?case by simp
next
  case (Suc n)
  define s where "s = self\<lparr>cb_tail := t\<rparr>"
  obtain x xs where xs: "cb_list cb = x # xs"
    using Suc.prems(3) length_cb_list [of cb] by (cases "cb_list cb") auto
  obtain cb1 where cb1: "cb_pop_front cb = (Some x, cb1)" "cb_inv cb1" "cb_list cb1 = xs"
    "cb_slots cb1 = cb_slots cb" using cb_pop_front_ok [OF Suc.prems(1) xs] by metis
  have sinv: "cb_inv s" and room: "cb_len s < cb_slots s - 1"
    using Suc.prems(2,4) by (auto simp: s_def)
  obtain s1 where s1: "cb_push_back x s = (True, s1)" "cb_inv s1" "cb_list s1 = cb_list s @ [x]"
    "cb_slots s1 = cb_slots s" using cb_push_back_ok [OF sinv room] by metis
  define self1 where "self1 = self\<lparr>cb_items := (cb_items self)[t := x]\<rparr>"
  define t1 where "t1 = (t + 1) mod cb_slots self"
  have x: "x = cb_items cb ! cb_head cb"
    and cb1_eq: "cb1 = cb\<lparr>cb_head := (cb_head cb + 1) mod cb_slots cb\<rparr>"
    using cb1(1) unfolding cb_step_unfold(3) [OF Suc.prems(1)] by (auto split: if_splits)
  have s1_eq: "s1 = self1\<lparr>cb_tail := t1\<rparr>"
    using s1(1) unfolding cb_step_unfold(1) [OF sinv] by (auto simp: s_def self1_def t1_def split: if_splits)
  have w1: "u32_wrap (t + 1) mod cb_slots self = t1"
    using cb_next_index [OF Suc.prems(2), of t] Suc.prems(2) by (simp add: t1_def cb_inv_def)
  have w2: "u32_wrap (cb_head cb + 1) mod cb_slots cb = (cb_head cb + 1) mod cb_slots cb"
    using cb_next_index [OF Suc.prems(1), of "cb_head cb"] Suc.prems(1) by (simp add: cb_inv_def)
  have "cb_steal_loop n t1 self1 cb1 = (t', self', cb')"
    using Suc.prems(5) unfolding cb_steal_loop.simps Let_def w1 w2 x self1_def cb1_eq by simp
  moreover have "cb_inv (self1\<lparr>cb_tail := t1\<rparr>)" using s1(2) by (simp add: s1_eq)
  moreover have "n < cb_len cb1" "cb_len (self1\<lparr>cb_tail := t1\<rparr>) + n \<le> cb_slots self1 - 1"
    using Suc.prems(3,4) cb1(3) xs s1(3) length_cb_list [of cb] length_cb_list [of cb1]
      length_cb_list [of s] length_cb_list [of s1]
    by (auto simp: s1_eq self1_def s_def)
  ultimately have "cb_inv cb' \<and> cb_inv (self'\<lparr>cb_tail := t'\<rparr>) \<and> cb_list cb' = drop n (cb_list cb1) \<and>
    cb_list (self'\<lparr>cb_tail := t'\<rparr>) = cb_list (self1\<lparr>cb_tail := t1\<rparr>) @ take n (cb_list cb1) \<and>
    cb_slots cb' = cb_slots cb1 \<and> cb_slots self' = cb_slots self1"
    using cb1(2) by (intro Suc.IH) auto
  then show ?case using cb1 s1 xs by (simp add: s1_eq s_def self1_def)
qed

lemma cb_work_steal_ok:
  assumes "cb_inv self" "cb_inv cb" "2 \<le> cb_len cb"
    and "k = min (cb_len cb div 2) (cb_slots self - 1 - cb_len self)"
  obtains self' cb' where "cb_work_steal True self cb = (True, self', cb')" "cb_inv self'" "cb_inv cb'"
    "cb_list self' = cb_list self @ take k (cb_list cb)" "cb_list cb' = drop k (cb_list cb)"
proof -
  have k: "min (cb_size cb div 2) (u32_sub (cb_capacity self) (cb_size self)) = k"
    using assms cb_len_less [OF assms(1)]
    by (auto simp: cb_size_eq cb_capacity_eq u32_sub_le cb_inv_def)
  obtain t self1 cb1 where loop: "cb_steal_loop k (cb_tail self) self cb = (t, self1, cb1)"
    by (metis prod_cases3)
  have "cb_work_steal True self cb = (True, self1\<lparr>cb_tail := t\<rparr>, cb1)"
    using assms(3) unfolding cb_work_steal_def k by (simp add: cb_size_eq [OF assms(2)] loop Let_def)
  moreover have "k < cb_len cb" "cb_len self + k \<le> cb_slots self - 1"
    using assms(3,4) cb_len_less [OF assms(1)] by auto
  then have "cb_inv cb1 \<and> cb_inv (self1\<lparr>cb_tail := t\<rparr>) \<and> cb_list cb1 = drop k (cb_list cb) \<and>
    cb_list (self1\<lparr>cb_tail := t\<rparr>) = cb_list self @ take k (cb_list cb)"
    using cb_steal_loop_ok [OF assms(2) _ _ _ loop] assms(1) by simp
  ultimately show ?thesis using that by metis
qed

section \<open>The contract of a bounded pool with a front end\<close>

text \<open>
  What \<open>SharedPool\<close> and the timing wheel use of a ring: pushes and pops at the front, which
  report failure instead of losing an item. The two transfer loops of \<open>SharedPool\<close> are
  written over the interface; \<open>migrate\<close> is the counted loop in which a failing pop or push is a
  failed \<open>UCCL_CHECK\<close> (\<open>None\<close>), \<open>drain\<close> the loop \<open>while (a.pop_front(&x)) b.push_front(x)\<close>
  that ignores the result of the push.
\<close>

fun migrate ::
    "('q \<Rightarrow> 'a option \<times> 'q) \<Rightarrow> ('a \<Rightarrow> 'q \<Rightarrow> bool \<times> 'q) \<Rightarrow> nat \<Rightarrow> 'q \<Rightarrow> 'q \<Rightarrow> ('q \<times> 'q) option"
  where
  "migrate pop push 0 src dst = Some (src, dst)"
| "migrate pop push (Suc n) src dst =
     (case pop src of
        (None, _) \<Rightarrow> None
      | (Some x, src') \<Rightarrow>
          (case push x dst of
             (False, _) \<Rightarrow> None
           | (True, dst') \<Rightarrow> migrate pop push n src' dst'))"

partial_function (option) drain ::
    "('q \<Rightarrow> 'a option \<times> 'q) \<Rightarrow> ('a \<Rightarrow> 'q \<Rightarrow> bool \<times> 'q) \<Rightarrow> 'q \<Rightarrow> 'q \<Rightarrow> ('q \<times> 'q) option"
  where
  "drain pop push src dst =
     (case pop src of
        (None, src') \<Rightarrow> Some (src', dst)
      | (Some x, src') \<Rightarrow> drain pop push src' (snd (push x dst)))"

declare drain.simps [code] cb_visit.simps [code]

locale bounded_deque =
  fixes invar :: "'q \<Rightarrow> bool"
    and contents :: "'q \<Rightarrow> 'a list"
    and room :: "'q \<Rightarrow> nat"
    and push_front :: "'a \<Rightarrow> 'q \<Rightarrow> bool \<times> 'q"
    and pop_front :: "'q \<Rightarrow> 'a option \<times> 'q"
  assumes contents_room: "invar q \<Longrightarrow> length (contents q) \<le> room q"
    and push_front_ok: "invar q \<Longrightarrow> length (contents q) < room q \<Longrightarrow>
      \<exists>q'. push_front x q = (True, q') \<and> invar q' \<and> contents q' = x # contents q \<and> room q' = room q"
    and push_front_full: "invar q \<Longrightarrow> length (contents q) = room q \<Longrightarrow> push_front x q = (False, q)"
    and pop_front_ok: "invar q \<Longrightarrow> contents q = x # xs \<Longrightarrow>
      \<exists>q'. pop_front q = (Some x, q') \<and> invar q' \<and> contents q' = xs \<and> room q' = room q"
    and pop_front_empty: "invar q \<Longrightarrow> contents q = [] \<Longrightarrow> pop_front q = (None, q)"
begin

lemma push_front_invar:
  assumes "invar q"
  shows "invar (snd (push_front x q))" and "room (snd (push_front x q)) = room q"
    and "contents (snd (push_front x q)) =
      (if length (contents q) < room q then x # contents q else contents q)"
proof -
  have "invar (snd (push_front x q)) \<and> room (snd (push_front x q)) = room q \<and>
    contents (snd (push_front x q)) =
      (if length (contents q) < room q then x # contents q else contents q)"
  proof (cases "length (contents q) < room q")
    case True
    then show ?thesis using push_front_ok [OF assms True, of x] by auto
  next
    case False
    then have "length (contents q) = room q" using contents_room [OF assms] by simp
    with False show ?thesis using push_front_full [OF assms, of x] assms by simp
  qed
  then show "invar (snd (push_front x q))" "room (snd (push_front x q)) = room q"
    "contents (snd (push_front x q)) =
      (if length (contents q) < room q then x # contents q else contents q)" by auto
qed

lemma migrate_ok:
  assumes "invar a" "invar b" "n \<le> length (contents a)" "length (contents b) + n \<le> room b"
  shows "\<exists>a' b'. migrate pop_front push_front n a b = Some (a', b') \<and> invar a' \<and> invar b' \<and>
    contents a' = drop n (contents a) \<and> contents b' = rev (take n (contents a)) @ contents b \<and>
    room a' = room a \<and> room b' = room b"
  using assms
proof (induction n arbitrary: a b)
  case 0
  then show ?case by simp
next
  case (Suc n)
  then obtain x xs where xs: "contents a = x # xs" by (cases "contents a") auto
  obtain a1 where a1: "pop_front a = (Some x, a1)" "invar a1" "contents a1 = xs" "room a1 = room a"
    using pop_front_ok [OF Suc.prems(1) xs] by auto
  obtain b1 where b1: "push_front x b = (True, b1)" "invar b1" "contents b1 = x # contents b" "room b1 = room b"
    using push_front_ok [OF Suc.prems(2), of x] Suc.prems(4) by auto
  have "n \<le> length (contents a1)" "length (contents b1) + n \<le> room b1"
    using Suc.prems xs a1 b1 by auto
  then show ?case using Suc.IH [OF a1(2) b1(2)] a1 b1 xs by auto
qed

lemma migrate_short:
  assumes "invar a" "invar b" "length (contents a) < n"
  shows "migrate pop_front push_front n a b = None"
  using assms
proof (induction n arbitrary: a b)
  case 0
  then show ?case by simp
next
  case (Suc n)
  show ?case
  proof (cases "contents a")
    case Nil
    then show ?thesis using pop_front_empty [OF Suc.prems(1)] by simp
  next
    case (Cons x xs)
    obtain a1 where a1: "pop_front a = (Some x, a1)" "invar a1" "contents a1 = xs"
      using pop_front_ok [OF Suc.prems(1) Cons] by auto
    obtain ok b1 where b1: "push_front x b = (ok, b1)" by (cases "push_front x b")
    have "invar b1" using push_front_invar(1) [OF Suc.prems(2), of x] b1 by simp
    then have "migrate pop_front push_front n a1 b1 = None"
      using Suc.IH [OF a1(2)] Suc.prems(3) Cons a1(3) by simp
    then show ?thesis using a1 b1 by (simp split: bool.split)
  qed
qed

lemma migrate_no_room:
  assumes "invar a" "invar b" "n \<le> length (contents a)" "room b < length (contents b) + n"
  shows "migrate pop_front push_front n a b = None"
  using assms
proof (induction n arbitrary: a b)
  case 0
  then show ?case using contents_room [of b] by simp
next
  case (Suc n)
  then obtain x xs where xs: "contents a = x # xs" by (cases "contents a") auto
  obtain a1 where a1: "pop_front a = (Some x, a1)" "invar a1" "contents a1 = xs"
    using pop_front_ok [OF Suc.prems(1) xs] by auto
  show ?case
  proof (cases "length (contents b) < room b")
    case True
    then obtain b1 where b1: "push_front x b = (True, b1)" "invar b1" "contents b1 = x # contents b"
      "room b1 = room b" using push_front_ok [OF Suc.prems(2)] by metis
    have "migrate pop_front push_front n a1 b1 = None"
      using Suc.prems a1 b1 xs by (intro Suc.IH) auto
    then show ?thesis using a1 b1 by simp
  next
    case False
    then have "length (contents b) = room b" using contents_room [OF Suc.prems(2)] by simp
    then show ?thesis using push_front_full [OF Suc.prems(2)] a1 by simp
  qed
qed

lemma drain_ok:
  assumes "invar a" "invar b" "length (contents a) + length (contents b) \<le> room b"
  shows "\<exists>a' b'. drain pop_front push_front a b = Some (a', b') \<and> invar a' \<and> invar b' \<and>
    contents a' = [] \<and> contents b' = rev (contents a) @ contents b \<and> room a' = room a \<and> room b' = room b"
  using assms
proof (induction "contents a" arbitrary: a b)
  case Nil
  then show ?case using pop_front_empty [of a] by (subst drain.simps) simp
next
  case (Cons x xs)
  obtain a1 where a1: "pop_front a = (Some x, a1)" "invar a1" "contents a1 = xs" "room a1 = room a"
    using pop_front_ok [OF Cons.prems(1) Cons.hyps(2) [symmetric]] by auto
  have len: "length (contents b) < room b" using Cons.prems(3) Cons.hyps(2) [symmetric] by simp
  let ?b = "snd (push_front x b)"
  have b1: "invar ?b" "room ?b = room b" "contents ?b = x # contents b"
    using push_front_invar [OF Cons.prems(2), of x] len by auto
  have "\<exists>a' b'. drain pop_front push_front a1 ?b = Some (a', b') \<and> invar a' \<and> invar b' \<and>
      contents a' = [] \<and> contents b' = rev (contents a1) @ contents ?b \<and> room a' = room a1 \<and> room b' = room ?b"
    using Cons.prems(3) Cons.hyps(2) [symmetric] a1 b1 by (intro Cons.hyps(1)) auto
  then show ?case using a1 b1 Cons.hyps(2) [symmetric] by (subst drain.simps) auto
qed

end

interpretation ring: bounded_deque cb_inv cb_list "\<lambda>c. cb_slots c - 1" cb_push_front cb_pop_front
proof
  fix c :: "'b CircularBuffer" and x :: 'b and xs :: "'b list"
  show "length (cb_list c) \<le> cb_slots c - 1" if "cb_inv c"
    using cb_len_less [OF that] by simp
  show "\<exists>q'. cb_push_front x c = (True, q') \<and> cb_inv q' \<and> cb_list q' = x # cb_list c \<and>
      cb_slots q' - 1 = cb_slots c - 1"
    if "cb_inv c" "length (cb_list c) < cb_slots c - 1"
    using cb_push_front_ok [of c x] that by (metis length_cb_list)
  show "cb_push_front x c = (False, c)" if "cb_inv c" "length (cb_list c) = cb_slots c - 1"
    using cb_push_front_full [of c x] that by simp
  show "\<exists>q'. cb_pop_front c = (Some x, q') \<and> cb_inv q' \<and> cb_list q' = xs \<and> cb_slots q' - 1 = cb_slots c - 1"
    if "cb_inv c" "cb_list c = x # xs"
    using cb_pop_front_ok [OF that] by metis
  show "cb_pop_front c = (None, c)" if "cb_inv c" "cb_list c = []"
    using that by (rule cb_pop_front_empty)
qed

section \<open>Histories\<close>

text \<open>
  The abstract specification is a list of at most \<open>cap\<close> items. A history of calls on a fresh ring
  returns the results the list gives, and leaves the ring holding the list.
\<close>

datatype 'a ring_op = PushFront 'a | PushBack 'a | PushOverride 'a | PopFront | Clear | ForEach

datatype 'a ring_result = Accepted bool | Item "'a option" | Done | Visited "'a list option"

fun ring_spec :: "nat \<Rightarrow> 'a ring_op \<Rightarrow> 'a list \<Rightarrow> 'a ring_result \<times> 'a list" where
  "ring_spec cap (PushFront x) xs = (if length xs < cap then (Accepted True, x # xs) else (Accepted False, xs))"
| "ring_spec cap (PushBack x) xs = (if length xs < cap then (Accepted True, xs @ [x]) else (Accepted False, xs))"
| "ring_spec cap (PushOverride x) xs =
     (if length xs < cap then (Item None, xs @ [x]) else (Item (Some (hd xs)), tl xs @ [x]))"
| "ring_spec cap PopFront xs = (case xs of [] \<Rightarrow> (Item None, []) | x # xs' \<Rightarrow> (Item (Some x), xs'))"
| "ring_spec cap Clear xs = (Done, [])"
| "ring_spec cap ForEach xs = (Visited (Some xs), xs)"

fun ring_step :: "'a ring_op \<Rightarrow> 'a CircularBuffer \<Rightarrow> 'a ring_result \<times> 'a CircularBuffer" where
  "ring_step (PushFront x) c = (let (ok, c') = cb_push_front x c in (Accepted ok, c'))"
| "ring_step (PushBack x) c = (let (ok, c') = cb_push_back x c in (Accepted ok, c'))"
| "ring_step (PushOverride x) c = (let (y, c') = cb_push_back_override x c in (Item y, c'))"
| "ring_step PopFront c = (let (y, c') = cb_pop_front c in (Item y, c'))"
| "ring_step Clear c = (Done, cb_clear c)"
| "ring_step ForEach c = (Visited (cb_for_each c), c)"

fun run_ops :: "('o \<Rightarrow> 's \<Rightarrow> 'r \<times> 's) \<Rightarrow> 'o list \<Rightarrow> 's \<Rightarrow> 'r list \<times> 's" where
  "run_ops step [] s = ([], s)"
| "run_ops step (o1 # os) s =
     (let (r, s1) = step o1 s; (rs, s2) = run_ops step os s1 in (r # rs, s2))"

lemma ring_step_refines:
  assumes "cb_inv c" "2 \<le> cb_slots c"
  shows "\<exists>r c'. ring_step o1 c = (r, c') \<and> cb_inv c' \<and> cb_slots c' = cb_slots c \<and>
    ring_spec (cb_slots c - 1) o1 (cb_list c) = (r, cb_list c')"
proof -
  have full: "cb_len c = cb_slots c - 1" if "\<not> cb_len c < cb_slots c - 1"
    using that cb_len_less [OF assms(1)] by simp
  have front: "\<exists>c'. cb_push_front x c = (True, c') \<and> cb_inv c' \<and> cb_slots c' = cb_slots c \<and>
      cb_list c' = x # cb_list c" if "cb_len c < cb_slots c - 1" for x
    by (rule cb_push_front_ok [OF assms(1) that]) blast
  have rear: "\<exists>c'. cb_push_back x c = (True, c') \<and> cb_inv c' \<and> cb_slots c' = cb_slots c \<and>
      cb_list c' = cb_list c @ [x]" if "cb_len c < cb_slots c - 1" for x
    by (rule cb_push_back_ok [OF assms(1) that]) blast
  show ?thesis
  proof (cases o1)
    case (PushFront x)
    then show ?thesis using full front [of x] cb_push_front_full [OF assms(1), of x] assms(1)
      by (cases "cb_len c < cb_slots c - 1") auto
  next
    case (PushBack x)
    then show ?thesis using full rear [of x] cb_push_back_full [OF assms(1), of x] assms(1)
      by (cases "cb_len c < cb_slots c - 1") auto
  next
    case (PushOverride x)
    have "cb_slots (snd (cb_push_back_override x c)) = cb_slots c"
      by (simp add: cb_push_back_override_def Let_def)
    with PushOverride show ?thesis using cb_push_back_override_ok [OF assms, of x]
      by (cases "cb_push_back_override x c") auto
  next
    case PopFront
    then show ?thesis using cb_pop_front_empty [OF assms(1)] assms(1)
      by (cases "cb_list c") (auto elim: cb_pop_front_ok [OF assms(1)])
  next
    case Clear
    then show ?thesis using cb_clear_ok [OF assms(1)] by simp
  next
    case ForEach
    then show ?thesis using cb_for_each_eq [OF assms(1)] assms(1) by simp
  qed
qed

lemma run_ops_refines:
  assumes "\<And>o1 s. ok s \<Longrightarrow> \<exists>r s'. step o1 s = (r, s') \<and> ok s' \<and> spec o1 (absf s) = (r, absf s')"
    and "ok s"
  shows "\<exists>rs s'. run_ops step os s = (rs, s') \<and> ok s' \<and> run_ops spec os (absf s) = (rs, absf s')"
  using assms(2)
proof (induction os arbitrary: s)
  case Nil
  then show ?case by simp
next
  case (Cons o1 os)
  obtain r s1 where st: "step o1 s = (r, s1)" "ok s1" "spec o1 (absf s) = (r, absf s1)"
    using assms(1) [OF Cons.prems] by blast
  then show ?case using Cons.IH [OF st(2)] by auto
qed

text \<open>
  C25: any sequence of \<open>push_front\<close>, \<open>push_back\<close>, \<open>push_back_override\<close>, \<open>pop_front\<close>, \<open>clear\<close> and
  \<open>for_each\<close> calls on a freshly constructed \<open>CircularBuffer\<close> of \<open>cap\<close> items returns, call by
  call, what a list bounded by \<open>cap\<close> items returns, whatever the wrap-around of its indices.
\<close>

theorem ring_history_refines:
  assumes "0 < cap" "cap < 2 ^ 31"
  shows "apsnd cb_list (run_ops ring_step os (cb_new d cap)) = run_ops (ring_spec cap) os []"
proof -
  have step: "\<exists>r c'. ring_step o1 c = (r, c') \<and> (cb_inv c' \<and> cb_slots c' = cap + 1) \<and>
      ring_spec cap o1 (cb_list c) = (r, cb_list c')"
    if "cb_inv c \<and> cb_slots c = cap + 1" for o1 and c :: "'a CircularBuffer"
    using ring_step_refines [of c o1] that assms(1) by auto
  have "cb_inv (cb_new d cap) \<and> cb_slots (cb_new d cap) = cap + 1"
    using assms(2) by (simp add: cb_new_inv cb_new_slots)
  from run_ops_refines [where absf = cb_list and ok = "\<lambda>c. cb_inv c \<and> cb_slots c = cap + 1"
      and step = ring_step and spec = "ring_spec cap", OF step this, of os]
  show ?thesis by (auto simp: cb_new_list)
qed

theorem ring_history_refines_witness:
  "(0::nat) < 2 \<and> (2::nat) < 2 ^ 31 \<and>
   fst (run_ops ring_step [PushBack 1, PushFront 2, PushBack 3, PopFront, PushOverride 4] (cb_new 0 2)) =
     [Accepted True, Accepted True, Accepted False, Item (Some 2), Item (None :: nat option)]"
proof -
  have "apsnd cb_list (run_ops ring_step [PushBack 1, PushFront 2, PushBack 3, PopFront, PushOverride 4]
      (cb_new (0::nat) 2)) = run_ops (ring_spec 2) [PushBack 1, PushFront 2, PushBack 3, PopFront, PushOverride 4] []"
    by (rule ring_history_refines) simp_all
  then have "fst (run_ops ring_step [PushBack 1, PushFront 2, PushBack 3, PopFront, PushOverride 4]
      (cb_new (0::nat) 2)) = fst (run_ops (ring_spec 2) [PushBack 1, PushFront 2, PushBack 3, PopFront, PushOverride 4] [])"
    by (metis fst_apsnd)
  then show ?thesis by simp
qed

end
