(* ===== verification/SharedPool.thy ===== *)
theory SharedPool
  imports CircularBuffer "HOL-Library.Multiset"
begin

text \<open>
  The template \<open>SharedPool<T, Sync>\<close> of \<open>include/util/shared_pool.h\<close>: a global ring plus, when
  \<open>Sync\<close> is set, one ring of 64 cached items per thread. Items move between a thread's cache and
  the global ring 64 at a time under the global spin lock, so every operation is one atomic step
  of the calling thread. A failed \<open>UCCL_CHECK\<close> aborts the process and is the result \<open>None\<close>.

  The lemmas show that the pool neither loses nor duplicates an item, and when its checks hold.
\<close>

section \<open>State and operations\<close>

definition kNumCachedItemsPerCPU :: nat where
  "kNumCachedItemsPerCPU = 64"

text \<open>
  \<open>sp_cleaned\<close> records the items handed to the \<open>cleanup_\<close> callback, in order; \<open>sp_attached\<close> is the
  \<open>shared_pool_ptr_\<close> of each thread cache, set when the thread first talks to the global ring.
\<close>

record 'a SharedPool =
  global_pool :: "'a CircularBuffer"
  th_cache :: "nat \<Rightarrow> 'a CircularBuffer"
  sp_attached :: "nat \<Rightarrow> bool"
  sp_cleaned :: "'a list"
  sp_shutdown :: bool

definition SharedPool_new :: "'a \<Rightarrow> nat \<Rightarrow> 'a SharedPool" where
  "SharedPool_new d cap =
     \<lparr>global_pool = cb_new d cap, th_cache = (\<lambda>_. cb_new d kNumCachedItemsPerCPU),
      sp_attached = (\<lambda>_. False), sp_cleaned = [], sp_shutdown = False\<rparr>"

definition SharedPool_push :: "bool \<Rightarrow> nat \<Rightarrow> 'a \<Rightarrow> 'a SharedPool \<Rightarrow> 'a SharedPool option" where
  "SharedPool_push sync t item p0 =
     (let p = p0\<lparr>sp_cleaned := sp_cleaned p0 @ [item]\<rparr>
      in if sync then
           (case (if cb_size (th_cache p t) = kNumCachedItemsPerCPU
                  then (case migrate cb_pop_front cb_push_front kNumCachedItemsPerCPU
                               (th_cache p t) (global_pool p) of
                          None \<Rightarrow> None
                        | Some (cache, glob) \<Rightarrow>
                            Some (p\<lparr>global_pool := glob, th_cache := (th_cache p)(t := cache),
                                    sp_attached := (sp_attached p)(t := True)\<rparr>))
                  else Some p) of
              None \<Rightarrow> None
            | Some p1 \<Rightarrow>
                (case cb_push_front item (th_cache p1 t) of
                   (False, _) \<Rightarrow> None
                 | (True, cache) \<Rightarrow> Some (p1\<lparr>th_cache := (th_cache p1)(t := cache)\<rparr>)))
         else
           (case cb_push_front item (global_pool p) of
              (False, _) \<Rightarrow> None
            | (True, glob) \<Rightarrow> Some (p\<lparr>global_pool := glob\<rparr>)))"

definition SharedPool_pop :: "bool \<Rightarrow> nat \<Rightarrow> 'a SharedPool \<Rightarrow> ('a \<times> 'a SharedPool) option" where
  "SharedPool_pop sync t p =
     (if sync then
        (case (if cb_size (th_cache p t) = 0
               then (case migrate cb_pop_front cb_push_front kNumCachedItemsPerCPU
                            (global_pool p) (th_cache p t) of
                       None \<Rightarrow> None
                     | Some (glob, cache) \<Rightarrow>
                         Some (p\<lparr>global_pool := glob, th_cache := (th_cache p)(t := cache),
                                 sp_attached := (sp_attached p)(t := True)\<rparr>))
               else Some p) of
           None \<Rightarrow> None
         | Some p1 \<Rightarrow>
             (case cb_pop_front (th_cache p1 t) of
                (None, _) \<Rightarrow> None
              | (Some item, cache) \<Rightarrow> Some (item, p1\<lparr>th_cache := (th_cache p1)(t := cache)\<rparr>)))
      else
        (case cb_pop_front (global_pool p) of
           (None, _) \<Rightarrow> None
         | (Some item, glob) \<Rightarrow> Some (item, p\<lparr>global_pool := glob\<rparr>)))"

definition SharedPool_flush_th_cache :: "bool \<Rightarrow> nat \<Rightarrow> 'a SharedPool \<Rightarrow> 'a SharedPool option" where
  "SharedPool_flush_th_cache sync t p =
     (if sync then
        (case drain cb_pop_front cb_push_front (th_cache p t) (global_pool p) of
           None \<Rightarrow> None
         | Some (cache, glob) \<Rightarrow>
             Some (p\<lparr>global_pool := glob, th_cache := (th_cache p)(t := cache),
                     sp_attached := (sp_attached p)(t := True)\<rparr>))
      else Some p)"

definition SharedPool_size :: "bool \<Rightarrow> nat \<Rightarrow> 'a SharedPool \<Rightarrow> nat" where
  "SharedPool_size sync t p =
     (if sync then u32_wrap (cb_size (th_cache p t) + cb_size (global_pool p))
      else cb_size (global_pool p))"

text \<open>The destructors: a thread's exit returns its items, the pool's own sets \<open>shutdown_\<close>.\<close>

definition ThreadCache_destroy :: "nat \<Rightarrow> 'a SharedPool \<Rightarrow> 'a SharedPool option" where
  "ThreadCache_destroy t p =
     (if \<not> sp_attached p t then Some p
      else if sp_shutdown p then Some p
      else (case drain cb_pop_front cb_push_front (th_cache p t) (global_pool p) of
              None \<Rightarrow> None
            | Some (cache, glob) \<Rightarrow>
                Some (p\<lparr>global_pool := glob, th_cache := (th_cache p)(t := cache)\<rparr>)))"

definition SharedPool_destroy :: "'a SharedPool \<Rightarrow> 'a SharedPool" where
  "SharedPool_destroy p = p\<lparr>sp_shutdown := True\<rparr>"

section \<open>Invariant and the items in a pool\<close>

definition sp_inv :: "'a SharedPool \<Rightarrow> bool" where
  "sp_inv p \<longleftrightarrow> cb_inv (global_pool p) \<and>
     (\<forall>t. cb_inv (th_cache p t) \<and> cb_slots (th_cache p t) = kNumCachedItemsPerCPU + 1)"

text \<open>The items held for the threads of \<open>T\<close>: the global ring and their caches.\<close>

definition sp_items :: "nat set \<Rightarrow> 'a SharedPool \<Rightarrow> 'a multiset" where
  "sp_items T p = mset (cb_list (global_pool p)) + (\<Sum>t\<in>T. mset (cb_list (th_cache p t)))"

abbreviation sp_room :: "'a SharedPool \<Rightarrow> nat" where
  "sp_room p \<equiv> cb_slots (global_pool p) - 1"

lemma sp_inv_new:
  assumes "cap < 2 ^ 31"
  shows "sp_inv (SharedPool_new d cap)" and "sp_items T (SharedPool_new d cap) = {#}"
  using assms
  by (simp_all add: sp_inv_def SharedPool_new_def kNumCachedItemsPerCPU_def cb_new_inv cb_new_slots
      sp_items_def cb_new_list)

lemma SharedPool_new_sel [simp]:
  "global_pool (SharedPool_new d cap) = cb_new d cap" "th_cache (SharedPool_new d cap) t = cb_new d 64"
  by (simp_all add: SharedPool_new_def kNumCachedItemsPerCPU_def)

text \<open>A step of thread \<open>t\<close> touches the global ring and its own cache only.\<close>

lemma sp_items_upd:
  assumes "finite T" "t \<in> T" "th_cache p' = (th_cache p)(t := c)"
    and "mset (cb_list (global_pool p')) + mset (cb_list c) + d' =
      mset (cb_list (global_pool p)) + mset (cb_list (th_cache p t)) + d"
  shows "sp_items T p' + d' = sp_items T p + d"
proof -
  define r where "r = (\<Sum>s\<in>T - {t}. mset (cb_list (th_cache p s)))"
  have "(\<Sum>s\<in>T. mset (cb_list (th_cache p' s))) = mset (cb_list c) + r"
    using assms(1-3) by (simp add: sum.remove r_def)
  moreover have "(\<Sum>s\<in>T. mset (cb_list (th_cache p s))) = mset (cb_list (th_cache p t)) + r"
    using assms(1,2) by (simp add: sum.remove r_def)
  ultimately have "sp_items T p' + d' = mset (cb_list (global_pool p')) + mset (cb_list c) + d' + r"
    "sp_items T p + d = mset (cb_list (global_pool p)) + mset (cb_list (th_cache p t)) + d + r"
    by (simp_all add: sp_items_def ac_simps)
  then show ?thesis using assms(4) by simp
qed

lemma cb_len_eq_0: "cb_len c = 0 \<longleftrightarrow> cb_list c = []"
  by (metis length_0_conv length_cb_list)

lemma sp_invD:
  assumes "sp_inv p"
  shows "cb_inv (global_pool p)" "cb_inv (th_cache p t)" "cb_slots (th_cache p t) = 65"
    "cb_size (th_cache p t) = length (cb_list (th_cache p t))" "length (cb_list (th_cache p t)) \<le> 64"
  using assms cb_len_less [of "th_cache p t"]
  by (auto simp: sp_inv_def cb_size_eq kNumCachedItemsPerCPU_def)

lemma sp_inv_upd:
  assumes "sp_inv p" "th_cache p' = (th_cache p)(t := c)"
    and "cb_inv (global_pool p')" "cb_inv c" "cb_slots c = 65"
  shows "sp_inv p'"
  using assms by (auto simp: sp_inv_def kNumCachedItemsPerCPU_def)

text \<open>The three outcomes of a push by thread \<open>t\<close> in the synchronised pool.\<close>

lemma push_sync_cached:
  assumes "sp_inv p" "length (cb_list (th_cache p t)) < 64"
  obtains c where "SharedPool_push True t x p =
      Some (p\<lparr>sp_cleaned := sp_cleaned p @ [x], th_cache := (th_cache p)(t := c)\<rparr>)"
    "cb_inv c" "cb_slots c = 65" "cb_list c = x # cb_list (th_cache p t)"
proof -
  note inv = sp_invD(2-5) [OF assms(1), of t]
  have "cb_len (th_cache p t) < cb_slots (th_cache p t) - 1" using assms(2) inv(2) by simp
  then obtain c where c: "cb_push_front x (th_cache p t) = (True, c)" "cb_inv c"
    "cb_list c = x # cb_list (th_cache p t)" "cb_slots c = 65"
    using cb_push_front_ok [OF inv(1)] inv(2) by metis
  then show ?thesis
    using that inv(3) assms(2) by (simp add: SharedPool_push_def kNumCachedItemsPerCPU_def Let_def)
qed

lemma push_sync_spill:
  assumes "sp_inv p" "length (cb_list (th_cache p t)) = 64"
    and "length (cb_list (global_pool p)) + 64 \<le> sp_room p"
  obtains c g where "SharedPool_push True t x p =
      Some (p\<lparr>sp_cleaned := sp_cleaned p @ [x], global_pool := g, th_cache := (th_cache p)(t := c),
             sp_attached := (sp_attached p)(t := True)\<rparr>)"
    "cb_inv c" "cb_slots c = 65" "cb_list c = [x]" "cb_inv g" "cb_slots g = cb_slots (global_pool p)"
    "cb_list g = rev (cb_list (th_cache p t)) @ cb_list (global_pool p)"
proof -
  note inv = sp_invD(2-5) [OF assms(1), of t]
  obtain c0 g where mg: "migrate cb_pop_front cb_push_front 64 (th_cache p t) (global_pool p) = Some (c0, g)"
    "cb_inv c0" "cb_inv g" "cb_list c0 = []" "cb_slots c0 - 1 = cb_slots (th_cache p t) - 1"
    "cb_list g = rev (cb_list (th_cache p t)) @ cb_list (global_pool p)"
    "cb_slots g - 1 = cb_slots (global_pool p) - 1"
    using ring.migrate_ok [OF inv(1) sp_invD(1) [OF assms(1)], of 64] assms(2,3) by auto
  have slots: "cb_slots c0 = 65" "cb_slots g = cb_slots (global_pool p)"
    using mg(2,3,5,7) inv(2) sp_invD(1) [OF assms(1)] by (auto simp: cb_inv_def)
  have "cb_len c0 = 0" using mg(4) by (simp add: cb_len_eq_0)
  then have "cb_len c0 < cb_slots c0 - 1" using slots(1) by simp
  then obtain c where c: "cb_push_front x c0 = (True, c)" "cb_inv c" "cb_list c = [x]" "cb_slots c = 65"
    using cb_push_front_ok [OF mg(2)] mg(4) slots(1) by metis
  have "SharedPool_push True t x p =
      Some (p\<lparr>sp_cleaned := sp_cleaned p @ [x], global_pool := g, th_cache := (th_cache p)(t := c),
             sp_attached := (sp_attached p)(t := True)\<rparr>)"
    using mg(1) c(1) inv(3) assms(2) by (simp add: SharedPool_push_def kNumCachedItemsPerCPU_def Let_def)
  then show ?thesis using that c mg slots by simp
qed

lemma push_sync_abort:
  assumes "sp_inv p" "length (cb_list (th_cache p t)) = 64"
    and "sp_room p < length (cb_list (global_pool p)) + 64"
  shows "SharedPool_push True t x p = None"
proof -
  note inv = sp_invD(2-5) [OF assms(1), of t]
  have "migrate cb_pop_front cb_push_front 64 (th_cache p t) (global_pool p) = None"
    using assms(2,3) by (intro ring.migrate_no_room [OF inv(1) sp_invD(1) [OF assms(1)]]) auto
  then show ?thesis
    using inv(3) assms(2) by (simp add: SharedPool_push_def kNumCachedItemsPerCPU_def Let_def)
qed

lemma push_plain_ok:
  assumes "sp_inv p" "length (cb_list (global_pool p)) < sp_room p"
  obtains g where "SharedPool_push False t x p =
      Some (p\<lparr>sp_cleaned := sp_cleaned p @ [x], global_pool := g\<rparr>)"
    "cb_inv g" "cb_slots g = cb_slots (global_pool p)" "cb_list g = x # cb_list (global_pool p)"
proof -
  have "cb_len (global_pool p) < cb_slots (global_pool p) - 1" using assms(2) by simp
  then obtain g where "cb_push_front x (global_pool p) = (True, g)" "cb_inv g"
    "cb_list g = x # cb_list (global_pool p)" "cb_slots g = cb_slots (global_pool p)"
    using cb_push_front_ok [OF sp_invD(1) [OF assms(1)]] by metis
  then show ?thesis using that by (simp add: SharedPool_push_def Let_def)
qed

text \<open>The items of one thread and of the global ring are among the items of the pool.\<close>

lemma sp_items_ge:
  assumes "finite T" "t \<in> T"
  shows "length (cb_list (global_pool p)) + length (cb_list (th_cache p t)) \<le> size (sp_items T p)"
proof -
  have "size (sp_items T p) = length (cb_list (global_pool p)) + length (cb_list (th_cache p t)) +
      (\<Sum>s\<in>T - {t}. length (cb_list (th_cache p s)))"
    using assms by (simp add: sp_items_def sum.remove)
  then show ?thesis by simp
qed

lemma SharedPool_push_keeps:
  assumes "sp_inv p" "finite T" "t \<in> T" "size (sp_items T p) < sp_room p"
  shows "\<exists>p'. SharedPool_push sync t x p = Some p' \<and> sp_inv p' \<and> sp_room p' = sp_room p \<and>
    sp_items T p' = sp_items T p + {#x#} \<and> sp_cleaned p' = sp_cleaned p @ [x]"
proof -
  have le: "length (cb_list (global_pool p)) + length (cb_list (th_cache p t)) < sp_room p"
    using sp_items_ge [OF assms(2,3), of p] assms(4) by simp
  consider (plain) "\<not> sync" | (cached) "sync" "length (cb_list (th_cache p t)) < 64"
    | (spill) "sync" "length (cb_list (th_cache p t)) = 64"
    using sp_invD(5) [OF assms(1), of t] by linarith
  then show ?thesis
  proof cases
    case plain
    obtain g where g: "SharedPool_push False t x p =
        Some (p\<lparr>sp_cleaned := sp_cleaned p @ [x], global_pool := g\<rparr>)" "cb_inv g"
      "cb_slots g = cb_slots (global_pool p)" "cb_list g = x # cb_list (global_pool p)"
      by (rule push_plain_ok [OF assms(1), where t = t and x = x]) (use le in simp_all)
    let ?p = "p\<lparr>sp_cleaned := sp_cleaned p @ [x], global_pool := g\<rparr>"
    have "sp_inv ?p" using g(2) assms(1) by (simp add: sp_inv_def)
    moreover have "sp_items T ?p = sp_items T p + {#x#}" using g(4) by (simp add: sp_items_def)
    ultimately show ?thesis using plain g(1,3) by simp
  next
    case cached
    obtain c where c: "SharedPool_push True t x p =
        Some (p\<lparr>sp_cleaned := sp_cleaned p @ [x], th_cache := (th_cache p)(t := c)\<rparr>)"
      "cb_inv c" "cb_slots c = 65" "cb_list c = x # cb_list (th_cache p t)"
      by (rule push_sync_cached [OF assms(1) cached(2), where x = x])
    let ?p = "p\<lparr>sp_cleaned := sp_cleaned p @ [x], th_cache := (th_cache p)(t := c)\<rparr>"
    have "sp_inv ?p" using c(2,3) sp_invD(1) [OF assms(1)] by (intro sp_inv_upd [OF assms(1)]) simp_all
    moreover have "sp_items T ?p + {#} = sp_items T p + {#x#}"
      by (rule sp_items_upd [OF assms(2,3), where c = c]) (simp_all add: c(4))
    ultimately show ?thesis using c(1) cached by simp
  next
    case spill
    obtain c g where c: "SharedPool_push True t x p =
        Some (p\<lparr>sp_cleaned := sp_cleaned p @ [x], global_pool := g, th_cache := (th_cache p)(t := c),
               sp_attached := (sp_attached p)(t := True)\<rparr>)"
      "cb_inv c" "cb_slots c = 65" "cb_list c = [x]" "cb_inv g" "cb_slots g = cb_slots (global_pool p)"
      "cb_list g = rev (cb_list (th_cache p t)) @ cb_list (global_pool p)"
      by (rule push_sync_spill [OF assms(1) spill(2), where x = x]) (use le spill(2) in simp_all)
    let ?p = "p\<lparr>sp_cleaned := sp_cleaned p @ [x], global_pool := g, th_cache := (th_cache p)(t := c),
               sp_attached := (sp_attached p)(t := True)\<rparr>"
    have "sp_inv ?p" using c(2,3,5) by (intro sp_inv_upd [OF assms(1)]) simp_all
    moreover have "sp_items T ?p + {#} = sp_items T p + {#x#}"
      by (rule sp_items_upd [OF assms(2,3), where c = c]) (simp_all add: c(4,7))
    ultimately show ?thesis using c(1,6) spill by simp
  qed
qed

text \<open>A pop in the synchronised pool: from the cache, after a refill, or the failed check.\<close>

lemma pop_sync_cached:
  assumes "sp_inv p" "cb_list (th_cache p t) = x # xs"
  obtains c where "SharedPool_pop True t p = Some (x, p\<lparr>th_cache := (th_cache p)(t := c)\<rparr>)"
    "cb_inv c" "cb_slots c = 65" "cb_list c = xs"
proof -
  note inv = sp_invD(2-5) [OF assms(1), of t]
  obtain c where c: "cb_pop_front (th_cache p t) = (Some x, c)" "cb_inv c" "cb_list c = xs"
    "cb_slots c = cb_slots (th_cache p t)"
    by (rule cb_pop_front_ok [OF inv(1) assms(2)])
  have "cb_size (th_cache p t) \<noteq> 0" using inv(3) assms(2) by (simp del: length_cb_list)
  then have "SharedPool_pop True t p = Some (x, p\<lparr>th_cache := (th_cache p)(t := c)\<rparr>)"
    using c(1) by (simp add: SharedPool_pop_def)
  then show ?thesis using that c inv(2) by simp
qed

lemma pop_sync_refill:
  assumes "sp_inv p" "cb_list (th_cache p t) = []" "64 \<le> length (cb_list (global_pool p))"
  obtains c g where "SharedPool_pop True t p =
      Some (cb_list (global_pool p) ! 63, p\<lparr>global_pool := g, th_cache := (th_cache p)(t := c),
        sp_attached := (sp_attached p)(t := True)\<rparr>)"
    "cb_inv c" "cb_slots c = 65" "cb_list c = rev (take 63 (cb_list (global_pool p)))" "cb_inv g"
    "cb_slots g = cb_slots (global_pool p)" "cb_list g = drop 64 (cb_list (global_pool p))"
proof -
  note inv = sp_invD(2-5) [OF assms(1), of t]
  obtain g c0 where mg: "migrate cb_pop_front cb_push_front 64 (global_pool p) (th_cache p t) = Some (g, c0)"
    "cb_inv g" "cb_inv c0" "cb_list g = drop 64 (cb_list (global_pool p))"
    "cb_list c0 = rev (take 64 (cb_list (global_pool p)))"
    "cb_slots g - 1 = cb_slots (global_pool p) - 1" "cb_slots c0 - 1 = cb_slots (th_cache p t) - 1"
    using ring.migrate_ok [OF sp_invD(1) [OF assms(1)] inv(1), of 64] assms(2,3) inv(2)
    by (auto simp del: length_cb_list)
  have slots: "cb_slots c0 = 65" "cb_slots g = cb_slots (global_pool p)"
    using mg(2,3,6,7) inv(2) sp_invD(1) [OF assms(1)] by (auto simp: cb_inv_def)
  have "take (Suc 63) (cb_list (global_pool p)) =
      take 63 (cb_list (global_pool p)) @ [cb_list (global_pool p) ! 63]"
    using assms(3) by (intro take_Suc_conv_app_nth) linarith
  then have "cb_list c0 = cb_list (global_pool p) ! 63 # rev (take 63 (cb_list (global_pool p)))"
    using mg(5) by simp
  then obtain c where c: "cb_pop_front c0 = (Some (cb_list (global_pool p) ! 63), c)" "cb_inv c"
    "cb_list c = rev (take 63 (cb_list (global_pool p)))" "cb_slots c = cb_slots c0"
    by (rule cb_pop_front_ok [OF mg(3)])
  have "cb_size (th_cache p t) = 0" using inv(3) assms(2) by (simp del: length_cb_list)
  then have "SharedPool_pop True t p =
      Some (cb_list (global_pool p) ! 63, p\<lparr>global_pool := g, th_cache := (th_cache p)(t := c),
        sp_attached := (sp_attached p)(t := True)\<rparr>)"
    using mg(1) c(1) by (simp add: SharedPool_pop_def kNumCachedItemsPerCPU_def)
  then show ?thesis using that c mg(2,4) slots by simp
qed

lemma pop_sync_abort:
  assumes "sp_inv p" "cb_list (th_cache p t) = []" "length (cb_list (global_pool p)) < 64"
  shows "SharedPool_pop True t p = None"
proof -
  note inv = sp_invD(2-5) [OF assms(1), of t]
  have "cb_size (th_cache p t) = 0" using inv(3) assms(2) by (simp del: length_cb_list)
  then show ?thesis
    using ring.migrate_short [OF sp_invD(1) [OF assms(1)] inv(1) assms(3)]
    by (simp add: SharedPool_pop_def kNumCachedItemsPerCPU_def)
qed

lemma pop_plain:
  assumes "sp_inv p"
  shows "cb_list (global_pool p) = [] \<Longrightarrow> SharedPool_pop False t p = None"
    and "cb_list (global_pool p) = x # xs \<Longrightarrow> \<exists>g. SharedPool_pop False t p = Some (x, p\<lparr>global_pool := g\<rparr>) \<and>
      cb_inv g \<and> cb_slots g = cb_slots (global_pool p) \<and> cb_list g = xs"
  using ring.pop_front_empty [OF sp_invD(1) [OF assms]]
    cb_pop_front_ok [OF sp_invD(1) [OF assms], of x xs]
  by (simp_all add: SharedPool_pop_def) (metis (no_types, lifting) case_prod_conv option.simps(5))

lemma SharedPool_pop_takes:
  assumes "sp_inv p" "finite T" "t \<in> T" "SharedPool_pop sync t p = Some (x, p')"
  shows "sp_inv p' \<and> sp_room p' = sp_room p \<and> sp_items T p' + {#x#} = sp_items T p"
proof -
  consider (plain) "\<not> sync" | (cached) y ys where "sync" "cb_list (th_cache p t) = y # ys"
    | (refill) "sync" "cb_list (th_cache p t) = []" "64 \<le> length (cb_list (global_pool p))"
    | (abort) "sync" "cb_list (th_cache p t) = []" "length (cb_list (global_pool p)) < 64"
    by (meson leI list.exhaust)
  then show ?thesis
  proof cases
    case plain
    then obtain y ys where "cb_list (global_pool p) = y # ys"
      using assms(4) pop_plain(1) [OF assms(1)] by (cases "cb_list (global_pool p)") auto
    then show ?thesis using pop_plain(2) [OF assms(1), of y ys t] plain assms(1,4)
      by (auto simp: sp_inv_def sp_items_def)
  next
    case cached
    obtain c where c: "SharedPool_pop True t p = Some (y, p\<lparr>th_cache := (th_cache p)(t := c)\<rparr>)"
      "cb_inv c" "cb_slots c = 65" "cb_list c = ys" by (rule pop_sync_cached [OF assms(1) cached(2)])
    then have p': "p' = p\<lparr>th_cache := (th_cache p)(t := c)\<rparr>" "x = y" using assms(4) cached(1) by auto
    have "sp_inv p'" using c(2,3) sp_invD(1) [OF assms(1)] p' by (intro sp_inv_upd [OF assms(1)]) simp_all
    moreover have "sp_items T p' + {#x#} = sp_items T p + {#}"
      by (rule sp_items_upd [OF assms(2,3), where c = c]) (simp_all add: c(4) p' cached(2))
    ultimately show ?thesis using p' by simp
  next
    case refill
    obtain c g where c: "SharedPool_pop True t p =
        Some (cb_list (global_pool p) ! 63, p\<lparr>global_pool := g, th_cache := (th_cache p)(t := c),
          sp_attached := (sp_attached p)(t := True)\<rparr>)"
      "cb_inv c" "cb_slots c = 65" "cb_list c = rev (take 63 (cb_list (global_pool p)))" "cb_inv g"
      "cb_slots g = cb_slots (global_pool p)" "cb_list g = drop 64 (cb_list (global_pool p))"
      by (rule pop_sync_refill [OF assms(1) refill(2,3)])
    then have p': "p' = p\<lparr>global_pool := g, th_cache := (th_cache p)(t := c),
        sp_attached := (sp_attached p)(t := True)\<rparr>" "x = cb_list (global_pool p) ! 63"
      using assms(4) refill(1) by auto
    have "cb_list (global_pool p) = take 63 (cb_list (global_pool p)) @ x # drop 64 (cb_list (global_pool p))"
      using refill(3) id_take_nth_drop [of 63 "cb_list (global_pool p)"] p'(2) by simp
    then have "mset (drop 64 (cb_list (global_pool p))) + mset (take 63 (cb_list (global_pool p))) + {#x#}
        = mset (cb_list (global_pool p))"
      by (metis (no_types, lifting) mset_append mset.simps(2) union_mset_add_mset_right add.commute
          add.assoc add_mset_add_single)
    then have "sp_items T p' + {#x#} = sp_items T p + {#}"
      by (intro sp_items_upd [OF assms(2,3), where c = c]) (simp_all add: c(4,7) p'(1) refill(2))
    moreover have "sp_inv p'" using c(2,3,5) p' by (intro sp_inv_upd [OF assms(1)]) simp_all
    ultimately show ?thesis using p' c(6) by simp
  next
    case abort
    then show ?thesis using pop_sync_abort [OF assms(1)] assms(4) by simp
  qed
qed

text \<open>Flushing a cache, by request or when its thread exits.\<close>

lemma drain_cache:
  assumes "sp_inv p" "finite T" "t \<in> T" "size (sp_items T p) \<le> sp_room p"
  obtains c g where "drain cb_pop_front cb_push_front (th_cache p t) (global_pool p) = Some (c, g)"
    "cb_inv c" "cb_slots c = 65" "cb_list c = []" "cb_inv g" "cb_slots g = cb_slots (global_pool p)"
    "cb_list g = rev (cb_list (th_cache p t)) @ cb_list (global_pool p)"
proof -
  note inv = sp_invD(2-5) [OF assms(1), of t]
  have "length (cb_list (th_cache p t)) + length (cb_list (global_pool p)) \<le> sp_room p"
    using sp_items_ge [OF assms(2,3), of p] assms(4) by linarith
  then obtain c g where d: "drain cb_pop_front cb_push_front (th_cache p t) (global_pool p) = Some (c, g)"
    "cb_inv c" "cb_inv g" "cb_list c = []" "cb_list g = rev (cb_list (th_cache p t)) @ cb_list (global_pool p)"
    "cb_slots c - 1 = cb_slots (th_cache p t) - 1" "cb_slots g - 1 = cb_slots (global_pool p) - 1"
    using ring.drain_ok [OF inv(1) sp_invD(1) [OF assms(1)]] by auto
  have "cb_slots c = 65" "cb_slots g = cb_slots (global_pool p)"
    using d(2,3,6,7) inv(2) sp_invD(1) [OF assms(1)] by (auto simp: cb_inv_def)
  then show ?thesis using that d by simp
qed

lemma flush_keeps:
  assumes "sp_inv p" "finite T" "t \<in> T" "size (sp_items T p) \<le> sp_room p"
  shows "\<exists>p'. SharedPool_flush_th_cache sync t p = Some p' \<and> sp_inv p' \<and> sp_room p' = sp_room p \<and>
      sp_items T p' = sp_items T p \<and> (sync \<longrightarrow> cb_list (th_cache p' t) = [])"
    and "\<exists>p'. ThreadCache_destroy t p = Some p' \<and> sp_inv p' \<and> sp_room p' = sp_room p \<and>
      sp_items T p' = sp_items T p \<and>
      (sp_attached p t \<and> \<not> sp_shutdown p \<longrightarrow> cb_list (th_cache p' t) = [])"
proof -
  obtain c g where d: "drain cb_pop_front cb_push_front (th_cache p t) (global_pool p) = Some (c, g)"
    "cb_inv c" "cb_slots c = 65" "cb_list c = []" "cb_inv g" "cb_slots g = cb_slots (global_pool p)"
    "cb_list g = rev (cb_list (th_cache p t)) @ cb_list (global_pool p)"
    by (rule drain_cache [OF assms])
  have keep: "sp_inv p' \<and> sp_items T p' = sp_items T p"
    if "th_cache p' = (th_cache p)(t := c)" "global_pool p' = g" for p' :: "'a SharedPool"
  proof -
    have "sp_items T p' + {#} = sp_items T p + {#}"
      by (rule sp_items_upd [OF assms(2,3) that(1)]) (simp add: d(4,7) that(2))
    then show ?thesis using sp_inv_upd [OF assms(1) that(1)] d(2,3,5) that(2) by simp
  qed
  show "\<exists>p'. SharedPool_flush_th_cache sync t p = Some p' \<and> sp_inv p' \<and> sp_room p' = sp_room p \<and>
      sp_items T p' = sp_items T p \<and> (sync \<longrightarrow> cb_list (th_cache p' t) = [])"
    using d assms(1) by (auto simp: SharedPool_flush_th_cache_def keep)
  show "\<exists>p'. ThreadCache_destroy t p = Some p' \<and> sp_inv p' \<and> sp_room p' = sp_room p \<and>
      sp_items T p' = sp_items T p \<and>
      (sp_attached p t \<and> \<not> sp_shutdown p \<longrightarrow> cb_list (th_cache p' t) = [])"
    using d assms(1) by (auto simp: ThreadCache_destroy_def keep)
qed

section \<open>Histories of pool operations\<close>

text \<open>An interleaving of the operations of several threads, and the items it hands out.\<close>

datatype 'a pool_op = PPush nat 'a | PPop nat | PFlush nat | PExit nat

fun op_thread :: "'a pool_op \<Rightarrow> nat" where
  "op_thread (PPush t _) = t"
| "op_thread (PPop t) = t"
| "op_thread (PFlush t) = t"
| "op_thread (PExit t) = t"

fun op_pushed :: "'a pool_op \<Rightarrow> 'a list" where
  "op_pushed (PPush _ x) = [x]"
| "op_pushed _ = []"

fun pool_step :: "bool \<Rightarrow> 'a pool_op \<Rightarrow> 'a SharedPool \<Rightarrow> ('a list \<times> 'a SharedPool) option" where
  "pool_step sync (PPush t x) p = map_option (\<lambda>p'. ([], p')) (SharedPool_push sync t x p)"
| "pool_step sync (PPop t) p = map_option (\<lambda>(x, p'). ([x], p')) (SharedPool_pop sync t p)"
| "pool_step sync (PFlush t) p = map_option (\<lambda>p'. ([], p')) (SharedPool_flush_th_cache sync t p)"
| "pool_step sync (PExit t) p = map_option (\<lambda>p'. ([], p')) (ThreadCache_destroy t p)"

fun pool_run :: "bool \<Rightarrow> 'a pool_op list \<Rightarrow> 'a SharedPool \<Rightarrow> ('a list \<times> 'a SharedPool) option" where
  "pool_run sync [] p = Some ([], p)"
| "pool_run sync (o1 # os) p =
     (case pool_step sync o1 p of
        None \<Rightarrow> None
      | Some (xs, p1) \<Rightarrow> map_option (\<lambda>(ys, p2). (xs @ ys, p2)) (pool_run sync os p1))"

lemma pool_step_conserves:
  assumes "sp_inv p" "finite T" "op_thread o1 \<in> T"
    and "size (sp_items T p) + length (op_pushed o1) \<le> sp_room p" "pool_step sync o1 p = Some (xs, p')"
  shows "sp_inv p' \<and> sp_room p' = sp_room p \<and>
    sp_items T p' + mset xs = sp_items T p + mset (op_pushed o1)"
proof (cases o1)
  case (PPush t x)
  then show ?thesis using SharedPool_push_keeps [OF assms(1,2), of t sync x] assms(3-5) by auto
next
  case (PPop t)
  then show ?thesis using SharedPool_pop_takes [OF assms(1,2), of t sync] assms(3-5) by auto
next
  case (PFlush t)
  then show ?thesis using flush_keeps(1) [OF assms(1,2), of t sync] assms(3-5) by auto
next
  case (PExit t)
  then show ?thesis using flush_keeps(2) [OF assms(1,2), of t] assms(3-5) by auto
qed

lemma pool_run_conserves:
  assumes "sp_inv p" "finite T" "op_thread ` set os \<subseteq> T"
    and "size (sp_items T p) + length (concat (map op_pushed os)) \<le> sp_room p"
    and "pool_run sync os p = Some (xs, p')"
  shows "sp_inv p' \<and> sp_items T p' + mset xs = sp_items T p + mset (concat (map op_pushed os))"
  using assms
proof (induction os arbitrary: p xs)
  case Nil
  then show ?case by simp
next
  case (Cons o1 os)
  obtain ys p1 zs where st: "pool_step sync o1 p = Some (ys, p1)" "pool_run sync os p1 = Some (zs, p')"
    "xs = ys @ zs" using Cons.prems(5) by (auto split: option.splits)
  have s1: "sp_inv p1" "sp_room p1 = sp_room p"
    "sp_items T p1 + mset ys = sp_items T p + mset (op_pushed o1)"
    using pool_step_conserves [OF Cons.prems(1,2) _ _ st(1)] Cons.prems(3,4) by auto
  have "size (sp_items T p1) + size (mset ys) = size (sp_items T p) + size (mset (op_pushed o1))"
    by (metis s1(3) size_union)
  then have "size (sp_items T p1) + length (concat (map op_pushed os)) \<le> sp_room p1"
    using Cons.prems(4) s1(2) by simp
  then have IH: "sp_inv p'" "sp_items T p' + mset zs = sp_items T p1 + mset (concat (map op_pushed os))"
    using Cons.IH [OF s1(1) Cons.prems(2) _ _ st(2)] Cons.prems(3) by auto
  have "sp_items T p' + mset xs = (sp_items T p' + mset zs) + mset ys" using st(3) by (simp add: ac_simps)
  also have "\<dots> = (sp_items T p1 + mset ys) + mset (concat (map op_pushed os))"
    using IH(2) by (simp add: ac_simps)
  also have "\<dots> = sp_items T p + mset (concat (map op_pushed (o1 # os)))"
    using s1(3) by (simp add: ac_simps)
  finally show ?case using IH(1) by simp
qed

section \<open>Properties\<close>



text \<open>
  C26: a push of thread \<open>t\<close> passes its checks and adds exactly its item whenever the pool holds
  fewer items than the capacity of the global ring, and it has called the cleanup on the item.
\<close>

theorem pool_push_succeeds:
  assumes "sp_inv p" "finite T" "t \<in> T" "size (sp_items T p) < sp_room p"
  shows "\<exists>p'. SharedPool_push sync t x p = Some p' \<and> sp_inv p' \<and>
    sp_items T p' = sp_items T p + {#x#} \<and> sp_cleaned p' = sp_cleaned p @ [x]"
  using SharedPool_push_keeps [OF assms, of sync x] by blast

theorem pool_push_succeeds_witness:
  "\<exists>p'. SharedPool_push True 0 (7::nat) (SharedPool_new 0 4) = Some p' \<and> sp_items {0} p' = {#7#}"
proof -
  have "sp_inv (SharedPool_new (0::nat) 4)" by (rule sp_inv_new) simp
  then show ?thesis
    using pool_push_succeeds [of "SharedPool_new 0 4" "{0}" 0 True "7::nat"] sp_inv_new(2) [of 4 "{0}" "0::nat"]
    by (auto simp: cb_new_slots)
qed

text \<open>
  C27: a pop returns exactly when the thread's cache holds an item or the global ring holds at
  least the 64 items of a refill (any item at all, for the unsynchronised pool); otherwise the
  check fails, even when the global ring holds up to 63 items.
\<close>

theorem pool_pop_returns_iff:
  assumes "sp_inv p"
  shows "SharedPool_pop sync t p \<noteq> None \<longleftrightarrow>
    (if sync then cb_list (th_cache p t) \<noteq> [] \<or> 64 \<le> length (cb_list (global_pool p))
     else cb_list (global_pool p) \<noteq> [])"
proof (cases sync)
  case True
  have "SharedPool_pop True t p \<noteq> None" if "cb_list (th_cache p t) = x # xs" for x xs
    by (rule pop_sync_cached [OF assms that]) simp
  moreover have "SharedPool_pop True t p \<noteq> None"
    if "cb_list (th_cache p t) = []" "64 \<le> length (cb_list (global_pool p))"
    by (rule pop_sync_refill [OF assms that]) simp
  ultimately show ?thesis using True pop_sync_abort [OF assms, of t]
    by (cases "cb_list (th_cache p t)"; cases "length (cb_list (global_pool p)) < 64") auto
next
  case False
  then show ?thesis using pop_plain [OF assms, where t = t] by (cases "cb_list (global_pool p)") auto
qed

theorem pool_pop_returns_iff_witness:
  "SharedPool_pop True 0 (SharedPool_new (0::nat) 4) = None \<and>
   SharedPool_pop False 0 (SharedPool_new (0::nat) 4) = None"
proof -
  have inv: "sp_inv (SharedPool_new (0::nat) 4)" by (rule sp_inv_new) simp
  have "length (cb_list (cb_new (0::nat) 4)) = 0" by (simp only: cb_new_list list.size)
  then show ?thesis
    using pool_pop_returns_iff [OF inv, of True 0] pool_pop_returns_iff [OF inv, of False 0]
    by (simp only: SharedPool_new_sel cb_new_list if_True if_False) (simp del: not_None_eq)
qed

end
