(* ===== verification/BuffPool.thy ===== *)
theory BuffPool
  imports CircularBuffer "HOL-Library.Multiset"
begin

text \<open>
  The class \<open>BuffPool\<close> of \<open>collective/rdma/util_buffpool.h\<close>: the free list of fixed-size registered
  buffers, a ring of byte offsets indexed modulo a power of two by masking. Addresses and offsets
  are \<open>uint64_t\<close>, indices \<open>uint32_t\<close>, both as natural numbers with the wrap-around written out.
  The \<open>init_cb\<close> of the constructor only writes the memory of a buffer and is left out.

  The lemmas read the pool as a \<open>CircularBuffer\<close> and show that a buffer is never handed out twice.
\<close>

section \<open>State and operations\<close>

record BuffPool =
  base_addr :: nat
  bp_head :: nat
  bp_tail :: nat
  num_elements :: nat
  element_size :: nat
  buffer_pool :: "nat list"

definition bp_mask :: "BuffPool \<Rightarrow> nat \<Rightarrow> nat" where
  "bp_mask p i = i AND u32_sub (num_elements p) 1"

definition bp_full :: "BuffPool \<Rightarrow> bool" where
  "bp_full p \<longleftrightarrow> bp_mask p (u32_wrap (bp_tail p + 1)) = bp_head p"

definition bp_empty :: "BuffPool \<Rightarrow> bool" where
  "bp_empty p \<longleftrightarrow> bp_head p = bp_tail p"

definition bp_size :: "BuffPool \<Rightarrow> nat" where
  "bp_size p = bp_mask p (u32_sub (bp_tail p) (bp_head p))"

definition alloc_buff :: "BuffPool \<Rightarrow> nat option \<times> BuffPool" where
  "alloc_buff p =
     (if bp_empty p then (None, p)
      else (Some (u64_wrap (base_addr p + buffer_pool p ! bp_head p)),
            p\<lparr>bp_head := bp_mask p (u32_wrap (bp_head p + 1))\<rparr>))"

definition free_buff :: "nat \<Rightarrow> BuffPool \<Rightarrow> BuffPool" where
  "free_buff addr p =
     (if bp_full p then p
      else p\<lparr>buffer_pool := (buffer_pool p)[bp_tail p := u64_wrap (addr + 2 ^ 64 - base_addr p)],
             bp_tail := bp_mask p (u32_wrap (bp_tail p + 1))\<rparr>)"

definition BuffPool_new :: "nat \<Rightarrow> nat \<Rightarrow> nat \<Rightarrow> BuffPool" where
  "BuffPool_new base num elem_size =
     fold (\<lambda>i p. free_buff (u64_wrap (base + u64_wrap (i * elem_size))) p) [0..<u32_sub num 1]
       \<lparr>base_addr = base, bp_head = 0, bp_tail = 0, num_elements = num, element_size = elem_size,
        buffer_pool = replicate num 0\<rparr>"

section \<open>The pool as a ring of offsets\<close>

definition bp_ring :: "BuffPool \<Rightarrow> nat CircularBuffer" where
  "bp_ring p = \<lparr>cb_items = buffer_pool p, cb_head = bp_head p, cb_tail = bp_tail p,
     cb_slots = num_elements p\<rparr>"

definition bp_inv :: "BuffPool \<Rightarrow> bool" where
  "bp_inv p \<longleftrightarrow> cb_inv (bp_ring p) \<and> (\<exists>k. num_elements p = 2 ^ k)"

lemma bp_ring_sel [simp]:
  "cb_items (bp_ring p) = buffer_pool p" "cb_head (bp_ring p) = bp_head p"
  "cb_tail (bp_ring p) = bp_tail p" "cb_slots (bp_ring p) = num_elements p"
  by (simp_all add: bp_ring_def)

lemma bp_mask_eq:
  assumes "bp_inv p"
  shows "bp_mask p i = i mod num_elements p"
proof -
  obtain k where k: "num_elements p = 2 ^ k" using assms by (auto simp: bp_inv_def)
  have "u32_sub (num_elements p) 1 = num_elements p - 1"
    using assms by (intro u32_sub_le) (auto simp: bp_inv_def cb_inv_def)
  then have "bp_mask p i = i AND mask k" by (simp add: bp_mask_def k mask_eq_exp_minus_1)
  then show ?thesis by (simp add: k flip: take_bit_eq_mask take_bit_eq_mod)
qed

lemma bp_empty_iff: "bp_inv p \<Longrightarrow> bp_empty p \<longleftrightarrow> cb_list (bp_ring p) = []"
  by (simp add: bp_empty_def cb_list_Nil_iff bp_inv_def)

lemma alloc_buff_ring:
  assumes "bp_inv p"
  shows "alloc_buff p = (case cb_pop_front (bp_ring p) of
      (None, _) \<Rightarrow> (None, p)
    | (Some off, c) \<Rightarrow> (Some (u64_wrap (base_addr p + off)), p\<lparr>bp_head := cb_head c\<rparr>))"
  by (simp add: alloc_buff_def cb_pop_front_def bp_empty_def bp_mask_eq [OF assms])

lemma free_buff_ring:
  assumes "bp_inv p" "cb_push_back (u64_wrap (addr + 2 ^ 64 - base_addr p)) (bp_ring p) = (ok, c)"
  shows "bp_ring (free_buff addr p) = c" "base_addr (free_buff addr p) = base_addr p"
    "num_elements (free_buff addr p) = num_elements p"
  using assms(2)
  by (auto simp: free_buff_def cb_push_back_def bp_full_def bp_mask_eq [OF assms(1)] Let_def
      bp_ring_def split: if_splits)

text \<open>The addresses free for allocation, oldest first.\<close>

definition bp_addrs :: "BuffPool \<Rightarrow> nat list" where
  "bp_addrs p = map (\<lambda>off. u64_wrap (base_addr p + off)) (cb_list (bp_ring p))"

lemma u64_offset_roundtrip:
  assumes "b < 2 ^ 64" "a < 2 ^ 64"
  shows "u64_wrap (b + u64_wrap (a + 2 ^ 64 - b)) = a"
proof -
  have "b + (a + 2 ^ 64 - b) = a + 2 ^ 64" using assms by simp
  then have "(b + (a + 2 ^ 64 - b) mod 2 ^ 64) mod 2 ^ 64 = a mod 2 ^ 64"
    by (metis mod_add_right_eq mod_add_self2)
  then show ?thesis using assms by (simp add: u64_wrap_def)
qed

lemma alloc_buff_ok:
  assumes "bp_inv p" "bp_addrs p = a # as"
  obtains p' where "alloc_buff p = (Some a, p')" "bp_inv p'" "bp_addrs p' = as"
    "base_addr p' = base_addr p" "num_elements p' = num_elements p"
proof -
  have cinv: "cb_inv (bp_ring p)" using assms(1) by (simp add: bp_inv_def)
  obtain off offs where l: "cb_list (bp_ring p) = off # offs" "a = u64_wrap (base_addr p + off)"
    "as = map (\<lambda>off. u64_wrap (base_addr p + off)) offs"
    using assms(2) by (auto simp: bp_addrs_def)
  obtain c where c: "cb_pop_front (bp_ring p) = (Some off, c)" "cb_inv c" "cb_list c = offs"
    "cb_slots c = cb_slots (bp_ring p)" by (rule cb_pop_front_ok [OF cinv l(1)])
  let ?p = "p\<lparr>bp_head := cb_head c\<rparr>"
  have "bp_ring ?p = c" using c(1) by (auto simp: cb_pop_front_def bp_ring_def split: if_splits)
  then show ?thesis using that [of ?p] alloc_buff_ring [OF assms(1)] c l assms(1)
    by (simp add: bp_inv_def bp_addrs_def)
qed

lemma alloc_buff_empty: "bp_inv p \<Longrightarrow> bp_addrs p = [] \<Longrightarrow> alloc_buff p = (None, p)"
  by (simp add: alloc_buff_def bp_empty_iff bp_addrs_def)

lemma free_buff_ok:
  assumes "bp_inv p" "base_addr p < 2 ^ 64" "a < 2 ^ 64" "length (bp_addrs p) < num_elements p - 1"
  shows "bp_inv (free_buff a p)" "bp_addrs (free_buff a p) = bp_addrs p @ [a]"
    "base_addr (free_buff a p) = base_addr p" "num_elements (free_buff a p) = num_elements p"
proof -
  let ?off = "u64_wrap (a + 2 ^ 64 - base_addr p)"
  have cinv: "cb_inv (bp_ring p)" using assms(1) by (simp add: bp_inv_def)
  have "cb_len (bp_ring p) < cb_slots (bp_ring p) - 1" using assms(4) by (simp add: bp_addrs_def)
  then obtain c where c: "cb_push_back ?off (bp_ring p) = (True, c)" "cb_inv c"
    "cb_list c = cb_list (bp_ring p) @ [?off]" "cb_slots c = cb_slots (bp_ring p)"
    by (rule cb_push_back_ok [OF cinv])
  note r = free_buff_ring [OF assms(1) c(1)]
  show "base_addr (free_buff a p) = base_addr p" "num_elements (free_buff a p) = num_elements p"
    using r by auto
  show "bp_inv (free_buff a p)" using r c(2) assms(1) by (simp add: bp_inv_def)
  show "bp_addrs (free_buff a p) = bp_addrs p @ [a]"
    using r c(3) u64_offset_roundtrip [OF assms(2,3)] by (simp add: bp_addrs_def)
qed

text \<open>The constructor frees the \<open>num - 1\<close> buffers of the region in address order.\<close>

definition bp_all :: "nat \<Rightarrow> nat \<Rightarrow> nat \<Rightarrow> nat list" where
  "bp_all base num elem_size = map (\<lambda>i. base + i * elem_size) [0..<num - 1]"

lemma BuffPool_new_ok:
  assumes "num = 2 ^ k" "1 \<le> k" "k \<le> 31" "base + num * elem_size < 2 ^ 64"
  shows "bp_inv (BuffPool_new base num elem_size) \<and>
    bp_addrs (BuffPool_new base num elem_size) = bp_all base num elem_size \<and>
    base_addr (BuffPool_new base num elem_size) = base \<and>
    num_elements (BuffPool_new base num elem_size) = num"
proof -
  define f where "f = (\<lambda>i p. free_buff (u64_wrap (base + u64_wrap (i * elem_size))) p)"
  define p0 where "p0 = \<lparr>base_addr = base, bp_head = 0, bp_tail = 0, num_elements = num,
    element_size = elem_size, buffer_pool = replicate num 0\<rparr>"
  have num: "num \<le> 2 ^ 31" using assms(1,3) by (metis one_le_numeral power_increasing)
  have pos: "0 < num" using assms(1) by simp
  have "bp_inv p0" using num pos assms(1) by (auto simp: bp_inv_def cb_inv_def p0_def)
  moreover have "bp_addrs p0 = []" by (simp add: bp_addrs_def cb_list_def cb_len_def p0_def)
  ultimately have base: "bp_inv p0 \<and> bp_addrs p0 = [] \<and> base_addr p0 = base \<and> num_elements p0 = num"
    by (simp add: p0_def)
  have "bp_inv (fold f [0..<n] p0) \<and> bp_addrs (fold f [0..<n] p0) = map (\<lambda>i. base + i * elem_size) [0..<n] \<and>
      base_addr (fold f [0..<n] p0) = base \<and> num_elements (fold f [0..<n] p0) = num"
    if "n \<le> num - 1" for n
    using that
  proof (induction n)
    case 0
    then show ?case using base by simp
  next
    case (Suc n)
    let ?q = "fold f [0..<n] p0"
    have IH: "bp_inv ?q" "bp_addrs ?q = map (\<lambda>i. base + i * elem_size) [0..<n]"
      "base_addr ?q = base" "num_elements ?q = num" using Suc by auto
    have "n * elem_size \<le> num * elem_size" using Suc.prems by (intro mult_right_mono) simp_all
    then have le: "base + n * elem_size < 2 ^ 64" "base < 2 ^ 64" using assms(4) by linarith+
    then have addr: "u64_wrap (base + u64_wrap (n * elem_size)) = base + n * elem_size"
      by (simp add: u64_wrap_less)
    have "fold f [0..<Suc n] p0 = free_buff (base + n * elem_size) ?q" by (simp add: f_def addr)
    then show ?case
      using free_buff_ok [OF IH(1), of "base + n * elem_size"] IH le Suc.prems by simp
  qed
  moreover have "u32_sub num 1 = num - 1" using num pos by (intro u32_sub_le) auto
  ultimately show ?thesis by (simp add: BuffPool_new_def f_def p0_def bp_all_def)
qed

section \<open>Clients of a pool\<close>

text \<open>
  The states a pool reaches when its client frees only addresses it was given: \<open>out\<close> holds the
  buffers handed out and not yet freed.
\<close>

inductive bp_reach :: "BuffPool \<Rightarrow> BuffPool \<Rightarrow> nat multiset \<Rightarrow> bool" for p0 where
  bp_init: "bp_reach p0 p0 {#}"
| bp_alloc: "bp_reach p0 p out \<Longrightarrow> alloc_buff p = (Some a, p') \<Longrightarrow> bp_reach p0 p' (add_mset a out)"
| bp_free: "bp_reach p0 p out \<Longrightarrow> a \<in># out \<Longrightarrow> bp_reach p0 (free_buff a p) (out - {#a#})"

lemma bp_reach_inv:
  assumes "bp_reach p0 p out" "bp_inv p0" "base_addr p0 < 2 ^ 64" "length (bp_addrs p0) = num_elements p0 - 1"
    and "\<forall>a\<in>set (bp_addrs p0). a < 2 ^ 64"
  shows "bp_inv p \<and> mset (bp_addrs p) + out = mset (bp_addrs p0) \<and> base_addr p = base_addr p0 \<and>
    num_elements p = num_elements p0"
  using assms(1)
proof induction
  case bp_init
  then show ?case using assms(2) by simp
next
  case (bp_alloc p out a p')
  then have "bp_addrs p \<noteq> []" using alloc_buff_empty by fastforce
  then obtain b bs where b: "bp_addrs p = b # bs" by (cases "bp_addrs p") auto
  obtain q where "alloc_buff p = (Some b, q)" "bp_inv q" "bp_addrs q = bs"
    "base_addr q = base_addr p" "num_elements q = num_elements p"
    by (rule alloc_buff_ok [OF _ b]) (use bp_alloc in auto)
  then show ?case using bp_alloc b by auto
next
  case (bp_free p out a)
  have "length (bp_addrs p) + size out = num_elements p0 - 1"
    using bp_free.IH assms(4) by (metis size_mset size_union)
  moreover have "0 < size out" using bp_free.hyps(2) by (cases "out = {#}") (auto simp: nonempty_has_size)
  ultimately have lt: "length (bp_addrs p) < num_elements p - 1" using bp_free.IH by simp
  have "a \<in># mset (bp_addrs p0)" using bp_free.IH bp_free.hyps(2) by (metis union_iff)
  then have "a < 2 ^ 64" using assms(5) by simp
  then have f: "bp_inv (free_buff a p)" "bp_addrs (free_buff a p) = bp_addrs p @ [a]"
    "base_addr (free_buff a p) = base_addr p" "num_elements (free_buff a p) = num_elements p"
    using free_buff_ok [of p a] bp_free.IH assms(3) lt by auto
  have "mset (bp_addrs (free_buff a p)) + (out - {#a#}) = mset (bp_addrs p) + out"
    using bp_free.hyps(2) f(2) by simp
  then show ?case using f bp_free.IH by simp
qed

lemma bp_all_distinct: "0 < elem_size \<Longrightarrow> distinct (bp_all base num elem_size)"
  by (auto simp: bp_all_def distinct_map inj_on_def)

text \<open>
  C21: in every state a pool of \<open>num\<close> elements reaches while its client frees only buffers it
  holds, each of the \<open>num - 1\<close> usable buffers is either free or held, exactly once: an allocation
  succeeds unless all of them are held, and what it returns is a buffer of the region that the
  client does not hold.
\<close>

theorem bp_no_double_allocation:
  assumes "num = 2 ^ k" "1 \<le> k" "k \<le> 31" "0 < elem_size" "base + num * elem_size < 2 ^ 64"
    and "bp_reach (BuffPool_new base num elem_size) p out"
  shows "mset (bp_addrs p) + out = mset (bp_all base num elem_size) \<and>
    (case alloc_buff p of
       (None, p') \<Rightarrow> size out = num - 1 \<and> p' = p
     | (Some a, _) \<Rightarrow> size out < num - 1 \<and> a \<notin># out \<and> a \<in> set (bp_all base num elem_size))"
proof -
  note new = BuffPool_new_ok [OF assms(1-3,5)]
  have "a < 2 ^ 64" if a: "a \<in> set (bp_all base num elem_size)" for a
  proof -
    obtain i where i: "i < num - 1" "a = base + i * elem_size" using a by (auto simp: bp_all_def)
    have "i * elem_size \<le> num * elem_size" using i(1) by (intro mult_right_mono) simp_all
    then show ?thesis using assms(5) i(2) by linarith
  qed
  moreover have "base < 2 ^ 64" using assms(5) by simp
  ultimately have r: "bp_inv p" "mset (bp_addrs p) + out = mset (bp_all base num elem_size)"
    using bp_reach_inv [OF assms(6)] new by (auto simp: bp_all_def)
  have sz: "length (bp_addrs p) + size out = num - 1"
    by (metis r(2) size_union size_mset length_map length_upt bp_all_def minus_nat.diff_0)
  show ?thesis
  proof (cases "bp_addrs p")
    case Nil
    then show ?thesis using alloc_buff_empty [OF r(1)] r(2) sz by simp
  next
    case (Cons a as)
    obtain p' where al: "alloc_buff p = (Some a, p')" by (rule alloc_buff_ok [OF r(1) Cons])
    have all: "add_mset a (mset as + out) = mset (bp_all base num elem_size)" using r(2) Cons by simp
    then have "a \<in># mset (bp_all base num elem_size)" by (metis union_single_eq_member add_mset_add_single)
    moreover have "count (mset (bp_all base num elem_size)) a \<le> 1"
      using bp_all_distinct [OF assms(4)] by (simp add: distinct_count_atmost_1)
    then have "count out a = 0" unfolding all [symmetric] by simp
    ultimately show ?thesis using al r(2) sz Cons by (simp add: not_in_iff)
  qed
qed

theorem bp_no_double_allocation_witness:
  "\<exists>p. bp_reach (BuffPool_new 4096 4 64) p {#4160, 4096#} \<and>
     mset (bp_addrs p) + {#4160, 4096#} = {#4096, 4160, 4224#}"
proof -
  let ?p0 = "BuffPool_new 4096 4 64"
  have a1: "fst (alloc_buff ?p0) = Some 4096" by code_simp
  have a2: "fst (alloc_buff (snd (alloc_buff ?p0))) = Some 4160" by code_simp
  have "bp_reach ?p0 (snd (alloc_buff ?p0)) {#4096#}"
    using bp_alloc [OF bp_init, of ?p0 4096] a1 by (metis prod.collapse)
  then have r: "bp_reach ?p0 (snd (alloc_buff (snd (alloc_buff ?p0)))) {#4160, 4096#}"
    using bp_alloc [of ?p0 "snd (alloc_buff ?p0)" "{#4096#}" 4160] a2 by (metis prod.collapse)
  have "bp_all 4096 4 64 = [4096, 4160, 4224]" by code_simp
  then show ?thesis using r bp_no_double_allocation [of 4 2 64 4096, OF _ _ _ _ _ r] by auto
qed

end
