(* ===== verification/Seqno.thy ===== *)
theory Seqno
  imports Prelude
begin

text \<open>
  Chunk sequence numbers: the class \<open>UINT_CSN\<close> and the comparisons \<open>seqno_lt\<close> and its kin of
  \<open>include/util/util.h\<close>, and the pull-quantum comparisons \<open>pullno_*\<close> of \<open>include/cc/eqds.h\<close>, which
  are the same arithmetic. A sequence number is an 8-bit word; a comparison casts the 8-bit
  difference to \<open>int8_t\<close>. The lemmas relate the comparisons to the unbounded number a chunk
  really has, as long as the two numbers are less than half the space apart.
\<close>

section \<open>Comparisons of 8-bit serial numbers\<close>

definition seqno_lt :: "u8 \<Rightarrow> u8 \<Rightarrow> bool" where
  "seqno_lt a b \<longleftrightarrow> sint (a - b) < 0"

definition seqno_le :: "u8 \<Rightarrow> u8 \<Rightarrow> bool" where
  "seqno_le a b \<longleftrightarrow> sint (a - b) \<le> 0"

definition seqno_eq :: "u8 \<Rightarrow> u8 \<Rightarrow> bool" where
  "seqno_eq a b \<longleftrightarrow> sint (a - b) = 0"

definition seqno_ge :: "u8 \<Rightarrow> u8 \<Rightarrow> bool" where
  "seqno_ge a b \<longleftrightarrow> sint (a - b) \<ge> 0"

definition seqno_gt :: "u8 \<Rightarrow> u8 \<Rightarrow> bool" where
  "seqno_gt a b \<longleftrightarrow> sint (a - b) > 0"

section \<open>The class UINT_CSN\<close>

text \<open>The only field is \<open>uint8_t value_\<close>; the constructor keeps the low eight bits.\<close>

type_synonym UINT_CSN = u8

definition UINT_CSN_of :: "u32 \<Rightarrow> UINT_CSN" where
  "UINT_CSN_of value = ucast (value AND 255)"

definition to_uint32 :: "UINT_CSN \<Rightarrow> u32" where
  "to_uint32 v = ucast v"

text \<open>
  \<open>operator+\<close> and \<open>operator-\<close> promote both bytes to \<open>int\<close>, and the result goes through the
  constructor.
\<close>

definition csn_add :: "UINT_CSN \<Rightarrow> UINT_CSN \<Rightarrow> UINT_CSN" where
  "csn_add a b = UINT_CSN_of (ucast a + ucast b)"

definition csn_sub :: "UINT_CSN \<Rightarrow> UINT_CSN \<Rightarrow> UINT_CSN" where
  "csn_sub a b = UINT_CSN_of (ucast a - ucast b)"

lemma UINT_CSN_of_eq [simp]: "UINT_CSN_of v = ucast v"
proof -
  have m: "(255 :: u32) = mask 8" by (simp add: mask_eq_exp_minus_1)
  show ?thesis
    unfolding UINT_CSN_of_def m by (rule bit_word_eqI) (auto simp: bit_simps)
qed

lemma csn_add_eq [simp]: "csn_add a b = a + b"
  unfolding csn_add_def UINT_CSN_of_eq by transfer (simp add: take_bit_add)

lemma csn_sub_eq [simp]: "csn_sub a b = a - b"
  unfolding csn_sub_def UINT_CSN_of_eq by transfer (simp add: take_bit_diff)

lemma ucast_to_uint32 [simp]: "UINT_CSN_of (to_uint32 v) = v"
  unfolding to_uint32_def UINT_CSN_of_eq by transfer simp

lemma to_uint32_eq_iff [simp]: "to_uint32 a = to_uint32 b \<longleftrightarrow> a = b"
  by (metis ucast_to_uint32)

lemma unat_to_uint32 [simp]: "unat (to_uint32 v) = unat v"
  unfolding to_uint32_def by (simp add: unsigned_ucast_eq take_bit_nat_eq_self unsigned_less [where w = v, THEN order_less_le_trans])

section \<open>Serial numbers of unbounded positions\<close>

text \<open>\<open>csn_of n\<close> is the sequence number carried by the \<open>n\<close>-th chunk of a flow.\<close>

definition csn_of :: "nat \<Rightarrow> UINT_CSN" where
  "csn_of n = of_nat n"

lemma csn_of_Suc [simp]: "csn_of (Suc n) = csn_of n + 1"
  by (simp add: csn_of_def)

lemma csn_of_add: "csn_of (m + n) = csn_of m + csn_of n"
  by (simp add: csn_of_def)

lemma unat_csn_of: "unat (csn_of n) = n mod 256"
  by (simp add: csn_of_def unat_of_nat)

lemma csn_of_eq_iff: "csn_of m = csn_of n \<longleftrightarrow> m mod 256 = n mod 256"
  by (metis csn_of_def of_nat_unat unat_csn_of word_unat_eq_iff)

lemma sint_csn_diff:
  assumes "- 128 \<le> int m - int n" "int m - int n < 128"
  shows "sint (csn_of m - csn_of n) = int m - int n"
proof -
  have e: "csn_of m - csn_of n = word_of_int (int m - int n)" by (simp add: csn_of_def)
  have "signed_take_bit 7 (int m - int n) = int m - int n"
    using assms by (intro signed_take_bit_int_eq_self) auto
  then show ?thesis unfolding e by (subst signed_of_int) simp
qed

lemma unat_csn_diff:
  assumes "n \<le> m" "m < n + 256"
  shows "unat (csn_of m - csn_of n) = m - n"
proof -
  have "csn_of m - csn_of n = csn_of (m - n)" using assms(1) by (simp add: csn_of_def of_nat_diff)
  then show ?thesis using assms by (simp add: unat_csn_of)
qed

text \<open>
  The five comparisons read the order of the unbounded positions off their 8-bit images.
\<close>

lemma seqno_compare:
  assumes "\<bar>int m - int n\<bar> < 128"
  shows "seqno_lt (csn_of m) (csn_of n) \<longleftrightarrow> m < n"
    and "seqno_le (csn_of m) (csn_of n) \<longleftrightarrow> m \<le> n"
    and "seqno_eq (csn_of m) (csn_of n) \<longleftrightarrow> m = n"
    and "seqno_ge (csn_of m) (csn_of n) \<longleftrightarrow> n \<le> m"
    and "seqno_gt (csn_of m) (csn_of n) \<longleftrightarrow> n < m"
  using assms sint_csn_diff [of m n]
  by (auto simp: seqno_lt_def seqno_le_def seqno_eq_def seqno_ge_def seqno_gt_def)

text \<open>
  A chunk exactly half the space ahead is taken for an old one: the difference 128 is the
  \<open>int8_t\<close> value -128.
\<close>

lemma seqno_lt_half: "seqno_lt (csn_of (n + 128)) (csn_of n)"
  by (simp add: seqno_lt_def csn_of_def)

lemma seqno_eq_iff [simp]: "seqno_eq a b \<longleftrightarrow> a = b"
  by (simp add: seqno_eq_def signed_eq_0_iff)

lemma seqno_gt_swap: "seqno_gt a b \<longleftrightarrow> \<not> seqno_le a b"
  by (auto simp: seqno_gt_def seqno_le_def)

lemma seqno_ge_swap: "seqno_ge a b \<longleftrightarrow> \<not> seqno_lt a b"
  by (auto simp: seqno_ge_def seqno_lt_def)

lemma seqno_lt_iff_unat: "seqno_lt a b \<longleftrightarrow> 128 \<le> unat (a - b)"
proof -
  define d where "d = unat (a - b)"
  have d: "a - b = csn_of d" by (simp add: csn_of_def d_def)
  have lt: "d < 256" unfolding d_def by (rule unat_u8_less)
  show ?thesis
  proof (cases "d < 128")
    case True
    then have "sint (csn_of d - csn_of 0) = int d" by (subst sint_csn_diff) auto
    with d True d_def show ?thesis by (simp add: seqno_lt_def csn_of_def)
  next
    case False
    have "csn_of 256 = 0" by (subst csn_of_def) simp
    then have "csn_of d = csn_of d - csn_of 256" by simp
    moreover have "sint (csn_of d - csn_of 256) = int d - 256"
      using False lt by (subst sint_csn_diff) auto
    ultimately have "sint (csn_of d) = int d - 256" by metis
    then have "sint (a - b) < 0" using d lt by simp
    with False show ?thesis by (simp add: seqno_lt_def flip: d_def)
  qed
qed

end
