(* ===== verification/EqdsCC.thy ===== *)
theory EqdsCC
  imports Seqno
begin

text \<open>
  The per-flow state of the receiver-driven congestion control EQDS: the struct \<open>EQDSCC\<close> of
  \<open>include/cc/eqds.h\<close> and \<open>EQDSCC::compute_pull_target\<close> of \<open>collective/rdma/eqds.cc\<close>. Pull numbers
  count quanta of 16384 bytes modulo 256; byte counts are \<open>uint32_t\<close>. The window of the Timely
  controller, a product of floating point numbers, is an argument of \<open>compute_pull_target\<close>.

  The lemmas bound the credit of a sender, show that the order in which pull packets arrive does
  not matter, and that pull targets stay within the range in which 8-bit comparisons are right.
\<close>

section \<open>Pull quanta\<close>

type_synonym PullQuanta = u8

definition pullno_lt :: "PullQuanta \<Rightarrow> PullQuanta \<Rightarrow> bool" where
  "pullno_lt a b \<longleftrightarrow> sint (a - b) < 0"

definition pullno_le :: "PullQuanta \<Rightarrow> PullQuanta \<Rightarrow> bool" where
  "pullno_le a b \<longleftrightarrow> sint (a - b) \<le> 0"

definition pullno_eq :: "PullQuanta \<Rightarrow> PullQuanta \<Rightarrow> bool" where
  "pullno_eq a b \<longleftrightarrow> sint (a - b) = 0"

definition pullno_ge :: "PullQuanta \<Rightarrow> PullQuanta \<Rightarrow> bool" where
  "pullno_ge a b \<longleftrightarrow> sint (a - b) \<ge> 0"

definition pullno_gt :: "PullQuanta \<Rightarrow> PullQuanta \<Rightarrow> bool" where
  "pullno_gt a b \<longleftrightarrow> sint (a - b) > 0"

definition PULL_QUANTUM :: nat where
  "PULL_QUANTUM = 16384"

definition PULL_SHIFT :: nat where
  "PULL_SHIFT = 14"

definition unquantize :: "PullQuanta \<Rightarrow> nat" where
  "unquantize q = u32_wrap (unat q * 2 ^ PULL_SHIFT)"

definition quantize_floor :: "nat \<Rightarrow> PullQuanta" where
  "quantize_floor bytes = of_nat (bytes div 2 ^ PULL_SHIFT)"

definition quantize_ceil :: "nat \<Rightarrow> PullQuanta" where
  "quantize_ceil bytes = of_nat (u32_wrap (bytes + PULL_QUANTUM - 1) div 2 ^ PULL_SHIFT)"

lemmas pull_defs = PULL_QUANTUM_def PULL_SHIFT_def

lemma unquantize_eq: "unquantize q = unat q * 16384"
proof -
  have "unat q * 16384 < 2 ^ 32" using unat_u8_less [of q] by simp
  then show ?thesis by (simp add: unquantize_def PULL_SHIFT_def u32_wrap_less)
qed

lemma unquantize_le: "unquantize q \<le> 255 * 16384"
  using unat_u8_less [of q] by (simp add: unquantize_eq)

section \<open>The congestion control block of a flow\<close>

definition INIT_PULL_QUANTA :: PullQuanta where
  "INIT_PULL_QUANTA = 50"

definition kEQDSMaxCwnd :: nat where
  "kEQDSMaxCwnd = 500000"

record EQDSCC =
  pull :: PullQuanta
  last_sent_pull_target :: PullQuanta
  credit_pull :: nat
  credit_spec :: nat
  in_speculating :: bool
  highest_pull_target :: PullQuanta
  latest_pull :: PullQuanta

definition EQDSCC_new :: EQDSCC where
  "EQDSCC_new = \<lparr>pull = INIT_PULL_QUANTA, last_sent_pull_target = INIT_PULL_QUANTA, credit_pull = 0,
     credit_spec = kEQDSMaxCwnd, in_speculating = True, highest_pull_target = INIT_PULL_QUANTA,
     latest_pull = INIT_PULL_QUANTA\<rparr>"

definition credit :: "EQDSCC \<Rightarrow> nat" where
  "credit c = u32_wrap (credit_pull c + credit_spec c)"

definition spend_credit :: "nat \<Rightarrow> EQDSCC \<Rightarrow> bool \<times> EQDSCC" where
  "spend_credit chunk_size c =
     (if credit_pull c > 0
      then (True, c\<lparr>credit_pull := (if credit_pull c > chunk_size then credit_pull c - chunk_size else 0)\<rparr>)
      else if in_speculating c \<and> credit_spec c > 0
      then (True, c\<lparr>credit_spec := (if credit_spec c > chunk_size then credit_spec c - chunk_size else 0)\<rparr>)
      else (False, c\<lparr>credit_spec := (if credit_spec c > chunk_size then credit_spec c - chunk_size else 0)\<rparr>))"

definition stop_speculating :: "EQDSCC \<Rightarrow> EQDSCC" where
  "stop_speculating c = c\<lparr>in_speculating := False\<rparr>"

text \<open>\<open>backlog_bytes\<close> is a field of the subflow, \<open>wnd\<close> the result of \<open>timely_cc.get_wnd()\<close>.\<close>

definition compute_pull_target :: "nat \<Rightarrow> nat \<Rightarrow> nat \<Rightarrow> EQDSCC \<Rightarrow> PullQuanta \<times> EQDSCC" where
  "compute_pull_target backlog_bytes wnd chunk_size c =
     (let t0 = (if backlog_bytes > u32_wrap (wnd + chunk_size) then u32_wrap (wnd + chunk_size)
                else backlog_bytes);
          t1 = (if t0 > kEQDSMaxCwnd then kEQDSMaxCwnd else t0);
          t2 = (if t1 > credit c then u32_sub t1 (credit c) else 0);
          t3 = u32_wrap (t2 + unquantize (pull c));
          old = unquantize (last_sent_pull_target c);
          (spec, t4) =
            (if \<not> in_speculating c \<and> credit_spec c > 0 \<and> u32_sub t3 old < PULL_QUANTUM div 2
             then (if credit_spec c > PULL_QUANTUM then credit_spec c - PULL_QUANTUM else 0,
                   u32_wrap (t3 + PULL_QUANTUM))
             else (credit_spec c, t3));
          target = quantize_ceil t4
      in (target, c\<lparr>credit_spec := spec, last_sent_pull_target := target\<rparr>))"

definition handle_pull_target :: "PullQuanta \<Rightarrow> EQDSCC \<Rightarrow> bool \<times> EQDSCC" where
  "handle_pull_target pull_target c =
     (if pullno_gt pull_target (highest_pull_target c)
      then (True, c\<lparr>highest_pull_target := pull_target\<rparr>) else (False, c))"

definition handle_pull :: "PullQuanta \<Rightarrow> EQDSCC \<Rightarrow> bool \<times> EQDSCC" where
  "handle_pull pullno c =
     (if pullno_gt pullno (pull c)
      then (let extra_credit = pullno - pull c;
                cp = u32_wrap (credit_pull c + unquantize extra_credit)
            in (True, c\<lparr>credit_pull := (if cp > kEQDSMaxCwnd then kEQDSMaxCwnd else cp), pull := pullno\<rparr>))
      else (False, c))"

definition backlog :: "EQDSCC \<Rightarrow> PullQuanta" where
  "backlog c =
     (if pullno_gt (highest_pull_target c) (latest_pull c)
      then highest_pull_target c - latest_pull c else 0)"

definition idle_credit_enough :: "EQDSCC \<Rightarrow> bool" where
  "idle_credit_enough c \<longleftrightarrow>
     (if pullno_ge (highest_pull_target c) (latest_pull c) then 0
      else latest_pull c - highest_pull_target c) \<ge> quantize_floor kEQDSMaxCwnd"

section \<open>Comparisons and quantisation\<close>

lemma pullno_seqno:
  "pullno_lt = seqno_lt" "pullno_le = seqno_le" "pullno_eq = seqno_eq" "pullno_ge = seqno_ge"
  "pullno_gt = seqno_gt"
  by (auto simp: fun_eq_iff pullno_lt_def pullno_le_def pullno_eq_def pullno_ge_def pullno_gt_def
      seqno_lt_def seqno_le_def seqno_ge_def seqno_gt_def signed_eq_0_iff)

lemma pullno_gt_iff_unat: "pullno_gt a b \<longleftrightarrow> 0 < unat (a - b) \<and> unat (a - b) < 128"
proof -
  have "seqno_le a b \<longleftrightarrow> seqno_lt a b \<or> a = b"
    by (auto simp: seqno_le_def seqno_lt_def signed_eq_0_iff order_le_less)
  then show ?thesis
    by (auto simp: pullno_seqno seqno_gt_swap seqno_lt_iff_unat unat_gt_0)
qed

lemma quantize_ceil_eq:
  assumes "bytes + 16383 < 2 ^ 32"
  shows "quantize_ceil bytes = csn_of ((bytes + 16383) div 16384)"
proof -
  have "bytes + PULL_QUANTUM - 1 = bytes + 16383" by (simp add: PULL_QUANTUM_def)
  then show ?thesis using assms by (simp add: quantize_ceil_def u32_wrap_less csn_of_def PULL_SHIFT_def)
qed

lemma quantize_floor_eq: "quantize_floor bytes = csn_of (bytes div 16384)"
  by (simp add: quantize_floor_def pull_defs csn_of_def)

section \<open>Credit of a sender\<close>

definition cc_inv :: "EQDSCC \<Rightarrow> bool" where
  "cc_inv c \<longleftrightarrow> credit_pull c \<le> kEQDSMaxCwnd \<and> credit_spec c \<le> kEQDSMaxCwnd"

datatype sender_event = Spend nat | Pull PullQuanta | Target nat nat nat | StopSpec

fun sender_step :: "sender_event \<Rightarrow> EQDSCC \<Rightarrow> EQDSCC" where
  "sender_step (Spend n) c = snd (spend_credit n c)"
| "sender_step (Pull q) c = snd (handle_pull q c)"
| "sender_step (Target b w n) c = snd (compute_pull_target b w n c)"
| "sender_step StopSpec c = stop_speculating c"

lemma credit_eq: "cc_inv c \<Longrightarrow> credit c = credit_pull c + credit_spec c"
  by (simp add: credit_def cc_inv_def kEQDSMaxCwnd_def u32_wrap_less)

lemma sender_step_inv: "cc_inv c \<Longrightarrow> cc_inv (sender_step e c)"
  by (cases e) (auto simp: cc_inv_def spend_credit_def handle_pull_def compute_pull_target_def
      stop_speculating_def Let_def)

lemma cc_inv_new: "cc_inv EQDSCC_new"
  by (simp add: cc_inv_def EQDSCC_new_def)

lemma sender_run_inv: "cc_inv c \<Longrightarrow> cc_inv (fold sender_step es c)"
  by (induction es arbitrary: c) (auto simp: sender_step_inv)

lemma handle_pull_csn:
  assumes "pull c = csn_of P" "credit_pull c \<le> kEQDSMaxCwnd" "\<bar>int N - int P\<bar> < 128"
  shows "pull (snd (handle_pull (csn_of N) c)) = csn_of (max P N)"
    and "credit_pull (snd (handle_pull (csn_of N) c)) =
      min kEQDSMaxCwnd (credit_pull c + 16384 * (max P N - P))"
proof -
  have gt: "pullno_gt (csn_of N) (csn_of P) \<longleftrightarrow> P < N"
    using seqno_compare(5) [OF assms(3)] by (simp add: pullno_seqno)
  have d: "unat (csn_of N - csn_of P) = N - P" if "P < N"
    using that assms(3) by (intro unat_csn_diff) auto
  have w: "u32_wrap (credit_pull c + (N - P) * 16384) = credit_pull c + (N - P) * 16384" if "P < N"
    using that assms(2,3) by (intro u32_wrap_less) (simp add: kEQDSMaxCwnd_def)
  show "pull (snd (handle_pull (csn_of N) c)) = csn_of (max P N)"
    using gt assms(1) by (simp add: handle_pull_def Let_def max_def)
  show "credit_pull (snd (handle_pull (csn_of N) c)) =
      min kEQDSMaxCwnd (credit_pull c + 16384 * (max P N - P))"
    using gt d w assms(1,2) by (cases "P < N") (auto simp: handle_pull_def Let_def unquantize_eq)
qed

lemma min_credit_add:
  fixes P Q M c k :: nat
  assumes "P \<le> Q" "Q \<le> M"
  shows "min k (min k (c + 16384 * (Q - P)) + 16384 * (M - Q)) = min k (c + 16384 * (M - P))"
proof -
  have "16384 * (M - P) = 16384 * (Q - P) + 16384 * (M - Q)" using assms by simp
  then show ?thesis by (simp add: min_def)
qed

section \<open>Properties\<close>

text \<open>
  C17: whatever a sender does (spends, receives pulls, computes targets, stops speculating), both
  kinds of credit stay within the maximum window of 500000 bytes, so the sum \<open>credit()\<close> never
  wraps around.
\<close>

theorem eqds_credit_bounded:
  "credit_pull (fold sender_step es EQDSCC_new) \<le> kEQDSMaxCwnd \<and>
   credit_spec (fold sender_step es EQDSCC_new) \<le> kEQDSMaxCwnd \<and>
   credit (fold sender_step es EQDSCC_new) =
     credit_pull (fold sender_step es EQDSCC_new) + credit_spec (fold sender_step es EQDSCC_new)"
  using sender_run_inv [OF cc_inv_new, of es] credit_eq by (simp add: cc_inv_def)

text \<open>
  C22: pull packets may be reordered or duplicated. As long as the pull numbers involved lie
  within half the 8-bit space, the sender ends with the highest pull number, and its credit is
  what the difference to the old pull number is worth, capped at the maximum window.
\<close>

theorem eqds_pull_order_irrelevant:
  assumes "pull c = csn_of P" "credit_pull c \<le> kEQDSMaxCwnd"
    and "\<forall>N\<in>set (P # Ns). lo \<le> N \<and> N < lo + 128"
  shows "pull (fold (\<lambda>N c. snd (handle_pull (csn_of N) c)) Ns c) = csn_of (Max (set (P # Ns))) \<and>
    credit_pull (fold (\<lambda>N c. snd (handle_pull (csn_of N) c)) Ns c) =
      min kEQDSMaxCwnd (credit_pull c + 16384 * (Max (set (P # Ns)) - P))"
  using assms
proof (induction Ns arbitrary: c P)
  case Nil
  then show ?case by simp
next
  case (Cons N Ns)
  let ?c = "snd (handle_pull (csn_of N) c)"
  have close: "\<bar>int N - int P\<bar> < 128" using Cons.prems(3) by auto
  note step = handle_pull_csn [OF Cons.prems(1,2) close]
  have "pull (fold (\<lambda>N c. snd (handle_pull (csn_of N) c)) Ns ?c) = csn_of (Max (set (max P N # Ns))) \<and>
    credit_pull (fold (\<lambda>N c. snd (handle_pull (csn_of N) c)) Ns ?c) =
      min kEQDSMaxCwnd (credit_pull ?c + 16384 * (Max (set (max P N # Ns)) - max P N))"
    using Cons.prems(3) step by (intro Cons.IH) auto
  moreover have "Max (set (max P N # Ns)) = Max (set (P # N # Ns))"
    by (cases "Ns = []") (auto simp: max.assoc)
  moreover have "max P N \<le> Max (set (P # N # Ns))" by (intro max.boundedI Max_ge) simp_all
  ultimately show ?case using step(2) min_credit_add [of P "max P N"] by simp
qed

theorem eqds_pull_order_irrelevant_witness:
  "pull (fold (\<lambda>N c. snd (handle_pull (csn_of N) c)) [254, 260, 257] (EQDSCC_new\<lparr>pull := csn_of 252\<rparr>)) = csn_of 260 \<and>
   credit_pull (fold (\<lambda>N c. snd (handle_pull (csn_of N) c)) [254, 260, 257] (EQDSCC_new\<lparr>pull := csn_of 252\<rparr>)) = 131072"
  using eqds_pull_order_irrelevant [of "EQDSCC_new\<lparr>pull := csn_of 252\<rparr>" 252 "[254, 260, 257]" 252]
  by (simp add: EQDSCC_new_def kEQDSMaxCwnd_def)

text \<open>
  C23: the pull target a sender computes is at most 32 quanta ahead of its pull number and never
  behind it, so the receiver's 8-bit comparison with the pull numbers it granted is exact.
\<close>

theorem eqds_target_near_pull:
  assumes "credit_pull c \<le> kEQDSMaxCwnd" "credit_spec c \<le> kEQDSMaxCwnd"
  shows "unat (fst (compute_pull_target backlog_bytes wnd chunk_size c) - pull c) \<le> 32"
proof -
  define t where "t = (let t0 = (if backlog_bytes > u32_wrap (wnd + chunk_size) then u32_wrap (wnd + chunk_size)
                else backlog_bytes); t1 = (if t0 > kEQDSMaxCwnd then kEQDSMaxCwnd else t0)
    in if t1 > credit c then u32_sub t1 (credit c) else 0)"
  have "(if t1 > credit c then u32_sub t1 (credit c) else 0) \<le> kEQDSMaxCwnd" if "t1 \<le> kEQDSMaxCwnd" for t1
    using that by (auto simp: u32_sub_le kEQDSMaxCwnd_def)
  then have t: "t \<le> 500000" by (simp add: t_def Let_def kEQDSMaxCwnd_def)
  have up: "unquantize (pull c) \<le> 255 * 16384" by (rule unquantize_le)
  have t3: "u32_wrap (t + unquantize (pull c)) = t + unquantize (pull c)"
    using t up by (intro u32_wrap_less) simp
  have t4: "u32_wrap (t + unquantize (pull c) + 16384) = t + 16384 + unquantize (pull c)"
    using t up by (subst u32_wrap_less) simp_all
  have q: "unat (quantize_ceil (s + unquantize (pull c)) - pull c) \<le> 32" if "s \<le> 516384" for s
  proof -
    have "quantize_ceil (s + unquantize (pull c)) = csn_of ((s + 16383) div 16384 + unat (pull c))"
    proof (subst quantize_ceil_eq)
      show "s + unquantize (pull c) + 16383 < 2 ^ 32" using that up by simp
      have "s + unquantize (pull c) + 16383 = (s + 16383) + unat (pull c) * 16384" by (simp add: unquantize_eq)
      then show "csn_of ((s + unquantize (pull c) + 16383) div 16384) =
          csn_of ((s + 16383) div 16384 + unat (pull c))"
        by (metis div_mult_self1 add.commute zero_neq_numeral)
    qed
    also have "\<dots> - pull c = csn_of ((s + 16383) div 16384)" by (simp add: csn_of_def)
    finally show ?thesis using that by (simp add: unat_csn_of)
  qed
  have "fst (compute_pull_target backlog_bytes wnd chunk_size c) \<in>
      {quantize_ceil (t + unquantize (pull c)), quantize_ceil ((t + 16384) + unquantize (pull c))}"
    unfolding compute_pull_target_def Let_def t_def [unfolded Let_def, symmetric]
    by (simp add: t3 t4 PULL_QUANTUM_def)
  then show ?thesis using q [of t] q [of "t + 16384"] t by auto
qed

theorem eqds_target_near_pull_witness:
  "unat (fst (compute_pull_target 400000 300000 65536 (EQDSCC_new\<lparr>credit_spec := 100000, in_speculating := False\<rparr>)) - 50) \<le> 32 \<and>
   fst (compute_pull_target 400000 300000 65536 (EQDSCC_new\<lparr>credit_spec := 100000, in_speculating := False\<rparr>)) = 67"
proof -
  have "unat (fst (compute_pull_target 400000 300000 65536 (EQDSCC_new\<lparr>credit_spec := 100000, in_speculating := False\<rparr>)) -
      pull (EQDSCC_new\<lparr>credit_spec := 100000, in_speculating := False\<rparr>)) \<le> 32"
    by (rule eqds_target_near_pull) (simp_all add: EQDSCC_new_def kEQDSMaxCwnd_def)
  moreover have "fst (compute_pull_target 400000 300000 65536
      (EQDSCC_new\<lparr>credit_spec := 100000, in_speculating := False\<rparr>)) = 67" by code_simp
  ultimately show ?thesis by (simp add: EQDSCC_new_def INIT_PULL_QUANTA_def)
qed

text \<open>
  C24: quantising and unquantising agree: a number of quanta survives the round trip in both
  directions of rounding, and the quanta of a byte count below the 8-bit range bracket it.
\<close>

theorem quantize_roundtrip:
  "quantize_floor (unquantize q) = q \<and> quantize_ceil (unquantize q) = q \<and>
   (bytes \<le> 255 * PULL_QUANTUM \<longrightarrow>
      unquantize (quantize_floor bytes) \<le> bytes \<and> bytes \<le> unquantize (quantize_ceil bytes) \<and>
      unquantize (quantize_ceil bytes) - unquantize (quantize_floor bytes) \<le> PULL_QUANTUM)"
proof -
  have "quantize_floor (unquantize q) = q" by (simp add: quantize_floor_eq unquantize_eq csn_of_def)
  moreover have "quantize_ceil (unquantize q) = csn_of ((unat q * 16384 + 16383) div 16384)"
    using unquantize_le [of q] by (subst quantize_ceil_eq) (simp_all add: unquantize_eq)
  then have "quantize_ceil (unquantize q) = q" by (simp add: csn_of_def)
  moreover have "unquantize (quantize_floor bytes) \<le> bytes \<and> bytes \<le> unquantize (quantize_ceil bytes) \<and>
      unquantize (quantize_ceil bytes) - unquantize (quantize_floor bytes) \<le> PULL_QUANTUM"
    if b: "bytes \<le> 255 * PULL_QUANTUM"
  proof -
    have f: "unquantize (quantize_floor bytes) = bytes div 16384 * 16384"
      using b by (simp add: quantize_floor_eq unquantize_eq unat_csn_of PULL_QUANTUM_def)
    have "(bytes + 16383) div 16384 < 256" using b by (simp add: PULL_QUANTUM_def)
    then have c: "unquantize (quantize_ceil bytes) = (bytes + 16383) div 16384 * 16384"
      using b by (subst quantize_ceil_eq) (simp_all add: unquantize_eq unat_csn_of PULL_QUANTUM_def)
    define x y where "x = (bytes + 16383) div 16384" and "y = bytes div 16384"
    have "x \<le> (bytes + 16384) div 16384" unfolding x_def by (rule div_le_mono) simp
    then have "x \<le> y + 1" by (simp add: y_def)
    moreover have "bytes \<le> x * 16384"
      using div_mult_mod_eq [of "bytes + 16383" 16384] mod_less_divisor [of 16384 "bytes + 16383"]
      unfolding x_def by linarith
    moreover have "y * 16384 \<le> bytes" by (simp add: y_def)
    ultimately show ?thesis unfolding f c PULL_QUANTUM_def x_def [symmetric] y_def [symmetric] by simp
  qed
  ultimately show ?thesis by blast
qed

theorem quantize_roundtrip_witness:
  "unquantize (quantize_floor 40000) = 32768 \<and> unquantize (quantize_ceil 40000) = 49152 \<and>
   unquantize (quantize_ceil 40000) - unquantize (quantize_floor 40000) \<le> PULL_QUANTUM"
proof -
  have "(40000::nat) \<le> 255 * PULL_QUANTUM" by (simp add: PULL_QUANTUM_def)
  then have "unquantize (quantize_ceil 40000) - unquantize (quantize_floor 40000) \<le> PULL_QUANTUM"
    using quantize_roundtrip [of 0 40000] by blast
  moreover have "unquantize (quantize_floor 40000) = 32768" "unquantize (quantize_ceil 40000) = 49152"
    by code_simp+
  ultimately show ?thesis by simp
qed

end
