(* ===== verification/EqdsPacer.thy ===== *)
theory EqdsPacer
  imports EqdsCC BuffPool
begin

text \<open>
  The EQDS pacer of \<open>collective/rdma/eqds.h\<close> and \<open>eqds.cc\<close>: the thread that grants pull credit to the
  senders of a device. Flows and credit queue pairs are numbered; the intrusive lists
  \<open>active_senders_\<close>, \<open>idle_senders_\<close> and \<open>poll_cq_list_\<close> are lists of these numbers (a node is
  unlinked, \<open>list_empty\<close> of the node, when its number is not in the list). The verbs library is not
  part of the sources: \<open>post f q\<close> says whether \<open>ibv_post_send\<close> accepts the pull packet of flow \<open>f\<close>
  with pull number \<open>q\<close>, and the completions of a queue pair are an argument of \<open>poll_cq\<close>.

  A failed \<open>UCCL_CHECK\<close> is \<open>None\<close>; a loop that never ends is the outer \<open>None\<close> of an option of an
  option. The lemmas show that granting terminates and never exceeds a flow's pull target, and two
  defects: one pacing interval serves all the demand when the first sender asks for much, and the
  loop over the idle senders does not end when the credit buffers run out.
\<close>

section \<open>State and operations\<close>

definition kCreditPerPull :: PullQuanta where
  "kCreditPerPull = 4"

definition kSendersPerPull :: nat where
  "kSendersPerPull = 1"

definition kMaxBatchCQ :: nat where
  "kMaxBatchCQ = 16"

record PacerCreditQPWrapper =
  poll_cq_cnt :: nat
  pacer_credit_chunk_pool :: BuffPool

text \<open>\<open>pull_sent\<close> records the pull packets handed to the NIC, in order.\<close>

record EQDS =
  flow_cc :: "nat \<Rightarrow> EQDSCC"
  pc_qpw :: "nat \<Rightarrow> nat"
  qpws :: "nat \<Rightarrow> PacerCreditQPWrapper"
  active_senders :: "nat list"
  idle_senders :: "nat list"
  poll_cq_list :: "nat list"
  last_pacing_tsc :: nat
  pacing_interval_tsc :: nat
  pull_sent :: "(nat \<times> PullQuanta) list"

definition send_pull_packet :: "(nat \<Rightarrow> PullQuanta \<Rightarrow> bool) \<Rightarrow> nat \<Rightarrow> EQDS \<Rightarrow> (bool \<times> EQDS) option" where
  "send_pull_packet post f e =
     (let q = pc_qpw e f; w = qpws e q
      in case alloc_buff (pacer_credit_chunk_pool w) of
           (None, _) \<Rightarrow> Some (False, e)
         | (Some chunk_addr, pool) \<Rightarrow>
             (if \<not> post f (latest_pull (flow_cc e f)) then None
              else Some (True,
                e\<lparr>qpws := (qpws e)(q := w\<lparr>poll_cq_cnt := u32_wrap (poll_cq_cnt w + 1),
                                          pacer_credit_chunk_pool := pool\<rparr>),
                  poll_cq_list := (if q \<in> set (poll_cq_list e) then poll_cq_list e
                                   else poll_cq_list e @ [q]),
                  pull_sent := pull_sent e @ [(f, latest_pull (flow_cc e f))]\<rparr>)))"

definition upd_latest :: "nat \<Rightarrow> PullQuanta \<Rightarrow> EQDS \<Rightarrow> EQDS" where
  "upd_latest f v e = e\<lparr>flow_cc := (flow_cc e)(f := (flow_cc e f)\<lparr>latest_pull := v\<rparr>)\<rparr>"

definition grant_credit ::
    "(nat \<Rightarrow> PullQuanta \<Rightarrow> bool) \<Rightarrow> nat \<Rightarrow> bool \<Rightarrow> EQDS \<Rightarrow> (bool \<times> PullQuanta \<times> EQDS) option" where
  "grant_credit post f idle e =
     (let increment = (if \<not> idle then min kCreditPerPull (backlog (flow_cc e f)) else kCreditPerPull);
          e1 = upd_latest f (latest_pull (flow_cc e f) + increment) e
      in case send_pull_packet post f e1 of
           None \<Rightarrow> None
         | Some (sent, e2) \<Rightarrow>
             (let e3 = (if \<not> sent then upd_latest f (latest_pull (flow_cc e2 f) - increment) e2 else e2)
              in Some (backlog (flow_cc e3 f) = 0, increment, e3)))"

text \<open>
  The loop \<open>list_for_each_safe\<close> over the active senders: \<open>pos\<close> is always the first node and is
  taken off the list, so the iteration goes on, from the node that was second, unless there was
  none; a sender put back at the tail is visited again.
\<close>

partial_function (option) grant_inner ::
    "(nat \<Rightarrow> PullQuanta \<Rightarrow> bool) \<Rightarrow> nat \<Rightarrow> nat \<Rightarrow> EQDS \<Rightarrow> (nat \<times> nat \<times> EQDS) option option" where
  "grant_inner post budget total_consumed e =
     (case active_senders e of
        [] \<Rightarrow> Some (Some (budget, total_consumed, e))
      | pos # rest \<Rightarrow>
          (case grant_credit post pos False (e\<lparr>active_senders := rest\<rparr>) of
             None \<Rightarrow> Some None
           | Some (fin, consumed, e1) \<Rightarrow>
               (if fin \<and> pos \<in> set (idle_senders e1) then Some None
                else
                  (let e2 = (if fin then e1\<lparr>idle_senders := idle_senders e1 @ [pos]\<rparr>
                             else e1\<lparr>active_senders := active_senders e1 @ [pos]\<rparr>);
                       total_consumed' = (total_consumed + unat consumed) mod 2 ^ 16;
                       budget' = u32_wrap (budget + 1)
                   in if total_consumed' \<ge> unat kCreditPerPull * kSendersPerPull
                      then Some (Some (budget, total_consumed', e2))
                      else if budget' \<ge> kSendersPerPull
                      then Some (Some (budget', total_consumed', e2))
                      else if rest = [] then Some (Some (budget', total_consumed', e2))
                      else grant_inner post budget' total_consumed' e2))))"

partial_function (option) grant_active ::
    "(nat \<Rightarrow> PullQuanta \<Rightarrow> bool) \<Rightarrow> nat \<Rightarrow> nat \<Rightarrow> EQDS \<Rightarrow> EQDS option option" where
  "grant_active post budget total_consumed e =
     (if active_senders e \<noteq> [] \<and>
         (budget < kSendersPerPull \<or> total_consumed < unat kCreditPerPull * kSendersPerPull)
      then (case grant_inner post budget total_consumed e of
              None \<Rightarrow> None
            | Some None \<Rightarrow> Some None
            | Some (Some (budget', total_consumed', e')) \<Rightarrow> grant_active post budget' total_consumed' e')
      else Some (Some e))"

partial_function (option) grant_idle ::
    "(nat \<Rightarrow> PullQuanta \<Rightarrow> bool) \<Rightarrow> EQDS \<Rightarrow> EQDS option option" where
  "grant_idle post e =
     (case idle_senders e of
        [] \<Rightarrow> Some (Some e)
      | pos # rest \<Rightarrow>
          (case grant_credit post pos True (e\<lparr>idle_senders := rest\<rparr>) of
             None \<Rightarrow> Some None
           | Some (fin, consumed, e1) \<Rightarrow>
               (let e2 = (if fin \<and> \<not> idle_credit_enough (flow_cc e1 pos)
                          then e1\<lparr>idle_senders := idle_senders e1 @ [pos]\<rparr> else e1)
                in if rest = [] then Some (Some e2) else grant_idle post e2)))"

declare grant_inner.simps [code] grant_active.simps [code] grant_idle.simps [code]

definition handle_grant_credit :: "(nat \<Rightarrow> PullQuanta \<Rightarrow> bool) \<Rightarrow> EQDS \<Rightarrow> EQDS option option" where
  "handle_grant_credit post e =
     (if active_senders e \<noteq> [] then grant_active post 0 0 e else grant_idle post e)"

text \<open>
  \<open>batch\<close> lists the completions the queue pair has, each with its success and the \<open>wr_id\<close>.
\<close>

definition poll_cq :: "(bool \<times> nat) list \<Rightarrow> PacerCreditQPWrapper \<Rightarrow> bool \<times> PacerCreditQPWrapper" where
  "poll_cq batch w =
     (if poll_cq_cnt w = 0 then (True, w)
      else if batch = [] then (False, w)
      else
        (let w' = fold (\<lambda>(success, chunk_addr) w.
                 w\<lparr>pacer_credit_chunk_pool :=
                     (if success then free_buff chunk_addr (pacer_credit_chunk_pool w)
                      else pacer_credit_chunk_pool w),
                   poll_cq_cnt := u32_sub (poll_cq_cnt w) 1\<rparr>) (take kMaxBatchCQ batch) w
         in (poll_cq_cnt w' = 0, w')))"

definition handle_poll_cq :: "(nat \<Rightarrow> (bool \<times> nat) list) \<Rightarrow> EQDS \<Rightarrow> EQDS" where
  "handle_poll_cq batches e =
     fold (\<lambda>q e. let (fin, w) = poll_cq (batches q) (qpws e q)
                 in e\<lparr>qpws := (qpws e)(q := w),
                      poll_cq_list := (if fin then remove1 q (poll_cq_list e) else poll_cq_list e)\<rparr>)
       (poll_cq_list e) e"

text \<open>\<open>msgs\<close> are the flows of the \<open>kRequestPull\<close> messages in the command ring.\<close>

definition request_step :: "nat \<Rightarrow> EQDS \<Rightarrow> EQDS" where
  "request_step sink e =
     (if sink \<notin> set (active_senders e)
      then e\<lparr>idle_senders := (if sink \<in> set (idle_senders e) then remove1 sink (idle_senders e)
                              else idle_senders e),
             active_senders := active_senders e @ [sink]\<rparr>
      else e)"

definition handle_pull_request :: "nat list \<Rightarrow> EQDS \<Rightarrow> EQDS" where
  "handle_pull_request msgs e = fold request_step (take 16 msgs) e"

definition run_pacer ::
    "(nat \<Rightarrow> PullQuanta \<Rightarrow> bool) \<Rightarrow> nat \<Rightarrow> nat list \<Rightarrow> (nat \<Rightarrow> (bool \<times> nat) list) \<Rightarrow> EQDS \<Rightarrow> EQDS option option" where
  "run_pacer post now msgs batches e0 =
     (let e = handle_poll_cq batches (handle_pull_request msgs e0)
      in if u64_wrap (now + 2 ^ 64 - last_pacing_tsc e) \<ge> pacing_interval_tsc e
         then map_option (map_option (\<lambda>e'. e'\<lparr>last_pacing_tsc := now\<rparr>)) (handle_grant_credit post e)
         else Some (Some e))"

section \<open>One grant\<close>

lemma unat_min: "unat (min a b :: u8) = min (unat a) (unat b)"
  by (simp add: min_def word_le_nat_alt)

lemma backlog_unat: "unat (backlog c) < 128"
  by (simp add: backlog_def pullno_gt_iff_unat)

lemma backlog_grant:
  assumes "unat inc \<le> unat (backlog c)"
  shows "unat (backlog (c\<lparr>latest_pull := latest_pull c + inc\<rparr>)) = unat (backlog c) - unat inc"
    and "latest_pull c + inc + backlog (c\<lparr>latest_pull := latest_pull c + inc\<rparr>) = latest_pull c + backlog c"
proof -
  define d where "d = highest_pull_target c - latest_pull c"
  have e: "highest_pull_target c - (latest_pull c + inc) = d - inc" by (simp add: d_def)
  have b: "backlog c = (if 0 < unat d \<and> unat d < 128 then d else 0)"
    by (simp add: backlog_def pullno_gt_iff_unat d_def)
  have b': "backlog (c\<lparr>latest_pull := latest_pull c + inc\<rparr>) =
      (if 0 < unat (d - inc) \<and> unat (d - inc) < 128 then d - inc else 0)"
    by (simp add: backlog_def pullno_gt_iff_unat e)
  have u: "unat (d - inc) = unat d - unat inc" if "unat inc \<le> unat d"
    using that by (simp add: unat_sub word_le_nat_alt)
  have r: "unat (backlog (c\<lparr>latest_pull := latest_pull c + inc\<rparr>)) = unat (backlog c) - unat inc \<and>
      inc + backlog (c\<lparr>latest_pull := latest_pull c + inc\<rparr>) = backlog c"
  proof (cases "0 < unat d \<and> unat d < 128")
    case True
    then have le: "unat inc \<le> unat d" using assms b by simp
    then have "d - inc = 0 \<longleftrightarrow> unat d = unat inc" by (metis eq_iff_diff_eq_0 word_unat_eq_iff)
    then show ?thesis using True le b b' u by auto
  next
    case False
    then have "inc = 0" using assms b by (simp add: unat_eq_zero split: if_splits)
    with False show ?thesis using b b' by auto
  qed
  then show "unat (backlog (c\<lparr>latest_pull := latest_pull c + inc\<rparr>)) = unat (backlog c) - unat inc" by simp
  show "latest_pull c + inc + backlog (c\<lparr>latest_pull := latest_pull c + inc\<rparr>) = latest_pull c + backlog c"
    using r by (simp add: add.assoc)
qed

definition has_credit_buffer :: "nat \<Rightarrow> EQDS \<Rightarrow> bool" where
  "has_credit_buffer f e \<longleftrightarrow> fst (alloc_buff (pacer_credit_chunk_pool (qpws e (pc_qpw e f)))) \<noteq> None"

lemma upd_latest_sel [simp]:
  "flow_cc (upd_latest f v e) = (flow_cc e)(f := (flow_cc e f)\<lparr>latest_pull := v\<rparr>)"
  "active_senders (upd_latest f v e) = active_senders e" "idle_senders (upd_latest f v e) = idle_senders e"
  "pc_qpw (upd_latest f v e) = pc_qpw e" "qpws (upd_latest f v e) = qpws e"
  "poll_cq_list (upd_latest f v e) = poll_cq_list e"
  by (simp_all add: upd_latest_def)

definition grant_increment :: "bool \<Rightarrow> EQDSCC \<Rightarrow> PullQuanta" where
  "grant_increment idle c = (if \<not> idle then min kCreditPerPull (backlog c) else kCreditPerPull)"

lemma grant_credit_ok:
  assumes "\<And>f q. post f q" and "inc = grant_increment idle (flow_cc e f)"
  obtains e' where "grant_credit post f idle e = Some (backlog (flow_cc e' f) = 0, inc, e')"
    "flow_cc e' = (flow_cc e)(f := (flow_cc e f)\<lparr>latest_pull := latest_pull (flow_cc e f) +
       (if has_credit_buffer f e then inc else 0)\<rparr>)"
    "active_senders e' = active_senders e" "idle_senders e' = idle_senders e" "pc_qpw e' = pc_qpw e"
    "qpws e' = (if has_credit_buffer f e
       then (qpws e)(pc_qpw e f := (qpws e (pc_qpw e f))\<lparr>
              poll_cq_cnt := u32_wrap (poll_cq_cnt (qpws e (pc_qpw e f)) + 1),
              pacer_credit_chunk_pool := snd (alloc_buff (pacer_credit_chunk_pool (qpws e (pc_qpw e f))))\<rparr>)
       else qpws e)"
proof (cases "alloc_buff (pacer_credit_chunk_pool (qpws e (pc_qpw e f)))")
  case (Pair a pool)
  note inc = assms(2) [unfolded grant_increment_def]
  show ?thesis
  proof (cases a)
    case None
    then show ?thesis using Pair that
      by (simp add: grant_credit_def send_pull_packet_def has_credit_buffer_def Let_def flip: inc)
  next
    case (Some x)
    then show ?thesis using Pair that assms(1)
      by (simp add: grant_credit_def send_pull_packet_def has_credit_buffer_def Let_def flip: inc)
  qed
qed

section \<open>A round over the active senders\<close>

definition pacer_inv :: "EQDS \<Rightarrow> bool" where
  "pacer_inv e \<longleftrightarrow> distinct (active_senders e @ idle_senders e)"

text \<open>
  What a round does to the flows: no pull target changes, the pull number of a flow advances by
  what its backlog loses, and the senders stay registered.
\<close>

definition grants :: "EQDS \<Rightarrow> EQDS \<Rightarrow> bool" where
  "grants e e' \<longleftrightarrow> pacer_inv e' \<and>
     set (active_senders e') \<union> set (idle_senders e') = set (active_senders e) \<union> set (idle_senders e) \<and>
     (\<forall>g. highest_pull_target (flow_cc e' g) = highest_pull_target (flow_cc e g) \<and>
          latest_pull (flow_cc e' g) + backlog (flow_cc e' g) = latest_pull (flow_cc e g) + backlog (flow_cc e g) \<and>
          unat (backlog (flow_cc e' g)) \<le> unat (backlog (flow_cc e g)))"

lemma grants_trans: "grants a b \<Longrightarrow> grants b c \<Longrightarrow> grants a c"
  unfolding grants_def by (metis le_trans)

lemma grants_refl: "pacer_inv e \<Longrightarrow> grants e e"
  by (simp add: grants_def)

lemma kCredit_unat: "unat kCreditPerPull = 4"
  by (simp add: kCreditPerPull_def)

lemma increment_active:
  "unat (grant_increment False c) = min 4 (unat (backlog c))"
  by (simp add: grant_increment_def unat_min kCredit_unat)

lemma grant_inner_step:
  assumes "\<And>f q. post f q" "pacer_inv e" "active_senders e = f # rest" "budget < 2 ^ 32 - 1"
    and "t = (total_c + min 4 (unat (backlog (flow_cc e f)))) mod 2 ^ 16"
    and "inc = grant_increment False (flow_cc e f)"
  obtains e2 where
    "grant_inner post budget total_c e = Some (Some (if 4 \<le> t then budget else budget + 1, t, e2))"
    "grants e e2"
    "active_senders e2 = (if backlog (flow_cc e2 f) = 0 then rest else rest @ [f])"
    "flow_cc e2 = (flow_cc e)(f := (flow_cc e f)\<lparr>latest_pull := latest_pull (flow_cc e f) +
       (if has_credit_buffer f e then inc else 0)\<rparr>)"
    "pc_qpw e2 = pc_qpw e"
    "qpws e2 = (if has_credit_buffer f e
       then (qpws e)(pc_qpw e f := (qpws e (pc_qpw e f))\<lparr>
              poll_cq_cnt := u32_wrap (poll_cq_cnt (qpws e (pc_qpw e f)) + 1),
              pacer_credit_chunk_pool := snd (alloc_buff (pacer_credit_chunk_pool (qpws e (pc_qpw e f))))\<rparr>)
       else qpws e)"
proof -
  let ?e = "e\<lparr>active_senders := rest\<rparr>"
  have hb: "has_credit_buffer f ?e = has_credit_buffer f e" by (simp add: has_credit_buffer_def)
  obtain e1 where e1: "grant_credit post f False ?e = Some (backlog (flow_cc e1 f) = 0, inc, e1)"
    "flow_cc e1 = (flow_cc e)(f := (flow_cc e f)\<lparr>latest_pull := latest_pull (flow_cc e f) +
       (if has_credit_buffer f e then inc else 0)\<rparr>)"
    "active_senders e1 = rest" "idle_senders e1 = idle_senders e" "pc_qpw e1 = pc_qpw e"
    "qpws e1 = (if has_credit_buffer f e
       then (qpws e)(pc_qpw e f := (qpws e (pc_qpw e f))\<lparr>
              poll_cq_cnt := u32_wrap (poll_cq_cnt (qpws e (pc_qpw e f)) + 1),
              pacer_credit_chunk_pool := snd (alloc_buff (pacer_credit_chunk_pool (qpws e (pc_qpw e f))))\<rparr>)
       else qpws e)"
    by (rule grant_credit_ok [where post = post and e = ?e and inc = inc and f = f and idle = False])
      (use assms(1,6) hb in auto)
  define e2 where "e2 = (if backlog (flow_cc e1 f) = 0 then e1\<lparr>idle_senders := idle_senders e1 @ [f]\<rparr>
    else e1\<lparr>active_senders := active_senders e1 @ [f]\<rparr>)"
  have fl: "flow_cc e2 = flow_cc e1" "qpws e2 = qpws e1" "pc_qpw e2 = pc_qpw e1"
    "active_senders e2 = (if backlog (flow_cc e2 f) = 0 then rest else rest @ [f])"
    "idle_senders e2 = (if backlog (flow_cc e2 f) = 0 then idle_senders e @ [f] else idle_senders e)"
    using e1 by (auto simp: e2_def)
  have nin: "f \<notin> set (idle_senders e1)" using assms(2,3) e1(4) by (auto simp: pacer_inv_def)
  have un: "unat inc = min 4 (unat (backlog (flow_cc e f)))" using assms(6) by (simp add: increment_active)
  have "u32_wrap (budget + 1) = budget + 1" using assms(4) by (intro u32_wrap_less) simp
  then have inner: "grant_inner post budget total_c e = Some (Some (if 4 \<le> t then budget else budget + 1, t, e2))"
    using nin un assms(5)
    by (subst grant_inner.simps) (simp add: assms(3) e1(1) e2_def kCredit_unat kSendersPerPull_def Let_def)
  have "unat (if has_credit_buffer f e then inc else 0) \<le> unat (backlog (flow_cc e f))" using un by simp
  note bg = backlog_grant [OF this]
  have "grants e e2"
    using assms(2,3) fl e1(2) bg by (auto simp: grants_def pacer_inv_def)
  then show ?thesis using that inner fl e1 by simp
qed

text \<open>
  The round ends whether or not pull packets can be sent: every iteration either retires a sender
  or consumes a positive number of quanta, and the 16-bit sum leaves the loop at the latest when it
  wraps around. The measure is the number of active senders, then the distance to that point.
\<close>

definition round_measure :: "nat \<Rightarrow> nat \<Rightarrow> EQDS \<Rightarrow> nat" where
  "round_measure budget t e =
     length (active_senders e) * 70000 + (if budget = 0 then 2 ^ 16 - t + 10 else 4 - t)"

definition round_ok :: "nat \<Rightarrow> nat \<Rightarrow> EQDS \<Rightarrow> bool" where
  "round_ok budget t e \<longleftrightarrow> t < 2 ^ 16 \<and>
     (if budget = 0 then length (active_senders e) + 10 < 2 ^ 32
      else budget + length (active_senders e) + (4 - t) + 1 < 2 ^ 32)"

lemma sum16_cases:
  fixes t b :: nat
  assumes "t < 2 ^ 16" "b \<le> 4" "s = (t + b) mod 2 ^ 16"
  shows "s = t + b \<or> s < 4 \<and> 4 < t"
proof (cases "t + b < 2 ^ 16")
  case True
  then show ?thesis using assms(3) by simp
next
  case False
  then have "s = t + b - 2 ^ 16" using assms by (simp add: mod_if)
  then show ?thesis using False assms by auto
qed

lemma round_progress:
  assumes "round_ok budget t e" "budget = 0 \<or> t < 4" "b \<le> 4" "s = (t + b) mod 2 ^ 16"
    and "length (active_senders e') < length (active_senders e) \<or>
      length (active_senders e') = length (active_senders e) \<and> 0 < b"
    and "budget' = (if 4 \<le> s then budget else budget + 1)"
  shows "round_ok budget' s e' \<and> round_measure budget' s e' < round_measure budget t e"
proof -
  have t: "t < 2 ^ 16" using assms(1) by (simp add: round_ok_def)
  have s: "s = t + b \<or> s < 4 \<and> 4 < t" "s < 2 ^ 16"
    using sum16_cases [OF t assms(3,4)] assms(4) by auto
  show ?thesis
  proof (cases "budget = 0")
    case True
    then show ?thesis using s t assms(1,3,5,6) by (auto simp: round_ok_def round_measure_def)
  next
    case False
    then have "t < 4" using assms(2) by simp
    then have "s = t + b" using s by auto
    then show ?thesis using False \<open>t < 4\<close> s(2) assms(1,3,5,6)
      by (auto simp: round_ok_def round_measure_def)
  qed
qed

lemma grant_active_returns:
  assumes "\<And>f q. post f q" "pacer_inv e" "round_ok budget t e"
  shows "\<exists>e'. grant_active post budget t e = Some (Some e') \<and> grants e e'"
  using assms(2,3)
proof (induction "round_measure budget t e" arbitrary: budget t e rule: less_induct)
  case less
  show ?case
  proof (cases "active_senders e \<noteq> [] \<and> (budget < 1 \<or> t < 4)")
    case False
    then show ?thesis using less.prems(1)
      by (subst grant_active.simps) (auto simp: kSendersPerPull_def kCredit_unat grants_refl)
  next
    case True
    then obtain f rest where fr: "active_senders e = f # rest" by (cases "active_senders e") auto
    define b where "b = min 4 (unat (backlog (flow_cc e f)))"
    define s where "s = (t + b) mod 2 ^ 16"
    have bl: "budget < 2 ^ 32 - 1" using less.prems(2) by (auto simp: round_ok_def split: if_splits)
    obtain e2 where e2: "grant_inner post budget t e =
        Some (Some (if 4 \<le> s then budget else budget + 1, s, e2))" "grants e e2"
      "active_senders e2 = (if backlog (flow_cc e2 f) = 0 then rest else rest @ [f])"
      by (rule grant_inner_step [where post = post, OF assms(1) less.prems(1) fr bl]) (auto simp: s_def b_def)
    define bu where "bu = (if 4 \<le> s then budget else budget + 1)"
    have "0 < b" if "backlog (flow_cc e2 f) \<noteq> 0"
    proof -
      have "0 < unat (backlog (flow_cc e2 f))" using that by (simp add: unat_gt_0)
      then show ?thesis using e2(2) unfolding grants_def b_def by (metis less_le_trans min_less_iff_conj zero_less_numeral)
    qed
    then have pr: "round_ok bu s e2 \<and> round_measure bu s e2 < round_measure budget t e"
      using True e2(3) fr by (intro round_progress [OF less.prems(2), where b = b]) (auto simp: b_def s_def bu_def)
    obtain e3 where "grant_active post bu s e2 = Some (Some e3)" "grants e2 e3"
      using less.hyps [of bu s e2] pr e2(2) by (auto simp: grants_def)
    then have "grant_active post budget t e = Some (Some e3)"
      using True e2(1) by (subst grant_active.simps) (simp add: kSendersPerPull_def kCredit_unat bu_def)
    then show ?thesis using grants_trans [OF e2(2) \<open>grants e2 e3\<close>] by blast
  qed
qed

section \<open>A round that serves all the demand\<close>

definition demand :: "EQDS \<Rightarrow> nat" where
  "demand e = sum_list (map (\<lambda>f. unat (backlog (flow_cc e f))) (active_senders e))"

definition buffers_for :: "nat \<Rightarrow> EQDS \<Rightarrow> bool" where
  "buffers_for n e \<longleftrightarrow>
     (\<forall>q. bp_inv (pacer_credit_chunk_pool (qpws e q)) \<and> n \<le> length (bp_addrs (pacer_credit_chunk_pool (qpws e q))))"

lemma has_credit_buffer_iff:
  "bp_inv (pacer_credit_chunk_pool (qpws e (pc_qpw e f))) \<Longrightarrow>
   has_credit_buffer f e \<longleftrightarrow> bp_addrs (pacer_credit_chunk_pool (qpws e (pc_qpw e f))) \<noteq> []"
  by (simp add: has_credit_buffer_def alloc_buff_def bp_empty_iff bp_addrs_def)

lemma alloc_tail:
  assumes "bp_inv p" "n \<le> length (bp_addrs p)" "m < n"
  shows "bp_inv (snd (alloc_buff p)) \<and> m \<le> length (bp_addrs (snd (alloc_buff p)))"
proof -
  obtain a as where a: "bp_addrs p = a # as" using assms(2,3) by (cases "bp_addrs p") auto
  obtain p' where "alloc_buff p = (Some a, p')" "bp_inv p'" "bp_addrs p' = as"
    by (rule alloc_buff_ok [OF assms(1) a])
  then show ?thesis using a assms(2,3) by simp
qed

lemma full_grant_step:
  assumes "\<And>f q. post f q" "pacer_inv e" "active_senders e = f # rest"
    and "buffers_for (demand e + length (active_senders e)) e"
    and "b = min 4 (unat (backlog (flow_cc e f)))" "s = t + b" "s < 2 ^ 16" "4 \<le> s"
  obtains e2 where "grant_inner post 0 t e = Some (Some (0, s, e2))" "grants e e2"
    "buffers_for (demand e2 + length (active_senders e2)) e2" "demand e2 + b = demand e"
    "length (active_senders e2) + (if backlog (flow_cc e2 f) = 0 then 1 else 0) = length (active_senders e)"
    "backlog (flow_cc e2 f) \<noteq> 0 \<longrightarrow> 0 < b"
    "set (active_senders e) = (if backlog (flow_cc e2 f) = 0 then {f} else {}) \<union> set (active_senders e2)"
proof -
  have s: "s = (t + b) mod 2 ^ 16" using assms(6,7) by simp
  define inc where "inc = grant_increment False (flow_cc e f)"
  obtain e2 where e2: "grant_inner post 0 t e = Some (Some (if 4 \<le> s then 0 else 0 + 1, s, e2))"
    "grants e e2" "active_senders e2 = (if backlog (flow_cc e2 f) = 0 then rest else rest @ [f])"
    "flow_cc e2 = (flow_cc e)(f := (flow_cc e f)\<lparr>latest_pull := latest_pull (flow_cc e f) +
       (if has_credit_buffer f e then inc else 0)\<rparr>)"
    "pc_qpw e2 = pc_qpw e"
    "qpws e2 = (if has_credit_buffer f e
       then (qpws e)(pc_qpw e f := (qpws e (pc_qpw e f))\<lparr>
              poll_cq_cnt := u32_wrap (poll_cq_cnt (qpws e (pc_qpw e f)) + 1),
              pacer_credit_chunk_pool := snd (alloc_buff (pacer_credit_chunk_pool (qpws e (pc_qpw e f))))\<rparr>)
       else qpws e)"
    by (rule grant_inner_step [where post = post and t = s and total_c = t and budget = 0,
          OF assms(1-3)]) (use s assms(5) inc_def in auto)
  have dist: "f \<notin> set rest" using assms(2,3) by (simp add: pacer_inv_def)
  have de: "demand e = unat (backlog (flow_cc e f)) + sum_list (map (\<lambda>g. unat (backlog (flow_cc e g))) rest)"
    by (simp add: demand_def assms(3))
  have un: "unat inc = b" by (simp add: inc_def increment_active assms(5))
  have buf: "has_credit_buffer f e"
  proof (subst has_credit_buffer_iff)
    show "bp_inv (pacer_credit_chunk_pool (qpws e (pc_qpw e f)))" using assms(4) by (simp add: buffers_for_def)
    have "0 < length (bp_addrs (pacer_credit_chunk_pool (qpws e (pc_qpw e f))))"
      using assms(3,4) by (metis buffers_for_def length_greater_0_conv list.discI trans_less_add2 less_le_trans)
    then show "bp_addrs (pacer_credit_chunk_pool (qpws e (pc_qpw e f))) \<noteq> []" by simp
  qed
  then have fl: "flow_cc e2 f = (flow_cc e f)\<lparr>latest_pull := latest_pull (flow_cc e f) + inc\<rparr>"
    using e2(4) by simp
  have "unat inc \<le> unat (backlog (flow_cc e f))" using un assms(5) by simp
  from backlog_grant(1) [OF this] have b2: "unat (backlog (flow_cc e2 f)) + b = unat (backlog (flow_cc e f))"
    using un assms(5) by (simp add: fl)
  have oth: "map (\<lambda>g. unat (backlog (flow_cc e2 g))) rest = map (\<lambda>g. unat (backlog (flow_cc e g))) rest"
    using dist e2(4) by auto
  have d2: "demand e2 + b = demand e"
    using b2 de by (cases "backlog (flow_cc e2 f) = 0") (auto simp: demand_def e2(3) oth)
  have bz: "backlog (flow_cc e2 f) \<noteq> 0 \<longrightarrow> 0 < b"
    using b2 assms(5) unat_eq_zero [of "backlog (flow_cc e2 f)"] by (cases "b = 0") (auto simp: min_def split: if_splits)
  have lt: "demand e2 + length (active_senders e2) < demand e + length (active_senders e)"
    using d2 bz by (cases "backlog (flow_cc e2 f) = 0") (auto simp: e2(3) assms(3))
  then have "buffers_for (demand e2 + length (active_senders e2)) e2"
    using assms(4) buf e2(6)
      alloc_tail [of "pacer_credit_chunk_pool (qpws e (pc_qpw e f))", OF _ _ lt]
    unfolding buffers_for_def by (auto intro: le_trans [OF less_imp_le])
  then show ?thesis
    using that [of e2] e2(1,2,3) d2 assms(3,8) bz by auto
qed

lemma grant_active_serves_all:
  assumes "\<And>f q. post f q" "pacer_inv e" "buffers_for (demand e + length (active_senders e)) e"
    and "4 \<le> t" "t + demand e < 2 ^ 16"
  shows "\<exists>e'. grant_active post 0 t e = Some (Some e') \<and> grants e e' \<and> active_senders e' = [] \<and>
    (\<forall>f\<in>set (active_senders e). backlog (flow_cc e' f) = 0)"
  using assms(2-5)
proof (induction "demand e + length (active_senders e)" arbitrary: t e rule: less_induct)
  case less
  show ?case
  proof (cases "active_senders e")
    case Nil
    then show ?thesis using less.prems(1) by (subst grant_active.simps) (simp add: grants_refl)
  next
    case (Cons f rest)
    define b where "b = min 4 (unat (backlog (flow_cc e f)))"
    have "b \<le> demand e" by (simp add: b_def demand_def Cons)
    then have s: "t + b < 2 ^ 16" "4 \<le> t + b" using less.prems(3,4) by linarith+
    obtain e2 where e2: "grant_inner post 0 t e = Some (Some (0, t + b, e2))" "grants e e2"
      "buffers_for (demand e2 + length (active_senders e2)) e2" "demand e2 + b = demand e"
      "length (active_senders e2) + (if backlog (flow_cc e2 f) = 0 then 1 else 0) = length (active_senders e)"
      "backlog (flow_cc e2 f) \<noteq> 0 \<longrightarrow> 0 < b"
      "set (active_senders e) = (if backlog (flow_cc e2 f) = 0 then {f} else {}) \<union> set (active_senders e2)"
      by (rule full_grant_step [where post = post, OF assms(1) less.prems(1) Cons less.prems(2) b_def refl s])
    have "demand e2 + length (active_senders e2) < demand e + length (active_senders e)"
      using e2(4-6) by (auto split: if_splits)
    then obtain e3 where e3: "grant_active post 0 (t + b) e2 = Some (Some e3)" "grants e2 e3"
      "active_senders e3 = []" "\<forall>f\<in>set (active_senders e2). backlog (flow_cc e3 f) = 0"
      using less.hyps [of e2 "t + b"] e2(2-4) less.prems(3,4) by (auto simp: grants_def)
    have "backlog (flow_cc e3 f) = 0" if "backlog (flow_cc e2 f) = 0"
    proof -
      have "unat (backlog (flow_cc e3 f)) \<le> unat (backlog (flow_cc e2 f))" using e3(2) by (simp add: grants_def)
      then show ?thesis using that by (simp add: unat_eq_zero)
    qed
    then have "\<forall>f\<in>set (active_senders e). backlog (flow_cc e3 f) = 0"
      using e2(7) e3(4) by (auto split: if_splits)
    moreover have "grant_active post 0 t e = Some (Some e3)"
      using Cons e2(1) e3(1) by (subst grant_active.simps) (simp add: kSendersPerPull_def)
    ultimately show ?thesis using grants_trans [OF e2(2) e3(2)] e3(3) by blast
  qed
qed

section \<open>The loop over the idle senders\<close>

definition idle_stuck :: "EQDS \<Rightarrow> bool" where
  "idle_stuck e \<longleftrightarrow> 2 \<le> length (idle_senders e) \<and>
     (\<forall>f\<in>set (idle_senders e). backlog (flow_cc e f) = 0 \<and> \<not> idle_credit_enough (flow_cc e f) \<and>
        \<not> has_credit_buffer f e)"

lemma grant_idle_stuck_step:
  assumes "idle_stuck e" "idle_senders e = f # rest" "\<And>f q. post f q"
  obtains e1 where "grant_credit post f True (e\<lparr>idle_senders := rest\<rparr>) = Some (True, kCreditPerPull, e1)"
    "\<not> idle_credit_enough (flow_cc e1 f)" "rest \<noteq> []" "idle_stuck (e1\<lparr>idle_senders := idle_senders e1 @ [f]\<rparr>)"
proof -
  let ?e = "e\<lparr>idle_senders := rest\<rparr>"
  have nb: "\<not> has_credit_buffer f ?e" using assms(1,2) by (simp add: idle_stuck_def has_credit_buffer_def)
  obtain e1 where e1: "grant_credit post f True ?e = Some (backlog (flow_cc e1 f) = 0, kCreditPerPull, e1)"
    "flow_cc e1 = (flow_cc ?e)(f := (flow_cc ?e f)\<lparr>latest_pull := latest_pull (flow_cc ?e f) +
       (if has_credit_buffer f ?e then kCreditPerPull else 0)\<rparr>)"
    "active_senders e1 = active_senders ?e" "idle_senders e1 = idle_senders ?e" "pc_qpw e1 = pc_qpw ?e"
    "qpws e1 = (if has_credit_buffer f ?e
       then (qpws ?e)(pc_qpw ?e f := (qpws ?e (pc_qpw ?e f))\<lparr>
              poll_cq_cnt := u32_wrap (poll_cq_cnt (qpws ?e (pc_qpw ?e f)) + 1),
              pacer_credit_chunk_pool := snd (alloc_buff (pacer_credit_chunk_pool (qpws ?e (pc_qpw ?e f))))\<rparr>)
       else qpws ?e)"
    by (rule grant_credit_ok [where post = post and e = ?e and inc = kCreditPerPull and f = f and idle = True])
      (use assms(3) in \<open>auto simp: grant_increment_def\<close>)
  have same: "flow_cc e1 = flow_cc e" "qpws e1 = qpws e" "pc_qpw e1 = pc_qpw e" "idle_senders e1 = rest"
    using e1 nb by auto
  show ?thesis
    using that [of e1] e1(1) assms(1,2) same
    by (cases rest) (auto simp: idle_stuck_def has_credit_buffer_def)
qed

lemma grant_idle_diverges:
  assumes "\<And>f q. post f q" "idle_stuck e"
  shows "grant_idle post e = None"
proof -
  have "(\<forall>f q. post f q) \<longrightarrow> \<not> idle_stuck e" if "grant_idle post e = Some r" for r
  proof (rule grant_idle.raw_induct [where P = "\<lambda>post e _. (\<forall>f q. post f q) \<longrightarrow> \<not> idle_stuck e", OF _ that],
      intro impI notI)
    fix g :: "(nat \<Rightarrow> PullQuanta \<Rightarrow> bool) \<Rightarrow> EQDS \<Rightarrow> EQDS option option"
      and p :: "nat \<Rightarrow> PullQuanta \<Rightarrow> bool" and e y
    assume IH: "\<And>p e y. g p e = Some y \<Longrightarrow> (\<forall>f q. p f q) \<longrightarrow> \<not> idle_stuck e"
      and p: "\<forall>f q. p f q" and stuck: "idle_stuck e"
      and body: "(case idle_senders e of [] \<Rightarrow> Some (Some e)
        | pos # rest \<Rightarrow>
            (case grant_credit p pos True (e\<lparr>idle_senders := rest\<rparr>) of
               None \<Rightarrow> Some None
             | Some (fin, consumed, e1) \<Rightarrow>
                 (let e2 = (if fin \<and> \<not> idle_credit_enough (flow_cc e1 pos)
                            then e1\<lparr>idle_senders := idle_senders e1 @ [pos]\<rparr> else e1)
                  in if rest = [] then Some (Some e2) else g p e2))) = Some y"
    obtain f rest where fr: "idle_senders e = f # rest"
      using stuck by (cases "idle_senders e") (auto simp: idle_stuck_def)
    obtain e1 where e1: "grant_credit p f True (e\<lparr>idle_senders := rest\<rparr>) = Some (True, kCreditPerPull, e1)"
      "\<not> idle_credit_enough (flow_cc e1 f)" "rest \<noteq> []" "idle_stuck (e1\<lparr>idle_senders := idle_senders e1 @ [f]\<rparr>)"
      by (rule grant_idle_stuck_step [where post = p, OF stuck fr]) (use p in auto)
    have "g p (e1\<lparr>idle_senders := idle_senders e1 @ [f]\<rparr>) = Some y" using body fr e1(1-3) by simp
    then show False using IH p e1(4) by blast
  qed
  then show ?thesis using assms by (cases "grant_idle post e") auto
qed

section \<open>Registration\<close>

lemma request_step_inv: "pacer_inv e \<Longrightarrow> pacer_inv (request_step f e)"
  by (auto simp: pacer_inv_def request_step_def dest: notin_set_remove1)

lemma request_step_set:
  "set (active_senders (request_step f e)) = insert f (set (active_senders e))"
  by (auto simp: request_step_def)

lemma handle_pull_request_ok:
  assumes "pacer_inv e"
  shows "pacer_inv (handle_pull_request msgs e) \<and>
    set (active_senders (handle_pull_request msgs e)) = set (take 16 msgs) \<union> set (active_senders e)"
proof -
  have "pacer_inv (fold request_step ms e) \<and>
      set (active_senders (fold request_step ms e)) = set ms \<union> set (active_senders e)" for ms
    using assms
  proof (induction ms arbitrary: e)
    case Nil
    then show ?case by simp
  next
    case (Cons m ms)
    then show ?case using request_step_inv [OF Cons.prems, of m] request_step_set [of m e] by auto
  qed
  then show ?thesis by (simp add: handle_pull_request_def)
qed

lemma handle_poll_cq_lists:
  "active_senders (handle_poll_cq batches e) = active_senders e"
  "idle_senders (handle_poll_cq batches e) = idle_senders e"
  "flow_cc (handle_poll_cq batches e) = flow_cc e"
proof -
  have "active_senders (fold (\<lambda>q e. let (fin, w) = poll_cq (batches q) (qpws e q)
      in e\<lparr>qpws := (qpws e)(q := w),
           poll_cq_list := (if fin then remove1 q (poll_cq_list e) else poll_cq_list e)\<rparr>) qs e) = active_senders e \<and>
    idle_senders (fold (\<lambda>q e. let (fin, w) = poll_cq (batches q) (qpws e q)
      in e\<lparr>qpws := (qpws e)(q := w),
           poll_cq_list := (if fin then remove1 q (poll_cq_list e) else poll_cq_list e)\<rparr>) qs e) = idle_senders e \<and>
    flow_cc (fold (\<lambda>q e. let (fin, w) = poll_cq (batches q) (qpws e q)
      in e\<lparr>qpws := (qpws e)(q := w),
           poll_cq_list := (if fin then remove1 q (poll_cq_list e) else poll_cq_list e)\<rparr>) qs e) = flow_cc e" for qs
    by (induction qs arbitrary: e) (auto split: prod.splits)
  then show "active_senders (handle_poll_cq batches e) = active_senders e"
    "idle_senders (handle_poll_cq batches e) = idle_senders e"
    "flow_cc (handle_poll_cq batches e) = flow_cc e"
    by (simp_all add: handle_poll_cq_def)
qed

section \<open>Properties\<close>

definition example_pacer :: "nat \<Rightarrow> nat list \<Rightarrow> nat list \<Rightarrow> PullQuanta \<Rightarrow> EQDS" where
  "example_pacer buffers act idle target =
     \<lparr>flow_cc = (\<lambda>_. EQDSCC_new\<lparr>highest_pull_target := target\<rparr>), pc_qpw = (\<lambda>_. 0),
      qpws = (\<lambda>_. \<lparr>poll_cq_cnt = 0, pacer_credit_chunk_pool = BuffPool_new 0 buffers 4\<rparr>),
      active_senders = act, idle_senders = idle, poll_cq_list = [], last_pacing_tsc = 0,
      pacing_interval_tsc = 0, pull_sent = []\<rparr>"

text \<open>
  C18: an iteration of the pacer that has a registration request to serve ends, whatever
  completions it sees and even when no credit buffer is left. It keeps every sender in at most
  one of the two lists, registers the flows whose requests it took, and never grants an active
  flow more than it asked for: what a pull number advances is what the flow's backlog loses, and
  no pull target changes.
\<close>

theorem eqds_pacer_iteration:
  assumes "\<forall>f q. post f q" "pacer_inv e" "msgs \<noteq> []" "length (active_senders e) < 2 ^ 31"
  shows "\<exists>e'. run_pacer post now msgs batches e = Some (Some e') \<and> pacer_inv e' \<and>
    set (take 16 msgs) \<subseteq> set (active_senders e') \<union> set (idle_senders e') \<and>
    (\<forall>g. highest_pull_target (flow_cc e' g) = highest_pull_target (flow_cc e g) \<and>
         latest_pull (flow_cc e' g) + backlog (flow_cc e' g) =
           latest_pull (flow_cc e g) + backlog (flow_cc e g))"
proof -
  let ?e1 = "handle_pull_request msgs e"
  let ?e = "handle_poll_cq batches ?e1"
  have req: "pacer_inv ?e1" "set (active_senders ?e1) = set (take 16 msgs) \<union> set (active_senders e)"
    using handle_pull_request_ok [OF assms(2)] by auto
  have "flow_cc (fold request_step ms e) = flow_cc e" for ms
    by (induction ms arbitrary: e) (auto simp: request_step_def)
  then have fl: "flow_cc ?e = flow_cc e" by (simp add: handle_poll_cq_lists handle_pull_request_def)
  have inv: "pacer_inv ?e" using req(1) by (simp add: pacer_inv_def handle_poll_cq_lists)
  have "length (active_senders (fold request_step ms e)) \<le> length ms + length (active_senders e)" for ms
  proof (induction ms arbitrary: e)
    case (Cons m ms)
    have "length (active_senders (request_step m e)) \<le> 1 + length (active_senders e)"
      by (simp add: request_step_def)
    then show ?case using Cons.IH [of "request_step m e"] by simp
  qed simp
  from this [of "take 16 msgs"] have "length (active_senders ?e) \<le> 16 + length (active_senders e)"
    by (simp add: handle_poll_cq_lists handle_pull_request_def)
  moreover have "active_senders ?e \<noteq> []"
    using req(2) assms(3) by (auto simp: handle_poll_cq_lists)
  ultimately obtain e' where e': "handle_grant_credit post ?e = Some (Some e')" "grants ?e e'"
    using grant_active_returns [where post = post and e = ?e and budget = 0 and t = 0] assms(1,4) inv
    by (auto simp: handle_grant_credit_def round_ok_def)
  have act: "set (take 16 msgs) \<subseteq> set (active_senders ?e)" using req(2) by (auto simp: handle_poll_cq_lists)
  show ?thesis
  proof (cases "u64_wrap (now + 2 ^ 64 - last_pacing_tsc ?e) \<ge> pacing_interval_tsc ?e")
    case True
    then have "run_pacer post now msgs batches e = Some (Some (e'\<lparr>last_pacing_tsc := now\<rparr>))"
      using e'(1) by (simp add: run_pacer_def)
    then show ?thesis using e'(2) act fl by (auto simp: grants_def pacer_inv_def)
  next
    case False
    then have "run_pacer post now msgs batches e = Some (Some ?e)" by (simp add: run_pacer_def)
    then show ?thesis using inv act fl by auto
  qed
qed

theorem eqds_pacer_iteration_witness:
  "\<exists>e'. run_pacer (\<lambda>_ _. True) 100 [3, 0] (\<lambda>_. []) (example_pacer 16 [0] [3] 56) = Some (Some e') \<and>
     pacer_inv e' \<and> {3, 0} \<subseteq> set (active_senders e') \<union> set (idle_senders e')"
proof -
  have "pacer_inv (example_pacer 16 [0] [3] 56)" by (simp add: pacer_inv_def example_pacer_def)
  then show ?thesis
    using eqds_pacer_iteration [of "\<lambda>_ _. True" "example_pacer 16 [0] [3] 56" "[3, 0]" 100 "\<lambda>_. []"]
    by (auto simp: example_pacer_def)
qed

text \<open>
  C11: the credit granted in one pacing interval is not limited to \<open>kCreditPerPull\<close> quanta for
  \<open>kSendersPerPull\<close> senders. When the first active sender asks for at least \<open>kCreditPerPull\<close>
  quanta (and the pull packets can be sent), the round goes on until every active sender has been
  granted all it asked for: the break on the consumed credit leaves \<open>budget\<close> at 0, and the
  condition of the outer loop is a disjunction.
\<close>

theorem eqds_round_not_paced:
  assumes "\<forall>f q. post f q" "pacer_inv e" "active_senders e = f # rest"
    and "kCreditPerPull \<le> backlog (flow_cc e f)" "demand e < 2 ^ 16"
    and "buffers_for (demand e + length (active_senders e)) e"
  shows "\<exists>e'. handle_grant_credit post e = Some (Some e') \<and> active_senders e' = [] \<and>
    (\<forall>g\<in>set (active_senders e). latest_pull (flow_cc e' g) = latest_pull (flow_cc e g) + backlog (flow_cc e g))"
proof -
  have b: "min 4 (unat (backlog (flow_cc e f))) = 4"
    using assms(4) by (simp add: word_le_nat_alt kCredit_unat)
  obtain e2 where e2: "grant_inner post 0 0 e = Some (Some (0, 4, e2))" "grants e e2"
    "buffers_for (demand e2 + length (active_senders e2)) e2"
    "demand e2 + min 4 (unat (backlog (flow_cc e f))) = demand e"
    "length (active_senders e2) + (if backlog (flow_cc e2 f) = 0 then 1 else 0) = length (active_senders e)"
    "set (active_senders e) = (if backlog (flow_cc e2 f) = 0 then {f} else {}) \<union> set (active_senders e2)"
    by (rule full_grant_step [where post = post and t = 0 and s = 4, OF _ assms(2,3,6) refl])
      (use assms(1) b in auto)
  obtain e3 where e3: "grant_active post 0 4 e2 = Some (Some e3)" "grants e2 e3" "active_senders e3 = []"
    "\<forall>f\<in>set (active_senders e2). backlog (flow_cc e3 f) = 0"
    using grant_active_serves_all [where post = post and e = e2 and t = 4] e2 b assms(1,5)
    by (auto simp: grants_def)
  have zero: "backlog (flow_cc e3 g) = 0" if "g \<in> set (active_senders e)" for g
  proof (cases "g \<in> set (active_senders e2)")
    case False
    then have "backlog (flow_cc e2 g) = 0" using that e2(6) by (auto split: if_splits)
    moreover have "unat (backlog (flow_cc e3 g)) \<le> unat (backlog (flow_cc e2 g))"
      using e3(2) by (simp add: grants_def)
    ultimately show ?thesis by (simp add: unat_eq_zero)
  qed (use e3(4) in auto)
  have "latest_pull (flow_cc e3 g) + backlog (flow_cc e3 g) = latest_pull (flow_cc e g) + backlog (flow_cc e g)" for g
    using grants_trans [OF e2(2) e3(2)] by (simp add: grants_def)
  then have "\<forall>g\<in>set (active_senders e). latest_pull (flow_cc e3 g) = latest_pull (flow_cc e g) + backlog (flow_cc e g)"
    using zero by (metis add.right_neutral)
  moreover have "handle_grant_credit post e = Some (Some e3)"
    using assms(3) e2(1) e3(1)
    by (simp add: handle_grant_credit_def) (subst grant_active.simps, simp add: kSendersPerPull_def)
  ultimately show ?thesis using e3(3) by blast
qed

theorem eqds_round_not_paced_witness:
  "\<exists>e'. handle_grant_credit (\<lambda>_ _. True) (example_pacer 16 [0, 1] [] 56) = Some (Some e') \<and>
     active_senders e' = [] \<and> latest_pull (flow_cc e' 0) = 56 \<and> latest_pull (flow_cc e' 1) = 56"
proof -
  let ?e = "example_pacer 16 [0, 1] [] 56"
  have bl: "backlog (flow_cc ?e g) = 6" "latest_pull (flow_cc ?e g) = 50" for g
    by (simp_all add: example_pacer_def EQDSCC_new_def backlog_def pullno_gt_def INIT_PULL_QUANTA_def)
  then have "kCreditPerPull \<le> backlog (flow_cc ?e 0)" "demand ?e = 12"
    by (simp_all add: kCreditPerPull_def demand_def example_pacer_def)
  moreover have "buffers_for 14 ?e"
    using BuffPool_new_ok [of 16 4 0 4] by (auto simp: buffers_for_def example_pacer_def bp_all_def)
  moreover have "active_senders ?e = 0 # [1]" "pacer_inv ?e" by (simp_all add: example_pacer_def pacer_inv_def)
  ultimately show ?thesis
    using eqds_round_not_paced [of "\<lambda>_ _. True" ?e 0 "[1]"] bl by auto
qed

text \<open>
  C29: when no sender is active, at least two are idle, all of them with no backlog and not
  enough idle credit, and their credit buffers are exhausted, \<open>handle_grant_credit\<close> never returns:
  each failed grant puts the sender back at the tail of the list that the loop walks.
\<close>

theorem eqds_idle_round_diverges:
  assumes "\<forall>f q. post f q" "active_senders e = []" "2 \<le> length (idle_senders e)"
    and "\<forall>f\<in>set (idle_senders e). backlog (flow_cc e f) = 0 \<and> \<not> idle_credit_enough (flow_cc e f) \<and>
      bp_empty (pacer_credit_chunk_pool (qpws e (pc_qpw e f)))"
  shows "handle_grant_credit post e = None"
proof -
  have "idle_stuck e" using assms(3,4) by (auto simp: idle_stuck_def has_credit_buffer_def alloc_buff_def)
  then show ?thesis using grant_idle_diverges [where post = post] assms(1,2) by (simp add: handle_grant_credit_def)
qed

theorem eqds_idle_round_diverges_witness:
  "handle_grant_credit (\<lambda>_ _. True) (example_pacer 1 [] [0, 1] 50) = None"
proof (rule eqds_idle_round_diverges)
  show "\<forall>f\<in>set (idle_senders (example_pacer 1 [] [0, 1] 50)).
      backlog (flow_cc (example_pacer 1 [] [0, 1] 50) f) = 0 \<and>
      \<not> idle_credit_enough (flow_cc (example_pacer 1 [] [0, 1] 50) f) \<and>
      bp_empty (pacer_credit_chunk_pool (qpws (example_pacer 1 [] [0, 1] 50) (pc_qpw (example_pacer 1 [] [0, 1] 50) f)))"
    by code_simp
qed (simp_all add: example_pacer_def)

end
