(* ===== verification/Pcb.thy ===== *)
theory Pcb
  imports EqdsCC
begin

text \<open>
  The protocol control block of a subflow: the struct \<open>PCB\<close> of \<open>collective/rdma/pcb.h\<close> with its SACK
  bitmap of 128 bits in two 64-bit buckets. The Timely and Swift controllers, which work in
  floating point, are not part of the record. \<open>sack_set\<close> reads the bitmap as a set of offsets from
  \<open>rcv_nxt\<close>; the lemmas give setting a bit and shifting by one on it.
\<close>

section \<open>State and operations\<close>

definition kSackBitmapSize :: nat where
  "kSackBitmapSize = 64 * 2"

definition kSackBitmapBucketSize :: nat where
  "kSackBitmapBucketSize = 64"

record PCB =
  eqds_cc :: EQDSCC
  snd_nxt :: UINT_CSN
  snd_una :: UINT_CSN
  rcv_nxt :: UINT_CSN
  sack_bitmap :: "u64 list"
  sack_bitmap_count :: u8
  tx_sack_bitmap :: "u64 list"
  tx_sack_bitmap_count :: u8
  tx_sack_bitmap_base :: u32
  t_remote_nic_rx :: nat
  prev_desired_tx_tsc :: nat
  duplicate_acks :: u16
  rto_rexmits_consectutive :: u16
  snd_ooo_acks :: UINT_CSN
  stats_fast_rexmits :: u32
  stats_rto_rexmits :: u32
  stats_accept_retr :: u32
  stats_chunk_drop :: u32
  stats_retr_chunk_drop :: u32

definition PCB_new :: PCB where
  "PCB_new = \<lparr>eqds_cc = EQDSCC_new, snd_nxt = 0, snd_una = 0, rcv_nxt = 0,
     sack_bitmap = replicate (kSackBitmapSize div kSackBitmapBucketSize) 0, sack_bitmap_count = 0,
     tx_sack_bitmap = replicate (kSackBitmapSize div kSackBitmapBucketSize) 0, tx_sack_bitmap_count = 0,
     tx_sack_bitmap_base = 0, t_remote_nic_rx = 0, prev_desired_tx_tsc = 0, duplicate_acks = 0, rto_rexmits_consectutive = 0,
     snd_ooo_acks = 0, stats_fast_rexmits = 0, stats_rto_rexmits = 0, stats_accept_retr = 0,
     stats_chunk_drop = 0, stats_retr_chunk_drop = 0\<rparr>"

definition get_snd_nxt :: "PCB \<Rightarrow> UINT_CSN \<times> PCB" where
  "get_snd_nxt p = (snd_nxt p, p\<lparr>snd_nxt := csn_add (snd_nxt p) 1\<rparr>)"

definition ackno :: "PCB \<Rightarrow> UINT_CSN" where
  "ackno p = rcv_nxt p"

definition advance_rcv_nxt :: "PCB \<Rightarrow> PCB" where
  "advance_rcv_nxt p = p\<lparr>rcv_nxt := csn_add (rcv_nxt p) 1\<rparr>"

definition sack_bitmap_shift_left_one :: "PCB \<Rightarrow> PCB" where
  "sack_bitmap_shift_left_one p =
     (let max_idx = kSackBitmapSize div kSackBitmapBucketSize - 1;
          bm = fold (\<lambda>i bm. bm[i := drop_bit 1 (bm ! i) OR push_bit 63 (bm ! (i + 1))]) [0..<max_idx] (sack_bitmap p)
      in p\<lparr>sack_bitmap := bm[max_idx := drop_bit 1 (bm ! max_idx)],
           sack_bitmap_count := sack_bitmap_count p - 1\<rparr>)"

definition bitmap_bit :: "u64 list \<Rightarrow> nat \<Rightarrow> bool" where
  "bitmap_bit bm index \<longleftrightarrow>
     (bm ! (index div kSackBitmapBucketSize)) AND push_bit (index mod kSackBitmapBucketSize) 1 \<noteq> 0"

definition sack_bitmap_bit_is_set :: "nat \<Rightarrow> PCB \<Rightarrow> bool" where
  "sack_bitmap_bit_is_set index p = bitmap_bit (sack_bitmap p) index"

text \<open>An index out of bounds is fatal.\<close>

definition sack_bitmap_bit_set :: "nat \<Rightarrow> PCB \<Rightarrow> PCB option" where
  "sack_bitmap_bit_set index p =
     (if index \<ge> kSackBitmapSize then None
      else Some (p\<lparr>sack_bitmap := (sack_bitmap p)[index div kSackBitmapBucketSize :=
                     (sack_bitmap p ! (index div kSackBitmapBucketSize)) OR
                       push_bit (index mod kSackBitmapBucketSize) 1],
                   sack_bitmap_count := sack_bitmap_count p + 1\<rparr>))"

section \<open>The bitmap as a set of offsets\<close>

definition bitmap_set :: "u64 list \<Rightarrow> nat set" where
  "bitmap_set bm = {i. i < 128 \<and> bit (bm ! (i div 64)) (i mod 64)}"

definition bitmap_ok :: "u64 list \<Rightarrow> bool" where
  "bitmap_ok bm \<longleftrightarrow> length bm = 2"

lemmas bitmap_consts = kSackBitmapSize_def kSackBitmapBucketSize_def

lemma word_and_push_bit_1: "(w AND push_bit n 1 \<noteq> 0) = bit (w :: u64) n"
proof -
  have "w AND push_bit n 1 = (if bit w n then push_bit n 1 else 0)"
    by (rule bit_word_eqI) (auto simp: bit_simps)
  moreover have "push_bit n 1 \<noteq> (0 :: u64)" if "bit w n"
    using that by (metis bit_imp_le_length bit_push_bit_iff bit_1_iff diff_self_eq_0 impossible_bit le_refl
        possible_bit_word push_bit_of_1 bit_0_eq bot_apply bot_bool_def bit_exp_iff)
  ultimately show ?thesis by simp
qed

lemma bitmap_bit_iff: "i < 128 \<Longrightarrow> bitmap_bit bm i \<longleftrightarrow> i \<in> bitmap_set bm"
  by (simp add: bitmap_bit_def bitmap_set_def bitmap_consts word_and_push_bit_1 del: push_bit_of_1)

lemma bitmap_set_bounds: "bitmap_set bm \<subseteq> {..<128}"
  by (auto simp: bitmap_set_def)

lemma bitmap_set_zero: "bitmap_set [0, 0] = {}"
  by (auto simp: bitmap_set_def less_2_cases_iff div_less_iff_less_mult nth_Cons split: nat.split)

lemma sack_bit_set_ok:
  assumes "bitmap_ok (sack_bitmap p)" "i < 128"
  obtains p' where "sack_bitmap_bit_set i p = Some p'" "bitmap_set (sack_bitmap p') = insert i (bitmap_set (sack_bitmap p))"
    "bitmap_ok (sack_bitmap p')"
    "p' = p\<lparr>sack_bitmap := sack_bitmap p', sack_bitmap_count := sack_bitmap_count p + 1\<rparr>"
proof -
  define bm where "bm = (sack_bitmap p)[i div 64 := (sack_bitmap p ! (i div 64)) OR push_bit (i mod 64) 1]"
  let ?p = "p\<lparr>sack_bitmap := bm, sack_bitmap_count := sack_bitmap_count p + 1\<rparr>"
  have len: "length (sack_bitmap p) = 2" using assms(1) by (simp add: bitmap_ok_def)
  have idx: "j div 64 < 2" if "j < 128" for j :: nat using that by simp
  have "j \<in> bitmap_set bm \<longleftrightarrow> j = i \<or> j \<in> bitmap_set (sack_bitmap p)" for j
  proof (cases "j < 128")
    case True
    have eq: "j = i" if "j div 64 = i div 64" "j mod 64 = i mod 64"
      using that by (metis div_mult_mod_eq)
    have "bit (push_bit (i mod 64) (1 :: u64)) (j mod 64) \<longleftrightarrow> j mod 64 = i mod 64"
      by (auto simp: bit_simps)
    then show ?thesis using True assms(2) len idx [OF True] idx [OF assms(2)] eq
      by (cases "j div 64 = i div 64") (auto simp: bitmap_set_def bm_def bit_simps nth_list_update)
  next
    case False
    then show ?thesis using assms(2) by (auto simp: bitmap_set_def)
  qed
  then have "bitmap_set bm = insert i (bitmap_set (sack_bitmap p))" by blast
  moreover have "sack_bitmap_bit_set i p = Some ?p"
    using assms(2) by (simp add: sack_bitmap_bit_set_def bm_def bitmap_consts)
  ultimately show ?thesis using that [of ?p] len by (simp add: bitmap_ok_def bm_def)
qed

lemma sack_shift_ok:
  assumes "bitmap_ok (sack_bitmap p)"
  shows "bitmap_set (sack_bitmap (sack_bitmap_shift_left_one p)) = {i. Suc i \<in> bitmap_set (sack_bitmap p)}"
    and "bitmap_ok (sack_bitmap (sack_bitmap_shift_left_one p))"
proof -
  obtain a b where ab: "sack_bitmap p = [a, b]"
    using assms by (auto simp: bitmap_ok_def numeral_2_eq_2 length_Suc_conv)
  have bm: "sack_bitmap (sack_bitmap_shift_left_one p) = [drop_bit 1 a OR push_bit 63 b, drop_bit 1 b]"
    by (simp add: sack_bitmap_shift_left_one_def bitmap_consts ab Let_def)
  then show "bitmap_ok (sack_bitmap (sack_bitmap_shift_left_one p))" by (simp add: bitmap_ok_def)
  have "i \<in> bitmap_set [drop_bit 1 a OR push_bit 63 b, drop_bit 1 b] \<longleftrightarrow> Suc i \<in> bitmap_set [a, b]" for i
  proof -
    consider "i < 63" | "i = 63" | "63 < i" "i < 127" | "127 \<le> i" by linarith
    then show ?thesis
    proof cases
      case 1
      then show ?thesis by (auto simp: bitmap_set_def bit_simps)
    next
      case 2
      moreover have "\<not> bit a 64" using bit_imp_le_length [of a 64] by auto
      ultimately show ?thesis by (simp add: bitmap_set_def bit_simps)
    next
      case 3
      then have "i div 64 = 1" "Suc i div 64 = 1" by (auto intro: div_nat_eqI)
      then have "i mod 64 = i - 64" "Suc i mod 64 = Suc i - 64" by (auto simp: modulo_nat_def)
      moreover have "Suc (i - 64) = i - 63" using 3 by simp
      moreover note \<open>i div 64 = 1\<close> \<open>Suc i div 64 = 1\<close>
      ultimately show ?thesis using 3 by (auto simp: bitmap_set_def bit_simps)
    next
      case 4
      moreover have "\<not> bit b 64" using bit_imp_le_length [of b 64] by auto
      ultimately show ?thesis by (cases "i = 127") (auto simp: bitmap_set_def bit_simps)
    qed
  qed
  then show "bitmap_set (sack_bitmap (sack_bitmap_shift_left_one p)) = {i. Suc i \<in> bitmap_set (sack_bitmap p)}"
    unfolding bm ab by blast
qed

lemma sack_shift_frame:
  "sack_bitmap_shift_left_one p =
     p\<lparr>sack_bitmap := sack_bitmap (sack_bitmap_shift_left_one p), sack_bitmap_count := sack_bitmap_count p - 1\<rparr>"
  by (simp add: sack_bitmap_shift_left_one_def Let_def)

end
