(* ===== verification/ImmData.thy ===== *)
theory ImmData
  imports Seqno
begin

text \<open>
  The 32-bit immediate of a data chunk: the classes \<open>IMMData\<close> and \<open>IMMDataEQDS\<close> of
  \<open>collective/rdma/transport.h\<close>. A setter ors its field into the word; a getter shifts and masks.
  The lemmas show that the fields do not overlap and that what is set on a zero word is read back;
  setting a field twice gives the disjunction of the two values.
\<close>

section \<open>Layout, getters and setters\<close>

type_synonym IMMData = u32

definition kFID :: nat where "kFID = 0"
definition kRID :: nat where "kRID = 11"
definition kCSN :: nat where "kCSN = 15"
definition kRESERVED :: nat where "kRESERVED = kCSN + 8"
definition kHINT :: nat where "kHINT = kRESERVED + 8"
definition kPULL_TARGET :: nat where "kPULL_TARGET = kRESERVED"
definition UINT_CSN_MASK :: u32 where "UINT_CSN_MASK = push_bit 8 1 - 1"

definition GetHINT :: "IMMData \<Rightarrow> u32" where
  "GetHINT imm = drop_bit kHINT imm AND 0x1"

definition GetRESERVED :: "IMMData \<Rightarrow> u32" where
  "GetRESERVED imm = drop_bit kRESERVED imm AND 0xFF"

definition GetCSN :: "IMMData \<Rightarrow> u32" where
  "GetCSN imm = drop_bit kCSN imm AND UINT_CSN_MASK"

definition GetRID :: "IMMData \<Rightarrow> u32" where
  "GetRID imm = drop_bit kRID imm AND 0xF"

definition GetFID :: "IMMData \<Rightarrow> u32" where
  "GetFID imm = drop_bit kFID imm AND 0x7FF"

definition GetTarget :: "IMMData \<Rightarrow> u32" where
  "GetTarget imm = drop_bit kPULL_TARGET imm AND 0xFF"

definition SetHINT :: "u32 \<Rightarrow> IMMData \<Rightarrow> IMMData" where
  "SetHINT hint imm = imm OR push_bit kHINT (hint AND 0x1)"

definition SetRESERVED :: "u32 \<Rightarrow> IMMData \<Rightarrow> IMMData" where
  "SetRESERVED reserved imm = imm OR push_bit kRESERVED (reserved AND 0xFF)"

definition SetCSN :: "u32 \<Rightarrow> IMMData \<Rightarrow> IMMData" where
  "SetCSN csn imm = imm OR push_bit kCSN (csn AND UINT_CSN_MASK)"

definition SetRID :: "u32 \<Rightarrow> IMMData \<Rightarrow> IMMData" where
  "SetRID rid imm = imm OR push_bit kRID (rid AND 0xF)"

definition SetFID :: "u32 \<Rightarrow> IMMData \<Rightarrow> IMMData" where
  "SetFID fid imm = imm OR push_bit kFID (fid AND 0x7FF)"

definition SetTarget :: "u32 \<Rightarrow> IMMData \<Rightarrow> IMMData" where
  "SetTarget pull_target imm = imm OR push_bit kPULL_TARGET (pull_target AND 0xFF)"

section \<open>Fields of a word\<close>

definition get_field :: "nat \<Rightarrow> nat \<Rightarrow> u32 \<Rightarrow> u32" where
  "get_field s w x = drop_bit s x AND mask w"

definition set_field :: "nat \<Rightarrow> nat \<Rightarrow> u32 \<Rightarrow> u32 \<Rightarrow> u32" where
  "set_field s w v x = x OR push_bit s (v AND mask w)"

lemma mask_consts: "(1 :: u32) = mask 1" "(0xFF :: u32) = mask 8" "(0xF :: u32) = mask 4" "(0x7FF :: u32) = mask 11"
  by (simp_all add: mask_eq_exp_minus_1)

lemma UINT_CSN_MASK_eq: "UINT_CSN_MASK = mask 8"
  by (simp add: UINT_CSN_MASK_def mask_eq_exp_minus_1)

lemmas layout = kFID_def kRID_def kCSN_def kRESERVED_def kHINT_def kPULL_TARGET_def

lemma imm_get_field:
  "GetHINT = get_field 31 1" "GetRESERVED = get_field 23 8" "GetCSN = get_field 15 8"
  "GetRID = get_field 11 4" "GetFID = get_field 0 11" "GetTarget = get_field 23 8"
  by (simp_all add: fun_eq_iff GetHINT_def GetRESERVED_def GetCSN_def GetRID_def GetFID_def GetTarget_def
      get_field_def layout UINT_CSN_MASK_eq mask_consts(2-4))

lemma imm_set_field:
  "SetHINT = set_field 31 1" "SetRESERVED = set_field 23 8" "SetCSN = set_field 15 8"
  "SetRID = set_field 11 4" "SetFID = set_field 0 11" "SetTarget = set_field 23 8"
  by (simp_all add: fun_eq_iff SetHINT_def SetRESERVED_def SetCSN_def SetRID_def SetFID_def SetTarget_def
      set_field_def layout UINT_CSN_MASK_eq mask_consts(2-4))

lemmas imm_fields = imm_get_field imm_set_field

lemma get_set_same:
  assumes "s + w \<le> 32"
  shows "get_field s w (set_field s w v x) = get_field s w x OR (v AND mask w)"
  by (rule bit_word_eqI) (use assms in \<open>auto simp: get_field_def set_field_def bit_simps\<close>)

lemma get_set_other:
  assumes "s' + w' \<le> s \<or> s + w \<le> s'"
  shows "get_field s w (set_field s' w' v x) = get_field s w x"
  by (rule bit_word_eqI) (use assms in \<open>auto simp: get_field_def set_field_def bit_simps\<close>)

lemma get_field_0 [simp]: "get_field s w 0 = 0"
  by (simp add: get_field_def)

lemma unat_mask: "unat (v AND mask w :: u32) = unat v mod 2 ^ w"
proof -
  have "unat (v AND mask w) = take_bit w (unat v)" by (simp add: unsigned_take_bit_eq flip: take_bit_eq_mask)
  then show ?thesis by (simp add: take_bit_eq_mod)
qed

lemma get_field_le: "unat (get_field s w x) < 2 ^ w"
  by (simp add: get_field_def unat_mask)

lemma mask_and_id: "unat (v :: u32) < 2 ^ w \<Longrightarrow> v AND mask w = v"
  by (simp add: unat_mask word_unat_eq_iff)

text \<open>
  The immediate the sender of a chunk builds (\<open>senderCC_tx_message\<close>, \<open>receiverCC_tx_message\<close>).
\<close>

definition imm_of_chunk :: "u8 option \<Rightarrow> u32 \<Rightarrow> bool \<Rightarrow> u32 \<Rightarrow> UINT_CSN \<Rightarrow> IMMData" where
  "imm_of_chunk target fid last_chunk rid csn =
     (let imm = (case target of None \<Rightarrow> 0 | Some t \<Rightarrow> SetTarget (ucast t) 0);
          imm = SetFID fid imm;
          imm = (if last_chunk then SetHINT 1 imm else imm);
          imm = SetRID rid imm
      in SetCSN (to_uint32 csn) imm)"

lemma unat_ucast_u8 [simp]: "unat (ucast (t :: u8) :: u32) = unat t"
  using unat_to_uint32 [of t] by (simp add: to_uint32_def)

lemma imm_of_chunk_fields:
  "GetFID (imm_of_chunk target fid last_chunk rid csn) = fid AND mask 11"
  "GetRID (imm_of_chunk target fid last_chunk rid csn) = rid AND mask 4"
  "GetCSN (imm_of_chunk target fid last_chunk rid csn) = to_uint32 csn"
  "GetHINT (imm_of_chunk target fid last_chunk rid csn) = (if last_chunk then 1 else 0)"
  "GetTarget (imm_of_chunk target fid last_chunk rid csn) = (case target of None \<Rightarrow> 0 | Some t \<Rightarrow> ucast t)"
proof -
  have m: "to_uint32 csn AND mask 8 = to_uint32 csn" "ucast t AND mask 8 = (ucast t :: u32)" for t :: u8
    using unat_u8_less by (auto intro: mask_and_id)
  have "(1 :: u32) AND mask 1 = 1" by (simp add: mask_eq_exp_minus_1)
  then show "GetFID (imm_of_chunk target fid last_chunk rid csn) = fid AND mask 11"
    "GetRID (imm_of_chunk target fid last_chunk rid csn) = rid AND mask 4"
    "GetCSN (imm_of_chunk target fid last_chunk rid csn) = to_uint32 csn"
    "GetHINT (imm_of_chunk target fid last_chunk rid csn) = (if last_chunk then 1 else 0)"
    "GetTarget (imm_of_chunk target fid last_chunk rid csn) = (case target of None \<Rightarrow> 0 | Some t \<Rightarrow> ucast t)"
    by (simp_all add: imm_of_chunk_def Let_def imm_fields get_set_same get_set_other m split: option.split)
qed

section \<open>Properties\<close>

text \<open>
  C19: the receiver reads from the immediate of a chunk exactly the flow index (below 2048), the
  request id (below 16), the sequence number, the last-chunk hint and the pull target that the
  sender put in.
\<close>

theorem imm_roundtrip:
  assumes "unat fid < 2048" "unat rid < 16"
  shows "GetFID (imm_of_chunk target fid last_chunk rid csn) = fid \<and>
    GetRID (imm_of_chunk target fid last_chunk rid csn) = rid \<and>
    GetCSN (imm_of_chunk target fid last_chunk rid csn) = to_uint32 csn \<and>
    (GetHINT (imm_of_chunk target fid last_chunk rid csn) \<noteq> 0) = last_chunk \<and>
    GetTarget (imm_of_chunk target fid last_chunk rid csn) = (case target of None \<Rightarrow> 0 | Some t \<Rightarrow> ucast t)"
  using assms by (simp add: imm_of_chunk_fields mask_and_id)

theorem imm_roundtrip_witness:
  "GetFID (imm_of_chunk (Some 77) 1029 True 9 250) = 1029 \<and> GetRID (imm_of_chunk (Some 77) 1029 True 9 250) = 9 \<and>
   GetTarget (imm_of_chunk (Some 77) 1029 True 9 250) = 77"
  using imm_roundtrip [of 1029 9 "Some 77" True 250] by simp

text \<open>
  C30: re-targeting a chunk that already carries a pull target, as \<open>EventOnTxRTXData\<close> does with
  \<open>SetTarget\<close> on the immediate of the first transmission, does not store the new target: the
  receiver reads the bitwise disjunction of the old and the new one.
\<close>

theorem imm_retarget_ors:
  "GetTarget (SetTarget (ucast t2) (imm_of_chunk (Some t1) fid last_chunk rid csn)) = ucast (t1 OR t2)"
proof -
  have "GetTarget (SetTarget (ucast t2) (imm_of_chunk (Some t1) fid last_chunk rid csn)) =
      GetTarget (imm_of_chunk (Some t1) fid last_chunk rid csn) OR (ucast t2 AND mask 8)"
    by (simp add: imm_get_field imm_set_field get_set_same)
  also have "\<dots> = ucast t1 OR ucast t2"
    using unat_u8_less [of t2] by (simp add: imm_of_chunk_fields mask_and_id)
  also have "\<dots> = ucast (t1 OR t2)" by (rule bit_word_eqI) (auto simp: bit_simps)
  finally show ?thesis .
qed

end
