(* ===== verification/TimerManager.thy ===== *)
theory TimerManager
  imports Prelude "HOL-Library.Multiset"
begin

text \<open>
  The retransmission timers of \<open>collective/rdma/util_timer.h\<close>: a binary min-heap of expiration times
  in a vector, with a map from a flow to the position of its node. Pointers are numbers; the value
  of \<open>rdtsc()\<close> and the cycles of an explicit timeout, a floating-point conversion, are arguments.

  The lemmas show that the heap order and the map survive every operation, and that a manager is
  indistinguishable from a finite map from flows to timers whose expired entries are handed out
  in the order of their expiration.
\<close>

section \<open>State and operations\<close>

record TimerData =
  td_rdma_ctx :: nat
  td_flow :: nat

record TimerNode =
  expire :: nat
  node_data :: TimerData

record TimerManager =
  heap :: "TimerNode list"
  flow_map :: "nat \<rightharpoonup> nat"
  timeout :: nat

definition TimerManager_new :: "nat \<Rightarrow> TimerManager" where
  "TimerManager_new cycles = \<lparr>heap = [], flow_map = Map.empty, timeout = cycles\<rparr>"

definition tm_size :: "TimerManager \<Rightarrow> nat" where
  "tm_size m = u32_wrap (length (heap m))"

abbreviation node_flow :: "TimerNode \<Rightarrow> nat" where
  "node_flow n \<equiv> td_flow (node_data n)"

definition parent :: "nat \<Rightarrow> nat" where
  "parent j = (j - 1) div 2"

lemma parent_less: "0 < j \<Longrightarrow> parent j < j"
  by (auto simp: parent_def)

definition swap_nodes :: "nat \<Rightarrow> nat \<Rightarrow> TimerManager \<Rightarrow> TimerManager" where
  "swap_nodes a b m =
     (let h = (heap m)[a := heap m ! b, b := heap m ! a]
      in m\<lparr>heap := h, flow_map := (flow_map m)(node_flow (h ! a) \<mapsto> a, node_flow (h ! b) \<mapsto> b)\<rparr>)"

lemma swap_nodes_length [simp]: "length (heap (swap_nodes a b m)) = length (heap m)"
  by (simp add: swap_nodes_def Let_def)

function heapify_up :: "nat \<Rightarrow> TimerManager \<Rightarrow> TimerManager" where
  "heapify_up index m =
     (if index > 0
      then (if expire (heap m ! index) < expire (heap m ! parent index)
            then heapify_up (parent index) (swap_nodes index (parent index) m)
            else m)
      else m)"
  by pat_completeness auto
termination
  by (relation "measure fst") (auto simp: parent_less)

text \<open>The child that \<open>heapify_down\<close> exchanges with its node, or the node itself.\<close>

definition smallest_child :: "nat \<Rightarrow> TimerNode list \<Rightarrow> nat" where
  "smallest_child index h =
     (let left = 2 * index + 1;
          right = 2 * index + 2;
          smallest = (if left < length h \<and> expire (h ! left) < expire (h ! index) then left else index)
      in if right < length h \<and> expire (h ! right) < expire (h ! smallest) then right else smallest)"

lemma smallest_child_bounds:
  "smallest_child index h \<noteq> index \<Longrightarrow> index < smallest_child index h \<and> smallest_child index h < length h"
  by (auto simp: smallest_child_def Let_def split: if_splits)

function heapify_down :: "nat \<Rightarrow> TimerManager \<Rightarrow> TimerManager" where
  "heapify_down index m =
     (let smallest = smallest_child index (heap m)
      in if smallest \<noteq> index then heapify_down smallest (swap_nodes index smallest m) else m)"
  by pat_completeness auto
termination
  by (relation "measure (\<lambda>(index, m). length (heap m) - index)") (auto dest: smallest_child_bounds)

declare heapify_up.simps [simp del] heapify_down.simps [simp del]

definition adjust_heap_node :: "nat \<Rightarrow> TimerManager \<Rightarrow> TimerManager" where
  "adjust_heap_node index m =
     (if index > 0 \<and> expire (heap m ! index) < expire (heap m ! parent index)
      then heapify_up index m
      else heapify_down index m)"

text \<open>The addition of a node, which arming and re-arming share.\<close>

definition add_timer :: "nat \<Rightarrow> TimerData \<Rightarrow> TimerManager \<Rightarrow> TimerManager" where
  "add_timer new_expire d m =
     (let m1 = m\<lparr>heap := heap m @ [\<lparr>expire = new_expire, node_data = d\<rparr>]\<rparr>;
          m2 = m1\<lparr>flow_map := (flow_map m1)(td_flow d \<mapsto> length (heap m1) - 1)\<rparr>
      in heapify_up (length (heap m2) - 1) m2)"

definition arm_timer :: "nat \<Rightarrow> TimerData \<Rightarrow> TimerManager \<Rightarrow> TimerManager" where
  "arm_timer now d m =
     (case flow_map m (td_flow d) of
        Some _ \<Rightarrow> m
      | None \<Rightarrow> add_timer (u64_wrap (now + timeout m)) d m)"

definition arm_timer_us :: "nat \<Rightarrow> nat \<Rightarrow> TimerData \<Rightarrow> TimerManager \<Rightarrow> TimerManager" where
  "arm_timer_us cycles now d m =
     (case flow_map m (td_flow d) of
        Some _ \<Rightarrow> m
      | None \<Rightarrow> add_timer (u64_wrap (now + cycles)) d m)"

definition set_expire :: "nat \<Rightarrow> nat \<Rightarrow> TimerManager \<Rightarrow> TimerManager" where
  "set_expire index new_expire m = m\<lparr>heap := (heap m)[index := (heap m ! index)\<lparr>expire := new_expire\<rparr>]\<rparr>"

definition rearm_timer :: "nat \<Rightarrow> TimerData \<Rightarrow> TimerManager \<Rightarrow> TimerManager" where
  "rearm_timer now d m =
     (let new_expire = u64_wrap (now + timeout m)
      in case flow_map m (td_flow d) of
           Some index \<Rightarrow> adjust_heap_node index (set_expire index new_expire m)
         | None \<Rightarrow> add_timer new_expire d m)"

definition rearm_timer_us :: "nat \<Rightarrow> nat \<Rightarrow> TimerData \<Rightarrow> TimerManager \<Rightarrow> TimerManager" where
  "rearm_timer_us cycles now d m =
     (let new_expire = u64_wrap (now + cycles)
      in case flow_map m (td_flow d) of
           Some index \<Rightarrow> adjust_heap_node index (set_expire index new_expire m)
         | None \<Rightarrow> add_timer new_expire d m)"

definition disarm_timer :: "TimerData \<Rightarrow> TimerManager \<Rightarrow> TimerManager" where
  "disarm_timer d m =
     (case flow_map m (td_flow d) of
        None \<Rightarrow> m
      | Some index \<Rightarrow>
          (let m1 = m\<lparr>flow_map := (flow_map m)(td_flow d := None)\<rparr>
           in if index = length (heap m1) - 1 then m1\<lparr>heap := butlast (heap m1)\<rparr>
              else
                (let m2 = m1\<lparr>heap := (heap m1)[index := last (heap m1)]\<rparr>;
                     m3 = m2\<lparr>flow_map := (flow_map m2)(node_flow (heap m2 ! index) \<mapsto> index)\<rparr>;
                     m4 = m3\<lparr>heap := butlast (heap m3)\<rparr>
                 in adjust_heap_node index m4)))"

text \<open>One turn of the loop of \<open>check_expired\<close>: the root leaves the heap.\<close>

definition pop_root :: "TimerManager \<Rightarrow> TimerManager" where
  "pop_root m =
     (let m1 = m\<lparr>flow_map := (flow_map m)(node_flow (heap m ! 0) := None)\<rparr>;
          m2 = (if length (heap m1) > 1
                then (let h = (heap m1)[0 := last (heap m1)]
                      in m1\<lparr>heap := h, flow_map := (flow_map m1)(node_flow (h ! 0) \<mapsto> 0)\<rparr>)
                else m1);
          m3 = m2\<lparr>heap := butlast (heap m2)\<rparr>
      in if heap m3 \<noteq> [] then heapify_down 0 m3 else m3)"

lemma heapify_down_length [simp]: "length (heap (heapify_down i m)) = length (heap m)"
  by (induction i m rule: heapify_down.induct) (subst heapify_down.simps, auto simp: Let_def)

lemma pop_root_length [simp]: "length (heap (pop_root m)) = length (heap m) - 1"
  by (simp add: pop_root_def Let_def flip: length_greater_0_conv)

function check_expired :: "nat \<Rightarrow> TimerManager \<Rightarrow> TimerData list \<times> TimerManager" where
  "check_expired now m =
     (if heap m \<noteq> [] \<and> expire (heap m ! 0) \<le> now
      then (let (ds, m') = check_expired now (pop_root m) in (node_data (heap m ! 0) # ds, m'))
      else ([], m))"
  by pat_completeness auto
termination
  by (relation "measure (\<lambda>(now, m). length (heap m))") (auto simp: length_greater_0_conv [symmetric] simp del: length_greater_0_conv)

declare check_expired.simps [simp del]

section \<open>The position map\<close>

definition map_ok :: "TimerManager \<Rightarrow> bool" where
  "map_ok m \<longleftrightarrow>
     (\<forall>i<length (heap m). flow_map m (node_flow (heap m ! i)) = Some i) \<and>
     (\<forall>f i. flow_map m f = Some i \<longrightarrow> i < length (heap m) \<and> node_flow (heap m ! i) = f)"

lemma map_okI:
  assumes "\<And>i. i < length (heap m) \<Longrightarrow> flow_map m (node_flow (heap m ! i)) = Some i"
    and "\<And>f i. flow_map m f = Some i \<Longrightarrow> i < length (heap m) \<and> node_flow (heap m ! i) = f"
  shows "map_ok m"
  using assms unfolding map_ok_def by blast

lemma map_okD:
  assumes "map_ok m"
  shows "i < length (heap m) \<Longrightarrow> flow_map m (node_flow (heap m ! i)) = Some i"
    and "flow_map m f = Some i \<Longrightarrow> i < length (heap m)"
    and "flow_map m f = Some i \<Longrightarrow> node_flow (heap m ! i) = f"
proof -
  note a = assms [unfolded map_ok_def]
  show "i < length (heap m) \<Longrightarrow> flow_map m (node_flow (heap m ! i)) = Some i" using conjunct1 [OF a] by simp
  show "flow_map m f = Some i \<Longrightarrow> i < length (heap m)" "flow_map m f = Some i \<Longrightarrow> node_flow (heap m ! i) = f"
    using conjunct2 [OF a, THEN spec, THEN spec, of f i] by simp_all
qed

lemma map_ok_inj:
  assumes "map_ok m" "i < length (heap m)" "j < length (heap m)"
  shows "node_flow (heap m ! i) = node_flow (heap m ! j) \<longleftrightarrow> i = j"
proof
  assume "node_flow (heap m ! i) = node_flow (heap m ! j)"
  then have "flow_map m (node_flow (heap m ! i)) = flow_map m (node_flow (heap m ! j))" by (rule arg_cong)
  then have "Some i = Some j" unfolding map_okD(1) [OF assms(1,2)] map_okD(1) [OF assms(1,3)] .
  then show "i = j" by simp
qed simp

lemma swap_nodes_map_ok:
  assumes "map_ok m" "a < length (heap m)" "b < length (heap m)"
  shows "map_ok (swap_nodes a b m)"
proof -
  let ?h = "heap m" and ?g = "heap (swap_nodes a b m)"
  have g: "?g ! j = (if j = b then ?h ! a else if j = a then ?h ! b else ?h ! j)" if "j < length ?h" for j
    using that assms(2,3) by (auto simp: swap_nodes_def Let_def nth_list_update)
  have fm: "flow_map (swap_nodes a b m) =
      (flow_map m)(node_flow (?g ! a) \<mapsto> a, node_flow (?g ! b) \<mapsto> b)"
    by (simp add: swap_nodes_def Let_def)
  have fwd: "flow_map (swap_nodes a b m) (node_flow (?g ! j)) = Some j" if "j < length ?g" for j
    unfolding fm using that assms(2,3) by (simp add: g map_ok_inj [OF assms(1)] map_okD(1) [OF assms(1)])
  have bwd: "i < length ?g \<and> node_flow (?g ! i) = f" if "flow_map (swap_nodes a b m) f = Some i" for f i
  proof (cases "f = node_flow (?g ! a) \<or> f = node_flow (?g ! b)")
    case True
    then show ?thesis using that fwd assms(2,3) by auto
  next
    case False
    then have f: "flow_map m f = Some i" using that unfolding fm by simp
    show ?thesis using False assms(2,3) map_okD(2,3) [OF assms(1) f] by (auto simp: g)
  qed
  show ?thesis by (rule map_okI [OF fwd bwd])
qed

lemma swap_nodes_mset [simp]:
  assumes "a < length (heap m)" "b < length (heap m)"
  shows "mset (heap (swap_nodes a b m)) = mset (heap m)"
  using assms by (simp add: swap_nodes_def Let_def mset_swap)

lemma swap_nodes_timeout [simp]: "timeout (swap_nodes a b m) = timeout m"
  by (simp add: swap_nodes_def Let_def)

lemma heapify_up_frame:
  assumes "map_ok m" "i < length (heap m)"
  shows "map_ok (heapify_up i m) \<and> mset (heap (heapify_up i m)) = mset (heap m) \<and>
    timeout (heapify_up i m) = timeout m"
  using assms
proof (induction i m rule: heapify_up.induct)
  case (1 i m)
  then show ?case
    using parent_less [of i] by (subst (1 2 3) heapify_up.simps) (auto simp: swap_nodes_map_ok)
qed

lemma heapify_down_frame:
  assumes "map_ok m" "i < length (heap m)"
  shows "map_ok (heapify_down i m) \<and> mset (heap (heapify_down i m)) = mset (heap m) \<and>
    timeout (heapify_down i m) = timeout m"
  using assms
proof (induction i m rule: heapify_down.induct)
  case (1 i m)
  then show ?case
    using smallest_child_bounds [of i "heap m"]
    by (subst (1 2 3) heapify_down.simps) (auto simp: Let_def swap_nodes_map_ok)
qed

section \<open>The heap order\<close>

definition heap_ok :: "TimerNode list \<Rightarrow> bool" where
  "heap_ok h \<longleftrightarrow> (\<forall>j. 0 < j \<and> j < length h \<longrightarrow> expire (h ! parent j) \<le> expire (h ! j))"

text \<open>
  The order but for node \<open>i\<close>: \<open>up_ok\<close> where it may be smaller than its parent, \<open>down_ok\<close> where it may
  be larger than its children, \<open>hole_ok\<close> where it may be anything.
\<close>

definition hole_below :: "nat \<Rightarrow> TimerNode list \<Rightarrow> bool" where
  "hole_below i h \<longleftrightarrow>
     (\<forall>j. 0 < j \<and> j < length h \<and> parent j = i \<and> 0 < i \<longrightarrow> expire (h ! parent i) \<le> expire (h ! j))"

definition up_ok :: "nat \<Rightarrow> TimerNode list \<Rightarrow> bool" where
  "up_ok i h \<longleftrightarrow> hole_below i h \<and>
     (\<forall>j. 0 < j \<and> j < length h \<and> j \<noteq> i \<longrightarrow> expire (h ! parent j) \<le> expire (h ! j))"

definition down_ok :: "nat \<Rightarrow> TimerNode list \<Rightarrow> bool" where
  "down_ok i h \<longleftrightarrow> hole_below i h \<and>
     (\<forall>j. 0 < j \<and> j < length h \<and> parent j \<noteq> i \<longrightarrow> expire (h ! parent j) \<le> expire (h ! j))"

definition hole_ok :: "nat \<Rightarrow> TimerNode list \<Rightarrow> bool" where
  "hole_ok i h \<longleftrightarrow> hole_below i h \<and>
     (\<forall>j. 0 < j \<and> j < length h \<and> j \<noteq> i \<and> parent j \<noteq> i \<longrightarrow> expire (h ! parent j) \<le> expire (h ! j))"

lemmas heap_defs = heap_ok_def hole_below_def up_ok_def down_ok_def hole_ok_def

lemma up_ok_step:
  assumes "up_ok i (heap m)" "0 < i" "i < length (heap m)" "expire (heap m ! i) < expire (heap m ! parent i)"
  shows "up_ok (parent i) (heap (swap_nodes i (parent i) m))"
proof -
  let ?h = "heap m" and ?g = "heap (swap_nodes i (parent i) m)" and ?p = "parent i"
  have p: "?p < i" using assms(2) by (rule parent_less)
  have g: "?g ! j = (if j = i then ?h ! ?p else if j = ?p then ?h ! i else ?h ! j)" if "j < length ?h" for j
    using that p assms(3) by (auto simp: swap_nodes_def Let_def nth_list_update)
  have o: "expire (?h ! parent j) \<le> expire (?h ! j)" if "0 < j" "j < length ?h" "j \<noteq> i" for j
    using assms(1) that by (simp add: up_ok_def)
  have b: "expire (?h ! ?p) \<le> expire (?h ! j)" if "0 < j" "j < length ?h" "parent j = i" for j
    using assms(1,2) that by (simp add: up_ok_def hole_below_def)
  have pp: "expire (?h ! parent ?p) \<le> expire (?h ! ?p)" if "0 < ?p" using o [of ?p] that p assms(3) by simp
  have par: "parent j < length ?h" "parent j < j" if "0 < j" "j < length ?h" for j
    using that parent_less [of j] by auto
  have "expire (?g ! parent j) \<le> expire (?g ! j)" if j: "0 < j" "j < length ?h" "j \<noteq> ?p" for j
    using g [OF j(2)] g [OF par(1) [OF j(1,2)]] o [OF j(1,2)] b [OF j(1,2)] assms(4) j(3) par(2) [OF j(1,2)]
    by (auto split: if_splits)
  moreover have "expire (?g ! parent ?p) \<le> expire (?g ! j)" if j: "0 < j" "j < length ?h" "parent j = ?p" "0 < ?p" for j
    using g [OF j(2)] g [of "parent ?p"] par(2) [OF j(4)] pp [OF j(4)] o [OF j(1,2)] j(3) p assms(3) par(2) [OF j(1,2)]
    by (auto split: if_splits)
  ultimately show ?thesis by (auto simp: up_ok_def hole_below_def)
qed

lemma heapify_up_heap:
  assumes "up_ok i (heap m)" "i < length (heap m)"
  shows "heap_ok (heap (heapify_up i m))"
  using assms
proof (induction i m rule: heapify_up.induct)
  case (1 i m)
  show ?case
  proof (cases "0 < i \<and> expire (heap m ! i) < expire (heap m ! parent i)")
    case True
    moreover have "parent i < length (heap m)" using "1.prems"(2) parent_less [of i] True by simp
    ultimately have "heap_ok (heap (heapify_up (parent i) (swap_nodes i (parent i) m)))"
      using "1.IH" up_ok_step "1.prems" by simp
    then show ?thesis using True by (subst heapify_up.simps) (simp add: Let_def)
  next
    case False
    then have "heap_ok (heap m)" using "1.prems" unfolding up_ok_def heap_ok_def by (metis leI)
    then show ?thesis using False by (subst heapify_up.simps) (auto simp: Let_def)
  qed
qed

lemma smallest_child_min:
  assumes "0 < j" "j < length h" "parent j = i"
  shows "expire (h ! smallest_child i h) \<le> expire (h ! j)"
proof -
  have "j = 2 * i + 1 \<or> j = 2 * i + 2" using assms(1,3) by (auto simp: parent_def)
  then show ?thesis using assms(2) by (auto simp: smallest_child_def Let_def)
qed

lemma smallest_child_cases:
  assumes "smallest_child i h \<noteq> i"
  shows "parent (smallest_child i h) = i" "expire (h ! smallest_child i h) < expire (h ! i)"
  using assms by (auto simp: smallest_child_def parent_def Let_def split: if_splits)

lemma down_ok_step:
  assumes "down_ok i (heap m)" "i < length (heap m)" "smallest_child i (heap m) = s" "s \<noteq> i"
  shows "down_ok s (heap (swap_nodes i s m))"
proof -
  let ?h = "heap m" and ?g = "heap (swap_nodes i s m)"
  have s: "i < s" "s < length ?h" "parent s = i" "expire (?h ! s) < expire (?h ! i)"
    using smallest_child_bounds [of i ?h] smallest_child_cases [of i ?h] assms(3,4) by auto
  have g: "?g ! j = (if j = i then ?h ! s else if j = s then ?h ! i else ?h ! j)" if "j < length ?h" for j
    using that s by (auto simp: swap_nodes_def Let_def nth_list_update)
  have o: "expire (?h ! parent j) \<le> expire (?h ! j)" if "0 < j" "j < length ?h" "parent j \<noteq> i" for j
    using assms(1) that by (simp add: down_ok_def)
  have b: "expire (?h ! parent i) \<le> expire (?h ! s)" if "0 < i"
    using assms(1) that s by (simp add: down_ok_def hole_below_def)
  have mn: "expire (?h ! s) \<le> expire (?h ! j)" if "0 < j" "j < length ?h" "parent j = i" for j
    using smallest_child_min [OF that] assms(3) by simp
  have par: "parent j < length ?h" "parent j < j" if "0 < j" "j < length ?h" for j
    using that parent_less [of j] by auto
  have "expire (?g ! parent j) \<le> expire (?g ! j)" if j: "0 < j" "j < length ?h" "parent j \<noteq> s" for j
    using g [OF j(2)] g [OF par(1) [OF j(1,2)]] o [OF j(1,2)] mn [OF j(1,2)] b s(3,4) j(1,3) par(2) [OF j(1,2)]
    by (auto split: if_splits)
  moreover have "expire (?g ! parent s) \<le> expire (?g ! j)" if j: "0 < j" "j < length ?h" "parent j = s" for j
    using g [OF j(2)] g [of i] o [OF j(1,2)] j(3) s par(2) [OF j(1,2)] by (auto split: if_splits)
  ultimately show ?thesis by (auto simp: down_ok_def hole_below_def)
qed

lemma heapify_down_heap:
  assumes "down_ok i (heap m)" "i < length (heap m)"
  shows "heap_ok (heap (heapify_down i m))"
  using assms
proof (induction i m rule: heapify_down.induct)
  case (1 i m)
  show ?case
  proof (cases "smallest_child i (heap m) = i")
    case True
    then have "expire (heap m ! i) \<le> expire (heap m ! j)" if "0 < j" "j < length (heap m)" "parent j = i" for j
      using smallest_child_min [OF that] by simp
    then have "heap_ok (heap m)" using "1.prems" unfolding down_ok_def heap_ok_def by metis
    then show ?thesis using True by (subst heapify_down.simps) (simp add: Let_def)
  next
    case False
    then have "heap_ok (heap (heapify_down (smallest_child i (heap m)) (swap_nodes i (smallest_child i (heap m)) m)))"
      using "1.IH" [OF refl False] down_ok_step [OF "1.prems" refl False] smallest_child_bounds [OF False] by simp
    then show ?thesis using False by (subst heapify_down.simps) (simp add: Let_def)
  qed
qed

lemma heap_root_min: "heap_ok h \<Longrightarrow> i < length h \<Longrightarrow> expire (h ! 0) \<le> expire (h ! i)"
proof (induction i rule: less_induct)
  case (less i)
  show ?case
  proof (cases "i = 0")
    case False
    then have "parent i < i" by (simp add: parent_less)
    then have "expire (h ! 0) \<le> expire (h ! parent i)" using less.IH less.prems by simp
    also have "\<dots> \<le> expire (h ! i)" using less.prems False by (simp add: heap_ok_def)
    finally show ?thesis .
  qed simp
qed

section \<open>A manager as a map from flows to timers\<close>

definition tm_ok :: "TimerManager \<Rightarrow> bool" where
  "tm_ok m \<longleftrightarrow> map_ok m \<and> heap_ok (heap m)"

definition timers :: "TimerManager \<Rightarrow> nat \<rightharpoonup> TimerNode" where
  "timers m f = map_option (\<lambda>i. heap m ! i) (flow_map m f)"

lemma timers_iff:
  assumes "map_ok m"
  shows "timers m f = Some n \<longleftrightarrow> n \<in> set (heap m) \<and> node_flow n = f"
proof
  assume "timers m f = Some n"
  then obtain i where i: "flow_map m f = Some i" "n = heap m ! i" by (auto simp: timers_def)
  then show "n \<in> set (heap m) \<and> node_flow n = f" using map_okD(2,3) [OF assms i(1)] by simp
next
  assume "n \<in> set (heap m) \<and> node_flow n = f"
  then obtain i where "i < length (heap m)" "n = heap m ! i" "node_flow n = f" by (auto simp: in_set_conv_nth)
  then show "timers m f = Some n" using map_okD(1) [OF assms, of i] by (simp add: timers_def)
qed

lemma timers_flow: "map_ok m \<Longrightarrow> timers m f = Some n \<Longrightarrow> node_flow n = f"
  by (simp add: timers_iff)

lemma timers_ran: "map_ok m \<Longrightarrow> ran (timers m) = set (heap m)"
  by (auto simp: ran_def timers_iff)

lemma timers_remove_ran:
  assumes "map_ok m" "r \<in> set (heap m)"
  shows "ran ((timers m)(node_flow r := None)) = set (heap m) - {r}"
proof -
  have "n \<in> ran ((timers m)(node_flow r := None)) \<longleftrightarrow> n \<in> set (heap m) \<and> node_flow n \<noteq> node_flow r" for n
    unfolding ran_def by (auto simp: timers_iff [OF assms(1)])
  moreover have "node_flow n = node_flow r \<longleftrightarrow> n = r" if "n \<in> set (heap m)" for n
    using that assms(2) timers_iff [OF assms(1), of "node_flow r" n] timers_iff [OF assms(1), of "node_flow r" r] by auto
  ultimately show ?thesis by auto
qed

lemma timers_cong:
  assumes "map_ok m" "map_ok m'" "mset (heap m') = mset (heap m)"
  shows "timers m' = timers m"
proof
  fix f
  have "timers m' f = Some n \<longleftrightarrow> timers m f = Some n" for n
    using assms mset_eq_setD [OF assms(3)] by (simp add: timers_iff)
  then show "timers m' f = timers m f" by (metis not_Some_eq)
qed

lemma adjust_ok:
  assumes "map_ok m" "hole_ok i (heap m)" "i < length (heap m)"
  shows "tm_ok (adjust_heap_node i m)" "timers (adjust_heap_node i m) = timers m"
    "timeout (adjust_heap_node i m) = timeout m"
proof -
  have below: "expire (heap m ! parent i) \<le> expire (heap m ! j)"
    if "0 < j" "j < length (heap m)" "parent j = i" "0 < i" for j
    using assms(2) that by (simp add: hole_ok_def hole_below_def)
  have other: "expire (heap m ! parent j) \<le> expire (heap m ! j)"
    if "0 < j" "j < length (heap m)" "j \<noteq> i" "parent j \<noteq> i" for j
    using assms(2) that by (simp add: hole_ok_def)
  have hb: "hole_below i (heap m)" using assms(2) by (simp add: hole_ok_def)
  have up: "up_ok i (heap m)" if a: "0 < i" "expire (heap m ! i) < expire (heap m ! parent i)"
  proof -
    have "expire (heap m ! parent j) \<le> expire (heap m ! j)" if "0 < j" "j < length (heap m)" "j \<noteq> i" for j
      using below [OF that(1,2)] other [OF that] a by (cases "parent j = i") simp_all
    then show ?thesis using hb by (simp add: up_ok_def)
  qed
  have down: "down_ok i (heap m)" if a: "\<not> (0 < i \<and> expire (heap m ! i) < expire (heap m ! parent i))"
  proof -
    have "expire (heap m ! parent j) \<le> expire (heap m ! j)" if "0 < j" "j < length (heap m)" "parent j \<noteq> i" for j
      using other [OF that(1,2)] that a by (cases "j = i") simp_all
    then show ?thesis using hb by (simp add: down_ok_def)
  qed
  note fr = heapify_up_frame [OF assms(1,3)] heapify_down_frame [OF assms(1,3)]
  show "tm_ok (adjust_heap_node i m)"
  proof (cases "0 < i \<and> expire (heap m ! i) < expire (heap m ! parent i)")
    case True
    then show ?thesis using heapify_up_heap [OF up assms(3)] fr by (simp add: adjust_heap_node_def tm_ok_def)
  next
    case False
    then show ?thesis unfolding adjust_heap_node_def if_not_P [OF False]
      using heapify_down_heap [OF down [OF False] assms(3)] fr by (simp add: tm_ok_def)
  qed
  show "timers (adjust_heap_node i m) = timers m" "timeout (adjust_heap_node i m) = timeout m"
    using fr timers_cong [OF assms(1)] by (auto simp: adjust_heap_node_def)
qed

lemma add_timer_ok:
  assumes "tm_ok m" "flow_map m (td_flow d) = None"
  shows "tm_ok (add_timer e d m)" "timers (add_timer e d m) = (timers m)(td_flow d \<mapsto> \<lparr>expire = e, node_data = d\<rparr>)"
    "timeout (add_timer e d m) = timeout m"
proof -
  define m2 where "m2 = m\<lparr>heap := heap m @ [\<lparr>expire = e, node_data = d\<rparr>],
    flow_map := (flow_map m)(td_flow d \<mapsto> length (heap m))\<rparr>"
  let ?i = "length (heap m)"
  have add: "add_timer e d m = heapify_up ?i m2" by (simp add: add_timer_def m2_def Let_def)
  have mo: "map_ok m" using assms(1) by (simp add: tm_ok_def)
  have ne: "node_flow (heap m ! i) \<noteq> td_flow d" if "i < ?i" for i
    using map_okD(1) [OF mo that] assms(2) by auto
  have ok: "map_ok m2"
  proof (rule map_okI)
    fix i assume "i < length (heap m2)"
    then show "flow_map m2 (node_flow (heap m2 ! i)) = Some i"
      using ne map_okD(1) [OF mo] by (auto simp: m2_def nth_append less_Suc_eq)
  next
    fix f i assume a: "flow_map m2 f = Some i"
    show "i < length (heap m2) \<and> node_flow (heap m2 ! i) = f"
    proof (cases "f = td_flow d")
      case True then show ?thesis using a by (auto simp: m2_def nth_append)
    next
      case False
      then have f: "flow_map m f = Some i" using a by (simp add: m2_def)
      show ?thesis using map_okD(2,3) [OF mo f] by (simp add: m2_def nth_append)
    qed
  qed
  have "up_ok ?i (heap m2)"
  proof -
    have len: "length (heap m2) = Suc ?i" by (simp add: m2_def)
    have "expire (heap m2 ! parent j) \<le> expire (heap m2 ! j)" if "0 < j" "j < ?i" for j
      using assms(1) that parent_less [of j] by (auto simp: tm_ok_def heap_ok_def m2_def nth_append)
    moreover have "parent j \<noteq> ?i" if "0 < j" "j < Suc ?i" for j using that parent_less [of j] by simp
    ultimately show ?thesis unfolding up_ok_def hole_below_def len less_Suc_eq by blast
  qed
  then have "heap_ok (heap (heapify_up ?i m2))" by (rule heapify_up_heap) (simp add: m2_def)
  moreover have "?i < length (heap m2)" by (simp add: m2_def)
  note fr = heapify_up_frame [OF ok this]
  ultimately show "tm_ok (add_timer e d m)" by (simp add: tm_ok_def add)
  have "timers m2 f = ((timers m)(td_flow d \<mapsto> \<lparr>expire = e, node_data = d\<rparr>)) f" for f
    using map_okD(2) [OF mo, of f] by (cases "flow_map m f") (auto simp: timers_def m2_def nth_append)
  then show "timers (add_timer e d m) = (timers m)(td_flow d \<mapsto> \<lparr>expire = e, node_data = d\<rparr>)"
    using fr timers_cong [OF ok] by (simp add: add fun_eq_iff)
  show "timeout (add_timer e d m) = timeout m" using fr by (simp add: add m2_def)
qed

lemma set_expire_ok:
  assumes "tm_ok m" "flow_map m f = Some i"
  shows "map_ok (set_expire i e m)" "hole_ok i (heap (set_expire i e m))"
    "timers (set_expire i e m) = (timers m)(f \<mapsto> (heap m ! i)\<lparr>expire := e\<rparr>)"
proof -
  have mo: "map_ok m" and ho: "heap_ok (heap m)" using assms(1) by (simp_all add: tm_ok_def)
  have i: "i < length (heap m)" "node_flow (heap m ! i) = f" using map_okD(2,3) [OF mo assms(2)] .
  have fl: "node_flow (heap (set_expire i e m) ! j) = node_flow (heap m ! j)" for j
    using i(1) by (cases "j = i") (simp_all add: set_expire_def)
  have fm: "flow_map (set_expire i e m) = flow_map m" "length (heap (set_expire i e m)) = length (heap m)"
    by (simp_all add: set_expire_def)
  show "map_ok (set_expire i e m)"
    using mo unfolding map_ok_def fl fm .
  have below: "expire (heap m ! parent i) \<le> expire (heap m ! j)"
    if j: "0 < j" "j < length (heap m)" "parent j = i" "0 < i" for j
  proof -
    have "expire (heap m ! parent i) \<le> expire (heap m ! i)" using ho i(1) j(4) by (simp add: heap_ok_def)
    also have "\<dots> \<le> expire (heap m ! j)" using ho j by (auto simp: heap_ok_def)
    finally show ?thesis .
  qed
  have other: "expire (heap m ! parent j) \<le> expire (heap m ! j)" if "0 < j" "j < length (heap m)" for j
    using ho that by (simp add: heap_ok_def)
  show "hole_ok i (heap (set_expire i e m))"
  proof -
    let ?g = "heap (set_expire i e m)"
    have nth: "?g ! j = heap m ! j" if "j \<noteq> i" for j using that by (simp add: set_expire_def)
    have "expire (?g ! parent i) \<le> expire (?g ! j)" if "0 < j" "j < length (heap m)" "parent j = i" "0 < i" for j
      using below [OF that] nth [of j] nth [of "parent i"] parent_less [of i] parent_less [of j] that by simp
    moreover have "expire (?g ! parent j) \<le> expire (?g ! j)"
      if "0 < j" "j < length (heap m)" "j \<noteq> i" "parent j \<noteq> i" for j
      using other [OF that(1,2)] nth [OF that(3)] nth [OF that(4)] by simp
    ultimately show ?thesis by (simp add: hole_ok_def hole_below_def fm)
  qed
  show "timers (set_expire i e m) = (timers m)(f \<mapsto> (heap m ! i)\<lparr>expire := e\<rparr>)"
  proof
    fix g
    show "timers (set_expire i e m) g = ((timers m)(f \<mapsto> (heap m ! i)\<lparr>expire := e\<rparr>)) g"
      using i assms(2) map_okD(3) [OF mo, of g]
      by (cases "flow_map m g") (auto simp: timers_def fm set_expire_def nth_list_update)
  qed
qed

text \<open>The removal of node \<open>i\<close>, before the order is restored.\<close>

definition remove_at :: "nat \<Rightarrow> TimerManager \<Rightarrow> TimerManager" where
  "remove_at i m =
     (let l = last (heap m); fm = (flow_map m)(node_flow (heap m ! i) := None)
      in m\<lparr>flow_map := (if i = length (heap m) - 1 then fm else fm(node_flow l \<mapsto> i)),
           heap := butlast ((heap m)[i := l])\<rparr>)"

lemma remove_at_heap:
  assumes "i < length (heap m)"
  shows "length (heap (remove_at i m)) = length (heap m) - 1"
    and "j < length (heap m) - 1 \<Longrightarrow>
      heap (remove_at i m) ! j = (if j = i then heap m ! (length (heap m) - 1) else heap m ! j)"
    and "timeout (remove_at i m) = timeout m"
proof -
  have "heap m \<noteq> []" using assms by auto
  then show "length (heap (remove_at i m)) = length (heap m) - 1"
    "j < length (heap m) - 1 \<Longrightarrow>
      heap (remove_at i m) ! j = (if j = i then heap m ! (length (heap m) - 1) else heap m ! j)"
    "timeout (remove_at i m) = timeout m"
    by (simp_all add: remove_at_def Let_def nth_butlast nth_list_update last_conv_nth)
qed

lemma remove_at_map:
  assumes "map_ok m" "i < length (heap m)"
  shows "map_ok (remove_at i m)" "timers (remove_at i m) = (timers m)(node_flow (heap m ! i) := None)"
proof -
  let ?h = "heap m" and ?n = "length (heap m) - 1" and ?r = "remove_at i m"
  note inj = map_ok_inj [OF assms(1)] and hp = remove_at_heap [OF assms(2)]
  have "?h \<noteq> []" using assms(2) by auto
  then have l: "last ?h = ?h ! ?n" "?n < length ?h" by (simp_all add: last_conv_nth)
  have fm: "flow_map ?r f = (if i \<noteq> ?n \<and> f = node_flow (?h ! ?n) then Some i
      else if f = node_flow (?h ! i) then None else flow_map m f)" for f
    by (simp add: remove_at_def Let_def l(1))
  have old: "k < ?n \<and> k \<noteq> i" if f: "flow_map m f = Some k" "f \<noteq> node_flow (?h ! i)"
    "i = ?n \<or> f \<noteq> node_flow (?h ! ?n)" for f k
  proof -
    have k: "k < length ?h" "node_flow (?h ! k) = f" using map_okD(2,3) [OF assms(1) f(1)] .
    then have "k \<noteq> i" "k \<noteq> ?n" using f(2,3) by auto
    then show ?thesis using k(1) by auto
  qed
  show "map_ok ?r"
  proof (rule map_okI)
    fix j assume "j < length (heap ?r)"
    then have j: "j < ?n" by (simp add: hp(1))
    then show "flow_map ?r (node_flow (heap ?r ! j)) = Some j"
      using assms(2) l(2) map_okD(1) [OF assms(1), of j] by (auto simp: fm hp(2) [OF j] inj)
  next
    fix f k assume a: "flow_map ?r f = Some k"
    show "k < length (heap ?r) \<and> node_flow (heap ?r ! k) = f"
    proof (cases "i \<noteq> ?n \<and> f = node_flow (?h ! ?n)")
      case True
      then have "k = i" "i < ?n" using a assms(2) by (auto simp: fm)
      then show ?thesis using True by (simp add: hp(1) hp(2) [of i])
    next
      case False
      then have b: "flow_map m f = Some k" "f \<noteq> node_flow (?h ! i)" using a by (auto simp: fm split: if_splits)
      then have "k < ?n \<and> k \<noteq> i" using old False by auto
      then show ?thesis using map_okD(3) [OF assms(1) b(1)] by (simp add: hp(1) hp(2) [of k])
    qed
  qed
  have "timers ?r f = ((timers m)(node_flow (?h ! i) := None)) f" for f
  proof (cases "i \<noteq> ?n \<and> f = node_flow (?h ! ?n)")
    case True
    then have "i < ?n" using assms(2) by auto
    then have "timers ?r f = Some (?h ! ?n)" using True by (simp add: timers_def fm hp(2) [of i])
    moreover have "timers m f = Some (?h ! ?n)" using True map_okD(1) [OF assms(1) l(2)] by (simp add: timers_def)
    ultimately show ?thesis using True inj [OF l(2) assms(2)] by auto
  next
    case False
    then have fm': "flow_map ?r f = (if f = node_flow (?h ! i) then None else flow_map m f)" by (auto simp: fm)
    then show ?thesis using old [of f] False hp(2)
      by (cases "flow_map m f") (auto simp: timers_def)
  qed
  then show "timers ?r = (timers m)(node_flow (?h ! i) := None)" by (rule ext)
qed

lemma remove_at_hole:
  assumes "heap_ok (heap m)" "i < length (heap m)"
  shows "hole_ok i (heap (remove_at i m))" "i = length (heap m) - 1 \<Longrightarrow> heap_ok (heap (remove_at i m))"
proof -
  let ?h = "heap m" and ?n = "length (heap m) - 1" and ?g = "heap (remove_at i m)"
  note hp = remove_at_heap [OF assms(2)]
  have ord: "expire (?h ! parent j) \<le> expire (?h ! j)" if "0 < j" "j < length ?h" for j
    using assms(1) that by (simp add: heap_ok_def)
  have other: "expire (?g ! parent j) \<le> expire (?g ! j)" if "0 < j" "j < ?n" "j \<noteq> i" "parent j \<noteq> i" for j
    using ord [of j] that parent_less [of j] hp(2) [of j] hp(2) [of "parent j"] by simp
  moreover have "expire (?g ! parent i) \<le> expire (?g ! j)" if "0 < j" "j < ?n" "parent j = i" "0 < i" for j
  proof -
    have "expire (?h ! parent i) \<le> expire (?h ! i)" using ord [of i] that assms(2) by simp
    also have "\<dots> \<le> expire (?h ! j)" using ord [of j] that by simp
    finally show ?thesis
      using that parent_less [of j] parent_less [of i] hp(2) [of j] hp(2) [of "parent i"] by simp
  qed
  ultimately show "hole_ok i ?g" by (simp add: hole_ok_def hole_below_def hp(1))
  assume i: "i = ?n"
  have "expire (?g ! parent j) \<le> expire (?g ! j)" if "0 < j" "j < ?n" for j
    using other [OF that] that i parent_less [of j] by simp
  then show "heap_ok ?g" by (simp add: heap_ok_def hp(1))
qed

lemma disarm_timer_ok:
  assumes "tm_ok m"
  shows "tm_ok (disarm_timer d m)" "timers (disarm_timer d m) = (timers m)(td_flow d := None)"
    "timeout (disarm_timer d m) = timeout m"
proof -
  have mo: "map_ok m" and ho: "heap_ok (heap m)" using assms by (simp_all add: tm_ok_def)
  have "tm_ok (disarm_timer d m) \<and> timers (disarm_timer d m) = (timers m)(td_flow d := None) \<and>
    timeout (disarm_timer d m) = timeout m"
  proof (cases "flow_map m (td_flow d)")
    case None
    then have "timers m (td_flow d) = None" by (simp add: timers_def)
    then show ?thesis using None assms by (simp add: disarm_timer_def fun_upd_idem)
  next
    case (Some i)
    have i: "i < length (heap m)" "node_flow (heap m ! i) = td_flow d" using map_okD(2,3) [OF mo Some] .
    note r = remove_at_map [OF mo i(1)] remove_at_hole [OF ho i(1)] remove_at_heap [OF i(1)]
    show ?thesis
    proof (cases "i = length (heap m) - 1")
      case True
      then have "heap m \<noteq> []" using i(1) by auto
      then have "disarm_timer d m = remove_at i m"
        using Some True i(2) by (simp add: disarm_timer_def remove_at_def Let_def last_conv_nth)
      then show ?thesis using r True i(2) by (simp add: tm_ok_def)
    next
      case False
      then have "disarm_timer d m = adjust_heap_node i (remove_at i m)"
        using Some i by (simp add: disarm_timer_def remove_at_def Let_def)
      moreover have "i < length (heap (remove_at i m))" using False i(1) r(5) by simp
      ultimately show ?thesis using adjust_ok [OF r(1,3)] r(2,7) i(2) by simp
    qed
  qed
  then show "tm_ok (disarm_timer d m)" "timers (disarm_timer d m) = (timers m)(td_flow d := None)"
    "timeout (disarm_timer d m) = timeout m" by auto
qed

lemma pop_root_ok:
  assumes "tm_ok m" "heap m \<noteq> []"
  shows "tm_ok (pop_root m)" "timers (pop_root m) = (timers m)(node_flow (heap m ! 0) := None)"
    "timeout (pop_root m) = timeout m"
proof -
  have mo: "map_ok m" and ho: "heap_ok (heap m)" using assms by (simp_all add: tm_ok_def)
  have z: "0 < length (heap m)" using assms(2) by simp
  note r = remove_at_map [OF mo z] remove_at_hole [OF ho z] remove_at_heap [OF z]
  have "tm_ok (pop_root m) \<and> timers (pop_root m) = (timers m)(node_flow (heap m ! 0) := None) \<and>
    timeout (pop_root m) = timeout m"
  proof (cases "length (heap m) > 1")
    case True
    then have "butlast ((heap m)[0 := last (heap m)]) \<noteq> []" by (simp flip: length_greater_0_conv)
    then have eq: "pop_root m = heapify_down 0 (remove_at 0 m)"
      using True z by (simp add: pop_root_def remove_at_def Let_def)
    have l: "0 < length (heap (remove_at 0 m))" using True by (simp add: r(5))
    have "parent j \<noteq> 0 \<Longrightarrow> j \<noteq> 0" for j by (auto simp: parent_def)
    then have "down_ok 0 (heap (remove_at 0 m))" using r(3) by (simp add: hole_ok_def down_ok_def)
    note h = heapify_down_heap [OF this l] heapify_down_frame [OF r(1) l]
    show ?thesis using h r(2,7) timers_cong [OF r(1)] by (simp add: eq tm_ok_def)
  next
    case False
    then have one: "length (heap m) = 1" using z by linarith
    then have "pop_root m = remove_at 0 m"
      by (cases "heap m") (simp_all add: pop_root_def remove_at_def Let_def)
    then show ?thesis using r one by (simp add: tm_ok_def)
  qed
  then show "tm_ok (pop_root m)" "timers (pop_root m) = (timers m)(node_flow (heap m ! 0) := None)"
    "timeout (pop_root m) = timeout m" by auto
qed

section \<open>Specification\<close>

datatype timer_op =
  Arm nat TimerData
| ArmUs nat nat TimerData
| Rearm nat TimerData
| RearmUs nat nat TimerData
| Disarm TimerData
| CheckExpired nat

fun timer_step :: "timer_op \<Rightarrow> TimerManager \<Rightarrow> TimerData list \<times> TimerManager" where
  "timer_step (Arm now d) m = ([], arm_timer now d m)"
| "timer_step (ArmUs cycles now d) m = ([], arm_timer_us cycles now d m)"
| "timer_step (Rearm now d) m = ([], rearm_timer now d m)"
| "timer_step (RearmUs cycles now d) m = ([], rearm_timer_us cycles now d m)"
| "timer_step (Disarm d) m = ([], disarm_timer d m)"
| "timer_step (CheckExpired now) m = check_expired now m"

definition spec_arm :: "nat \<Rightarrow> TimerData \<Rightarrow> (nat \<rightharpoonup> TimerNode) \<Rightarrow> nat \<rightharpoonup> TimerNode" where
  "spec_arm e d s = (case s (td_flow d) of Some _ \<Rightarrow> s | None \<Rightarrow> s(td_flow d \<mapsto> \<lparr>expire = e, node_data = d\<rparr>))"

definition spec_rearm :: "nat \<Rightarrow> TimerData \<Rightarrow> (nat \<rightharpoonup> TimerNode) \<Rightarrow> nat \<rightharpoonup> TimerNode" where
  "spec_rearm e d s =
     (case s (td_flow d) of
        Some n \<Rightarrow> s(td_flow d \<mapsto> n\<lparr>expire := e\<rparr>)
      | None \<Rightarrow> s(td_flow d \<mapsto> \<lparr>expire = e, node_data = d\<rparr>))"

definition spec_expired :: "nat \<Rightarrow> (nat \<rightharpoonup> TimerNode) \<Rightarrow> TimerData list \<Rightarrow> (nat \<rightharpoonup> TimerNode) \<Rightarrow> bool" where
  "spec_expired now s ds s' \<longleftrightarrow>
     (\<exists>ns. ds = map node_data ns \<and> sorted (map expire ns) \<and> distinct (map node_flow ns) \<and>
           set ns = {n \<in> ran s. expire n \<le> now}) \<and>
     s' = (\<lambda>f. case s f of None \<Rightarrow> None | Some n \<Rightarrow> if expire n \<le> now then None else Some n)"

text \<open>The first argument is the default timeout of the manager.\<close>

fun timer_spec :: "nat \<Rightarrow> timer_op \<Rightarrow> (nat \<rightharpoonup> TimerNode) \<Rightarrow> TimerData list \<Rightarrow> (nat \<rightharpoonup> TimerNode) \<Rightarrow> bool" where
  "timer_spec c (Arm now d) s ds s' \<longleftrightarrow> ds = [] \<and> s' = spec_arm (u64_wrap (now + c)) d s"
| "timer_spec c (ArmUs cycles now d) s ds s' \<longleftrightarrow> ds = [] \<and> s' = spec_arm (u64_wrap (now + cycles)) d s"
| "timer_spec c (Rearm now d) s ds s' \<longleftrightarrow> ds = [] \<and> s' = spec_rearm (u64_wrap (now + c)) d s"
| "timer_spec c (RearmUs cycles now d) s ds s' \<longleftrightarrow> ds = [] \<and> s' = spec_rearm (u64_wrap (now + cycles)) d s"
| "timer_spec c (Disarm d) s ds s' \<longleftrightarrow> ds = [] \<and> s' = s(td_flow d := None)"
| "timer_spec c (CheckExpired now) s ds s' \<longleftrightarrow> spec_expired now s ds s'"

lemma check_expired_ok:
  assumes "tm_ok m"
  shows "tm_ok (snd (check_expired now m)) \<and> timeout (snd (check_expired now m)) = timeout m \<and>
    spec_expired now (timers m) (fst (check_expired now m)) (timers (snd (check_expired now m)))"
  using assms
proof (induction now m rule: check_expired.induct)
  case (1 now m)
  have mo: "map_ok m" and ho: "heap_ok (heap m)" using "1.prems" by (simp_all add: tm_ok_def)
  have in_heap: "n \<in> set (heap m)" if "timers m f = Some n" for f n using that timers_iff [OF mo] by simp
  show ?case
  proof (cases "heap m \<noteq> [] \<and> expire (heap m ! 0) \<le> now")
    case False
    have "now < expire n" if n: "n \<in> set (heap m)" for n
    proof -
      obtain i where i: "i < length (heap m)" "n = heap m ! i" using n by (auto simp: in_set_conv_nth)
      then show ?thesis using heap_root_min [OF ho i(1)] False by (auto simp: not_le)
    qed
    then have late: "now < expire n" if "timers m f = Some n" for f n using in_heap that by blast
    then have "{n \<in> ran (timers m). expire n \<le> now} = {}" by (auto simp: ran_def dest: late)
    moreover have "(\<lambda>f. case timers m f of None \<Rightarrow> None | Some n \<Rightarrow> if expire n \<le> now then None else Some n) = timers m"
      by (auto simp: fun_eq_iff split: option.split dest: late)
    ultimately have "spec_expired now (timers m) [] (timers m)" by (auto simp: spec_expired_def)
    moreover have "check_expired now m = ([], m)" using False by (subst check_expired.simps) (simp only: if_False)
    ultimately show ?thesis using "1.prems" by simp
  next
    case True
    let ?r = "heap m ! 0" and ?m = "pop_root m"
    have pop: "tm_ok ?m" "timers ?m = (timers m)(node_flow ?r := None)" "timeout ?m = timeout m"
      using pop_root_ok [OF "1.prems"] True by blast+
    have rt: "timers m (node_flow ?r) = Some ?r" using True by (simp add: timers_iff [OF mo])
    have rh: "?r \<in> set (heap m)" using True by simp
    have rn: "ran (timers ?m) = set (heap m) - {?r}" unfolding pop(2) by (rule timers_remove_ran [OF mo rh])
    from "1.IH" [OF True pop(1)] obtain ns where ns: "fst (check_expired now ?m) = map node_data ns"
      "sorted (map expire ns)" "distinct (map node_flow ns)" "set ns = {n \<in> ran (timers ?m). expire n \<le> now}"
      by (auto simp: spec_expired_def)
    have after: "timers (snd (check_expired now ?m)) =
        (\<lambda>f. case timers ?m f of None \<Rightarrow> None | Some n \<Rightarrow> if expire n \<le> now then None else Some n)"
      "tm_ok (snd (check_expired now ?m))" "timeout (snd (check_expired now ?m)) = timeout m"
      using "1.IH" [OF True pop(1)] pop(3) by (auto simp: spec_expired_def)
    have ce: "check_expired now m = (node_data ?r # fst (check_expired now ?m), snd (check_expired now ?m))"
      using True by (subst check_expired.simps) (simp add: case_prod_beta)
    have mem: "node_flow n \<noteq> node_flow ?r" if n: "n \<in> set (heap m) - {?r}" for n
      using n rt timers_iff [OF mo, of "node_flow n" n] by auto
    have "expire ?r \<le> expire n" if "n \<in> set (heap m)" for n
      using that heap_root_min [OF ho] by (auto simp: in_set_conv_nth)
    then have "sorted (map expire (?r # ns))" using ns(2) by (simp add: ns(4) rn)
    moreover have "node_flow ?r \<notin> node_flow ` set ns"
    proof
      assume "node_flow ?r \<in> node_flow ` set ns"
      then obtain n where "n \<in> set ns" "node_flow ?r = node_flow n" by blast
      then show False using mem [of n] by (simp add: ns(4) rn)
    qed
    then have "distinct (map node_flow (?r # ns))" using ns(3) by simp
    moreover have "set (?r # ns) = {n \<in> ran (timers m). expire n \<le> now}"
      unfolding list.set ns(4) rn timers_ran [OF mo] using rh True by blast
    moreover have "(\<lambda>f. case timers m f of None \<Rightarrow> None | Some n \<Rightarrow> if expire n \<le> now then None else Some n) =
        timers (snd (check_expired now ?m))"
      unfolding after(1) pop(2) using rt True by (simp add: fun_eq_iff)
    ultimately have "spec_expired now (timers m) (map node_data (?r # ns)) (timers (snd (check_expired now ?m)))"
      unfolding spec_expired_def by (intro conjI exI [of _ "?r # ns"]) auto
    then show ?thesis using after(2,3) ns(1) by (simp add: ce)
  qed
qed

lemma timer_step_ok:
  assumes "tm_ok m"
  shows "tm_ok (snd (timer_step op m)) \<and> timeout (snd (timer_step op m)) = timeout m \<and>
    timer_spec (timeout m) op (timers m) (fst (timer_step op m)) (timers (snd (timer_step op m)))"
proof -
  have none: "timers m f = None \<longleftrightarrow> flow_map m f = None" for f by (simp add: timers_def)
  have arm: "tm_ok (if_armed) \<and> timeout if_armed = timeout m \<and> timers if_armed = spec_arm e d (timers m)"
    if "if_armed = (case flow_map m (td_flow d) of Some _ \<Rightarrow> m | None \<Rightarrow> add_timer e d m)" for e d if_armed
    using that assms add_timer_ok [OF assms, of d e]
    by (cases "flow_map m (td_flow d)") (simp_all add: spec_arm_def timers_def)
  have rearm: "tm_ok re \<and> timeout re = timeout m \<and> timers re = spec_rearm e d (timers m)"
    if "re = (case flow_map m (td_flow d) of Some i \<Rightarrow> adjust_heap_node i (set_expire i e m) | None \<Rightarrow> add_timer e d m)"
    for e d re
  proof (cases "flow_map m (td_flow d)")
    case None
    then show ?thesis using that add_timer_ok [OF assms None, of e] by (simp add: spec_rearm_def timers_def)
  next
    case (Some i)
    note se = set_expire_ok [OF assms Some, of e]
    have "i < length (heap (set_expire i e m))"
      using assms map_okD(2) [OF _ Some] by (simp add: tm_ok_def set_expire_def)
    note adj = adjust_ok [OF se(1,2) this]
    have "timeout (set_expire i e m) = timeout m" by (simp add: set_expire_def)
    then show ?thesis using that Some adj se(3) by (simp add: spec_rearm_def timers_def)
  qed
  show ?thesis
    by (cases op)
      (simp_all add: arm_timer_def arm_timer_us_def rearm_timer_def rearm_timer_us_def Let_def
        arm [OF refl] rearm [OF refl] disarm_timer_ok [OF assms] check_expired_ok [OF assms])
qed

section \<open>The timer service that a sender relies on\<close>

locale timer_service =
  fixes invar :: "'m \<Rightarrow> bool"
    and armed :: "'m \<Rightarrow> nat set"
    and arm :: "nat \<Rightarrow> TimerData \<Rightarrow> 'm \<Rightarrow> 'm"
    and rearm :: "nat \<Rightarrow> TimerData \<Rightarrow> 'm \<Rightarrow> 'm"
    and disarm :: "TimerData \<Rightarrow> 'm \<Rightarrow> 'm"
    and expired :: "nat \<Rightarrow> 'm \<Rightarrow> TimerData list \<times> 'm"
  assumes arm_ok: "invar m \<Longrightarrow> invar (arm now d m) \<and> armed (arm now d m) = insert (td_flow d) (armed m)"
    and rearm_ok: "invar m \<Longrightarrow> invar (rearm now d m) \<and> armed (rearm now d m) = insert (td_flow d) (armed m)"
    and disarm_ok: "invar m \<Longrightarrow> invar (disarm d m) \<and> armed (disarm d m) = armed m - {td_flow d}"
    and expired_ok: "invar m \<Longrightarrow> invar (snd (expired now m)) \<and>
      set (map td_flow (fst (expired now m))) \<subseteq> armed m \<and> distinct (map td_flow (fst (expired now m))) \<and>
      armed (snd (expired now m)) = armed m - set (map td_flow (fst (expired now m)))"
begin

text \<open>
  A client that keeps a flag per flow: \<open>consistent X flag m\<close> says that the flags and the armed timers
  agree but for the flows \<open>X\<close>, whose timers have fired and whose flags are not cleared yet.
\<close>

definition consistent :: "nat set \<Rightarrow> (nat \<Rightarrow> bool) \<Rightarrow> 'm \<Rightarrow> bool" where
  "consistent X flag m \<longleftrightarrow> invar m \<and> (\<forall>f. f \<notin> X \<longrightarrow> (flag f \<longleftrightarrow> f \<in> armed m)) \<and> X \<inter> armed m = {}"

lemma consistent_arm:
  assumes "consistent X flag m" "td_flow d \<notin> X"
  shows "consistent X (flag(td_flow d := True)) (arm now d m)" "consistent X (flag(td_flow d := True)) (rearm now d m)"
  using assms arm_ok [of m now d] rearm_ok [of m now d] by (auto simp: consistent_def)

lemma consistent_disarm:
  assumes "consistent X flag m" "td_flow d \<notin> X"
  shows "consistent X (flag(td_flow d := False)) (disarm d m)"
  using assms disarm_ok [of m d] by (auto simp: consistent_def)

lemma consistent_expired:
  assumes "consistent {} flag m"
  shows "consistent (set (map td_flow (fst (expired now m)))) flag (snd (expired now m))"
  using assms expired_ok [of m now] by (auto simp: consistent_def)

lemma consistent_mark:
  assumes "consistent X flag m"
  shows "consistent (X - {f}) (flag(f := False)) m \<longleftrightarrow> f \<notin> armed m"
  using assms by (auto simp: consistent_def)

end

lemma dom_spec_arm: "dom (spec_arm e d s) = insert (td_flow d) (dom s)" "dom (spec_rearm e d s) = insert (td_flow d) (dom s)"
  by (auto simp: spec_arm_def spec_rearm_def split: option.splits)

lemma timers_spec_expired:
  assumes "map_ok m" "spec_expired now (timers m) ds s"
  shows "set (map td_flow ds) \<subseteq> dom (timers m)" "distinct (map td_flow ds)"
    "dom s = dom (timers m) - set (map td_flow ds)"
proof -
  obtain ns where ns: "ds = map node_data ns" "distinct (map node_flow ns)" "set ns = {n \<in> ran (timers m). expire n \<le> now}"
    and s: "s = (\<lambda>f. case timers m f of None \<Rightarrow> None | Some n \<Rightarrow> if expire n \<le> now then None else Some n)"
    using assms(2) by (auto simp: spec_expired_def)
  have flow: "timers m (node_flow n) = Some n" if n: "n \<in> ran (timers m)" for n
  proof -
    obtain f where "timers m f = Some n" using n by (auto simp: ran_def)
    then show ?thesis using timers_flow [OF assms(1)] by blast
  qed
  have fl: "f \<in> set (map td_flow ds) \<longleftrightarrow> (\<exists>n. timers m f = Some n \<and> expire n \<le> now)" for f
  proof
    assume "f \<in> set (map td_flow ds)"
    then obtain n where "n \<in> set ns" "f = node_flow n" by (auto simp: ns(1))
    then show "\<exists>n. timers m f = Some n \<and> expire n \<le> now" using flow [of n] ns(3) by auto
  next
    assume "\<exists>n. timers m f = Some n \<and> expire n \<le> now"
    then obtain n where n: "timers m f = Some n" "expire n \<le> now" by blast
    then have "n \<in> set ns" using ns(3) by (auto simp: ran_def)
    then show "f \<in> set (map td_flow ds)" using timers_flow [OF assms(1) n(1)] by (auto simp: ns(1))
  qed
  show "set (map td_flow ds) \<subseteq> dom (timers m)" using fl by blast
  show "distinct (map td_flow ds)" using ns(1,2) by (simp add: o_def)
  have "f \<in> dom s \<longleftrightarrow> f \<in> dom (timers m) - set (map td_flow ds)" for f
    using fl [of f] by (cases "timers m f") (auto simp: s dom_def)
  then show "dom s = dom (timers m) - set (map td_flow ds)" by blast
qed

interpretation tms: timer_service tm_ok "\<lambda>m. dom (timers m)" arm_timer rearm_timer disarm_timer check_expired
proof
  fix m :: TimerManager and now :: nat and d :: TimerData
  assume ok: "tm_ok m"
  show "tm_ok (arm_timer now d m) \<and> dom (timers (arm_timer now d m)) = insert (td_flow d) (dom (timers m))"
    using timer_step_ok [OF ok, of "Arm now d"] by (simp add: dom_spec_arm)
  show "tm_ok (rearm_timer now d m) \<and> dom (timers (rearm_timer now d m)) = insert (td_flow d) (dom (timers m))"
    using timer_step_ok [OF ok, of "Rearm now d"] by (simp add: dom_spec_arm)
  show "tm_ok (disarm_timer d m) \<and> dom (timers (disarm_timer d m)) = dom (timers m) - {td_flow d}"
    using disarm_timer_ok [OF ok, of d] by simp
  have "map_ok m" using ok by (simp add: tm_ok_def)
  then show "tm_ok (snd (check_expired now m)) \<and>
      set (map td_flow (fst (check_expired now m))) \<subseteq> dom (timers m) \<and>
      distinct (map td_flow (fst (check_expired now m))) \<and>
      dom (timers (snd (check_expired now m))) = dom (timers m) - set (map td_flow (fst (check_expired now m)))"
    using check_expired_ok [OF ok, of now] timers_spec_expired by blast
qed

section \<open>Histories\<close>

fun timer_run :: "timer_op list \<Rightarrow> TimerManager \<Rightarrow> TimerData list list \<times> TimerManager" where
  "timer_run [] m = ([], m)"
| "timer_run (op # ops) m =
     (let (ds, m1) = timer_step op m; (dss, m2) = timer_run ops m1 in (ds # dss, m2))"

fun timer_spec_run ::
  "nat \<Rightarrow> timer_op list \<Rightarrow> (nat \<rightharpoonup> TimerNode) \<Rightarrow> TimerData list list \<Rightarrow> (nat \<rightharpoonup> TimerNode) \<Rightarrow> bool" where
  "timer_spec_run c [] s dss s' \<longleftrightarrow> dss = [] \<and> s' = s"
| "timer_spec_run c (op # ops) s dss s' \<longleftrightarrow>
     (\<exists>ds s1 dss1. dss = ds # dss1 \<and> timer_spec c op s ds s1 \<and> timer_spec_run c ops s1 dss1 s')"

lemma timer_run_refines:
  "tm_ok m \<Longrightarrow> tm_ok (snd (timer_run ops m)) \<and>
    timer_spec_run (timeout m) ops (timers m) (fst (timer_run ops m)) (timers (snd (timer_run ops m)))"
proof (induction ops arbitrary: m)
  case (Cons op ops)
  note st = timer_step_ok [OF Cons.prems, of op]
  from Cons.IH [of "snd (timer_step op m)"] st show ?case
    by (auto simp: case_prod_beta)
qed simp

lemma TimerManager_new_ok: "tm_ok (TimerManager_new c)" "timers (TimerManager_new c) = Map.empty"
  "timeout (TimerManager_new c) = c"
  by (simp_all add: TimerManager_new_def tm_ok_def map_ok_def heap_ok_def timers_def fun_eq_iff)

text \<open>
  C14: a timer manager behaves as a map from flows to timers, over every history of calls: arming
  an armed flow changes nothing, re-arming moves its expiration (and arms an unarmed flow),
  disarming removes it, and \<open>check_expired\<close> returns exactly the timers due, each once and in the
  order of expiration, and keeps the others.
\<close>

theorem timer_history_refines:
  "timer_spec_run c ops Map.empty (fst (timer_run ops (TimerManager_new c)))
     (timers (snd (timer_run ops (TimerManager_new c))))"
  using timer_run_refines [OF TimerManager_new_ok(1), where c1 = c and ops = ops]
  by (simp add: TimerManager_new_ok)

end
