(* ===== verification/TimingWheel.thy ===== *)
theory TimingWheel
  imports CircularBuffer "HOL-Library.Multiset"
begin

text \<open>
  The pacing wheel of \<open>collective/rdma/timing_wheel.h\<close>: slots of fixed width in a ring, each a chain of
  buckets of five entries, the chained buckets taken from a pool. A chain is the list of its buckets,
  the first of them embedded in the slot; a bucket holds the list of its valid entries. Entries are
  addresses of work requests. The 61-bit field of a slot's time wraps around; the sum of the
  previous transmission time and the pacing gap, a floating-point expression, is an argument of
  \<open>queue_on_timing_wheel\<close>.

  \<open>None\<close> stands for a loop that does not end, \<open>Some None\<close> for a failed \<open>UCCL_CHECK\<close>. The lemmas show
  that the loop of \<open>reap\<close> ends, that buckets are neither lost nor shared, and that chunks leave the
  wheel in the order they were queued, never before their time and at most one slot late.
\<close>

section \<open>State and operations\<close>

definition kWheelBucketCap :: nat where
  "kWheelBucketCap = 5"

definition kBypassTimingWheelThres :: nat where
  "kBypassTimingWheelThres = 9000"

record wheel_bkt =
  bkt_addr :: nat
  bkt_entries :: "nat list"

record wslot =
  tx_tsc :: nat
  bkts :: "wheel_bkt list"

record TimingWheel =
  wslot_width_tsc :: nat
  horizon_tsc :: nat
  wheel :: "wslot list"
  cur_wslot :: nat
  bkt_pool :: "nat CircularBuffer"
  ready_entries :: nat
  ready_queue :: "nat list"

definition tsc_wrap :: "nat \<Rightarrow> nat" where
  "tsc_wrap n = n mod 2 ^ 61"

definition reset_bkt :: "wheel_bkt \<Rightarrow> wheel_bkt" where
  "reset_bkt b = b\<lparr>bkt_entries := []\<rparr>"

fun fill_pool :: "nat list \<Rightarrow> nat CircularBuffer \<Rightarrow> nat CircularBuffer option" where
  "fill_pool [] p = Some p"
| "fill_pool (a # as) p =
     (case cb_push_front a p of (ok, p') \<Rightarrow> if ok then fill_pool as p' else None)"

text \<open>Addresses below \<open>num_wslots * kWheelBucketCap\<close> are the buckets of the pool, the rest those in the slots.\<close>

definition TimingWheel_new :: "nat \<Rightarrow> nat \<Rightarrow> nat \<Rightarrow> nat \<Rightarrow> TimingWheel option" where
  "TimingWheel_new width horizon num_wslots base_tsc =
     (let kBktPoolSize = num_wslots * kWheelBucketCap
      in case fill_pool [0..<kBktPoolSize] (cb_new 0 kBktPoolSize) of
           None \<Rightarrow> None
         | Some p \<Rightarrow>
             Some \<lparr>wslot_width_tsc = width, horizon_tsc = horizon,
               wheel = map (\<lambda>ws_i. \<lparr>tx_tsc = tsc_wrap (base_tsc + (ws_i + 1) * width),
                                    bkts = [\<lparr>bkt_addr = kBktPoolSize + ws_i, bkt_entries = []\<rparr>]\<rparr>) [0..<num_wslots],
               cur_wslot = 0, bkt_pool = p, ready_entries = 0, ready_queue = []\<rparr>)"

definition alloc_bkt :: "TimingWheel \<Rightarrow> (wheel_bkt \<times> TimingWheel) option" where
  "alloc_bkt w =
     (case cb_pop_front (bkt_pool w) of
        (None, _) \<Rightarrow> None
      | (Some a, p) \<Rightarrow> Some (\<lparr>bkt_addr = a, bkt_entries = []\<rparr>, w\<lparr>bkt_pool := p\<rparr>))"

definition upd_slot :: "nat \<Rightarrow> (wslot \<Rightarrow> wslot) \<Rightarrow> TimingWheel \<Rightarrow> TimingWheel" where
  "upd_slot ws_i g w = w\<lparr>wheel := (wheel w)[ws_i := g (wheel w ! ws_i)]\<rparr>"

definition insert_into_wslot :: "nat \<Rightarrow> nat \<Rightarrow> TimingWheel \<Rightarrow> TimingWheel option" where
  "insert_into_wslot ws_i ent w =
     (let bs = bkts (wheel w ! ws_i);
          last_bkt = last bs;
          last_bkt' = last_bkt\<lparr>bkt_entries := bkt_entries last_bkt @ [ent]\<rparr>;
          w1 = upd_slot ws_i (\<lambda>s. s\<lparr>bkts := butlast bs @ [last_bkt']\<rparr>) w
      in if length (bkt_entries last_bkt') = kWheelBucketCap
         then (case alloc_bkt w1 of
                 None \<Rightarrow> None
               | Some (new_bkt, w2) \<Rightarrow>
                   Some (upd_slot ws_i (\<lambda>s. s\<lparr>bkts := bkts s @ [new_bkt]\<rparr>) w2))
         else Some w1)"

text \<open>The walk along a chain; the flag tells the bucket in the slot from those of the pool.\<close>

fun reap_bkts :: "bool \<Rightarrow> wheel_bkt list \<Rightarrow> TimingWheel \<Rightarrow> TimingWheel option" where
  "reap_bkts first [] w = Some w"
| "reap_bkts first (b # bs) w =
     (let w1 = w\<lparr>ready_entries := ready_entries w + length (bkt_entries b),
                 ready_queue := ready_queue w @ bkt_entries b\<rparr>
      in if first then reap_bkts False bs w1
         else (case cb_push_front (bkt_addr b) (bkt_pool w1) of
                 (ok, p) \<Rightarrow> if ok then reap_bkts False bs (w1\<lparr>bkt_pool := p\<rparr>) else None))"

definition reap_wslot :: "nat \<Rightarrow> TimingWheel \<Rightarrow> TimingWheel option" where
  "reap_wslot ws_i w =
     (case reap_bkts True (bkts (wheel w ! ws_i)) w of
        None \<Rightarrow> None
      | Some w1 \<Rightarrow> Some (upd_slot ws_i (\<lambda>s. s\<lparr>bkts := [reset_bkt (hd (bkts s))]\<rparr>) w1))"

text \<open>The rest of the loop body of \<open>reap\<close>: the slot's time moves one turn ahead, the hand one slot.\<close>

definition advance_wslot :: "TimingWheel \<Rightarrow> TimingWheel" where
  "advance_wslot w =
     (let n = length (wheel w);
          w1 = upd_slot (cur_wslot w) (\<lambda>s. s\<lparr>tx_tsc := tsc_wrap (tx_tsc s + wslot_width_tsc w * n)\<rparr>) w;
          next_wslot = cur_wslot w1 + 1
      in w1\<lparr>cur_wslot := (if next_wslot = n then 0 else next_wslot)\<rparr>)"

partial_function (option) reap :: "nat \<Rightarrow> TimingWheel \<Rightarrow> TimingWheel option option" where
  "reap reap_tsc w =
     (if tx_tsc (wheel w ! cur_wslot w) \<le> reap_tsc
      then (case reap_wslot (cur_wslot w) w of
              None \<Rightarrow> Some None
            | Some w1 \<Rightarrow> reap reap_tsc (advance_wslot w1))
      else Some (Some w))"

declare reap.simps [code]

definition wheel_insert :: "nat \<Rightarrow> nat \<Rightarrow> nat \<Rightarrow> TimingWheel \<Rightarrow> TimingWheel option option" where
  "wheel_insert ent ref_tsc desired_tx_tsc w =
     (if \<not> desired_tx_tsc \<ge> ref_tsc then Some None
      else if \<not> desired_tx_tsc - ref_tsc \<le> horizon_tsc w then Some None
      else (case reap ref_tsc w of
              None \<Rightarrow> None
            | Some None \<Rightarrow> Some None
            | Some (Some w1) \<Rightarrow>
                (let tx = tx_tsc (wheel w1 ! cur_wslot w1); n = length (wheel w1)
                 in if desired_tx_tsc \<le> tx then Some (insert_into_wslot (cur_wslot w1) ent w1)
                    else
                      (let wslot_delta = 1 + (desired_tx_tsc - tx) div wslot_width_tsc w1
                       in if \<not> wslot_delta < n then Some None
                          else
                            (let dst = cur_wslot w1 + wslot_delta;
                                 dst_wslot = (if dst \<ge> n then dst - n else dst)
                             in Some (insert_into_wslot dst_wslot ent w1))))))"

text \<open>
  \<open>sum_tsc\<close> is the value of \<open>*prev_desired_tx_tsc + cycle_delta\<close>. The result is whether the chunk was
  queued, the new value of \<open>*prev_desired_tx_tsc\<close>, and the wheel.
\<close>

definition queue_on_timing_wheel ::
  "nat \<Rightarrow> nat \<Rightarrow> nat \<Rightarrow> nat \<Rightarrow> nat \<Rightarrow> bool \<Rightarrow> TimingWheel \<Rightarrow> (bool \<times> nat \<times> TimingWheel) option option" where
  "queue_on_timing_wheel sum_tsc prev_desired_tx_tsc ref_tsc wr chunk_size allow_bypass w =
     (if chunk_size < kBypassTimingWheelThres \<and> allow_bypass then Some (Some (False, prev_desired_tx_tsc, w))
      else
        (let desired_tx_tsc = max sum_tsc ref_tsc
         in if desired_tx_tsc = ref_tsc \<and> allow_bypass then Some (Some (False, desired_tx_tsc, w))
            else (case wheel_insert wr ref_tsc desired_tx_tsc w of
                    None \<Rightarrow> None
                  | Some None \<Rightarrow> Some None
                  | Some (Some w') \<Rightarrow> Some (Some (True, desired_tx_tsc, w')))))"

text \<open>
  \<open>catchup\<close> reads the clock twice in every turn, once in the condition and once in the body; the
  readings are a list, which a run uses a prefix of.
\<close>

fun catchup :: "(nat \<times> nat) list \<Rightarrow> TimingWheel \<Rightarrow> TimingWheel option option" where
  "catchup [] w = None"
| "catchup ((r1, r2) # rs) w =
     (if tx_tsc (wheel w ! cur_wslot w) < r1
      then (case reap r2 w of
              None \<Rightarrow> None
            | Some None \<Rightarrow> Some None
            | Some (Some w') \<Rightarrow> catchup rs w')
      else Some (Some w))"

section \<open>The ring of slots\<close>

lemma rotate_update:
  assumes "c < length xs" "k < length xs"
  shows "rotate c (xs[(c + k) mod length xs := x]) = (rotate c xs)[k := x]"
proof (rule nth_equalityI)
  fix i assume "i < length (rotate c (xs[(c + k) mod length xs := x]))"
  then have i: "i < length xs" by simp
  have "(c + k) mod length xs = (c + i) mod length xs \<longleftrightarrow> k = i" using circ_mod_inj [OF assms(2) i] by auto
  moreover have "(c + k) mod length xs < length xs" using assms by (cases xs) auto
  ultimately show "rotate c (xs[(c + k) mod length xs := x]) ! i = (rotate c xs)[k := x] ! i"
    using i by (simp add: nth_rotate nth_list_update)
qed simp

lemma rotate_next:
  assumes "c < length xs"
  shows "rotate (if c + 1 = length xs then 0 else c + 1) xs = tl (rotate c xs) @ [hd (rotate c xs)]"
proof -
  have "rotate c xs \<noteq> []" using assms by auto
  then have "rotate (Suc c) xs = tl (rotate c xs) @ [hd (rotate c xs)]"
    by (simp add: rotate1_hd_tl)
  then show ?thesis by (cases "Suc c = length xs") (auto simp: rotate_id)
qed

definition ring :: "TimingWheel \<Rightarrow> wslot list" where
  "ring w = rotate (cur_wslot w) (wheel w)"

definition hand :: "TimingWheel \<Rightarrow> nat" where
  "hand w = tx_tsc (wheel w ! cur_wslot w)"

definition slot_entries :: "wslot \<Rightarrow> nat list" where
  "slot_entries s = concat (map bkt_entries (bkts s))"

definition slot_items :: "wslot \<Rightarrow> (nat \<times> nat) list" where
  "slot_items s = map (Pair (tx_tsc s)) (slot_entries s)"

text \<open>What the wheel holds, in the order in which it will be reaped, with the time of the slot.\<close>

definition pending :: "TimingWheel \<Rightarrow> (nat \<times> nat) list" where
  "pending w = concat (map slot_items (ring w))"

definition chain_ok :: "wheel_bkt list \<Rightarrow> bool" where
  "chain_ok bs \<longleftrightarrow> bs \<noteq> [] \<and> (\<forall>b\<in>set (butlast bs). length (bkt_entries b) = kWheelBucketCap) \<and>
     length (bkt_entries (last bs)) < kWheelBucketCap"

definition chained :: "wslot list \<Rightarrow> nat list" where
  "chained ss = concat (map (\<lambda>s. map bkt_addr (tl (bkts s))) ss)"

definition wheel_ok :: "nat list \<Rightarrow> TimingWheel \<Rightarrow> bool" where
  "wheel_ok addrs w \<longleftrightarrow>
     0 < wslot_width_tsc w \<and> cur_wslot w < length (wheel w) \<and>
     (\<forall>k<length (wheel w). tx_tsc (ring w ! k) = hand w + k * wslot_width_tsc w) \<and>
     (\<forall>s\<in>set (ring w). chain_ok (bkts s)) \<and>
     cb_inv (bkt_pool w) \<and> length addrs < cb_slots (bkt_pool w) \<and>
     mset (cb_list (bkt_pool w)) + mset (chained (ring w)) = mset addrs"

lemma length_ring [simp]: "length (ring w) = length (wheel w)"
  by (simp add: ring_def)

lemma ring_hd:
  assumes "cur_wslot w < length (wheel w)"
  shows "ring w \<noteq> []" "ring w ! 0 = wheel w ! cur_wslot w" "hd (ring w) = wheel w ! cur_wslot w"
proof -
  show "ring w \<noteq> []" using assms by (auto simp: ring_def)
  moreover have "wheel w \<noteq> []" using assms by auto
  ultimately show "ring w ! 0 = wheel w ! cur_wslot w" "hd (ring w) = wheel w ! cur_wslot w"
    using assms by (simp_all add: ring_def nth_rotate hd_conv_nth)
qed

lemma ring_upd_slot:
  assumes "cur_wslot w < length (wheel w)" "k < length (wheel w)" "i = (cur_wslot w + k) mod length (wheel w)"
  shows "ring (upd_slot i g w) = (ring w)[k := g (ring w ! k)]" "wheel w ! i = ring w ! k"
proof -
  show n: "wheel w ! i = ring w ! k" using assms by (simp add: ring_def nth_rotate)
  show "ring (upd_slot i g w) = (ring w)[k := g (ring w ! k)]"
    unfolding n [symmetric] using rotate_update [OF assms(1,2)] assms(3) by (simp add: ring_def upd_slot_def)
qed

lemma upd_slot_frame [simp]:
  "wslot_width_tsc (upd_slot i g w) = wslot_width_tsc w" "horizon_tsc (upd_slot i g w) = horizon_tsc w"
  "length (wheel (upd_slot i g w)) = length (wheel w)" "cur_wslot (upd_slot i g w) = cur_wslot w"
  "bkt_pool (upd_slot i g w) = bkt_pool w" "ready_queue (upd_slot i g w) = ready_queue w"
  "ready_entries (upd_slot i g w) = ready_entries w"
  by (simp_all add: upd_slot_def)

lemma mset_chained_update:
  assumes "k < length ss"
  shows "mset (chained (ss[k := s])) + mset (map bkt_addr (tl (bkts (ss ! k)))) =
    mset (chained ss) + mset (map bkt_addr (tl (bkts s)))"
proof -
  let ?t = "\<lambda>s. map bkt_addr (tl (bkts s))"
  have "chained (take k ss @ s' # drop (Suc k) ss) = chained (take k ss) @ ?t s' @ chained (drop (Suc k) ss)" for s'
    by (simp add: chained_def)
  then have "chained ss = chained (take k ss) @ ?t (ss ! k) @ chained (drop (Suc k) ss)"
    "chained (ss[k := s]) = chained (take k ss) @ ?t s @ chained (drop (Suc k) ss)"
    using id_take_nth_drop [OF assms] upd_conv_take_nth_drop [OF assms, of s] by metis+
  then show ?thesis by simp
qed

section \<open>Inserting an entry\<close>

lemma chain_ok_snoc:
  assumes "chain_ok bs" "b = (last bs)\<lparr>bkt_entries := bkt_entries (last bs) @ [e]\<rparr>"
  shows "length (bkt_entries b) < kWheelBucketCap \<Longrightarrow> chain_ok (butlast bs @ [b])"
    and "length (bkt_entries b) = kWheelBucketCap \<Longrightarrow> chain_ok (butlast bs @ [b, \<lparr>bkt_addr = a, bkt_entries = []\<rparr>])"
    and "concat (map bkt_entries (butlast bs @ [b])) = concat (map bkt_entries bs) @ [e]"
    and "map bkt_addr (tl (butlast bs @ [b])) = map bkt_addr (tl bs)"
    and "map bkt_addr (tl (butlast bs @ [b, \<lparr>bkt_addr = a, bkt_entries = []\<rparr>])) = map bkt_addr (tl bs) @ [a]"
proof -
  have ne: "bs \<noteq> []" using assms(1) by (simp add: chain_ok_def)
  obtain cs c where bs: "bs = cs @ [c]" using ne by (cases bs rule: rev_cases) auto
  have b: "b = c\<lparr>bkt_entries := bkt_entries c @ [e]\<rparr>" using assms(2) bs by simp
  show "length (bkt_entries b) < kWheelBucketCap \<Longrightarrow> chain_ok (butlast bs @ [b])"
    "length (bkt_entries b) = kWheelBucketCap \<Longrightarrow> chain_ok (butlast bs @ [b, \<lparr>bkt_addr = a, bkt_entries = []\<rparr>])"
    "concat (map bkt_entries (butlast bs @ [b])) = concat (map bkt_entries bs) @ [e]"
    using assms(1) bs b by (auto simp: chain_ok_def kWheelBucketCap_def butlast_append)
  show "map bkt_addr (tl (butlast bs @ [b])) = map bkt_addr (tl bs)"
    "map bkt_addr (tl (butlast bs @ [b, \<lparr>bkt_addr = a, bkt_entries = []\<rparr>])) = map bkt_addr (tl bs) @ [a]"
    using bs b by (cases cs; simp)+
qed

lemma wheel_pool_size:
  assumes "wheel_ok addrs w"
  shows "cb_len (bkt_pool w) + length (chained (ring w)) = length addrs"
proof -
  have "size (mset (cb_list (bkt_pool w)) + mset (chained (ring w))) = size (mset addrs)"
    using assms by (simp add: wheel_ok_def)
  then show ?thesis by simp
qed

lemma hand_ring: "cur_wslot w < length (wheel w) \<Longrightarrow> hand w = tx_tsc (ring w ! 0)"
  by (simp add: hand_def ring_hd)

lemma wheel_ok_update:
  assumes "wheel_ok addrs w" "k < length (wheel w)" "wslot_width_tsc w' = wslot_width_tsc w"
    and "cur_wslot w' = cur_wslot w" "length (wheel w') = length (wheel w)"
    and "ring w' = (ring w)[k := s']" "tx_tsc s' = tx_tsc (ring w ! k)" "chain_ok (bkts s')"
    and "cb_inv (bkt_pool w')" "cb_slots (bkt_pool w') = cb_slots (bkt_pool w)"
    and "mset (cb_list (bkt_pool w')) + mset (map bkt_addr (tl (bkts s'))) =
      mset (cb_list (bkt_pool w)) + mset (map bkt_addr (tl (bkts (ring w ! k))))"
  shows "wheel_ok addrs w' \<and> hand w' = hand w"
proof -
  have c: "cur_wslot w < length (wheel w)" using assms(1) by (simp add: wheel_ok_def)
  have tx: "tx_tsc (ring w' ! j) = tx_tsc (ring w ! j)" if "j < length (wheel w)" for j
    using that assms(2,6,7) by (cases "j = k") simp_all
  have h: "hand w' = hand w" using tx [of 0] c assms(4,5) hand_ring [of w] hand_ring [of w'] by (cases "wheel w") auto
  let ?P = "mset (cb_list (bkt_pool w))" and ?P' = "mset (cb_list (bkt_pool w'))"
    and ?o = "mset (map bkt_addr (tl (bkts (ring w ! k))))" and ?n = "mset (map bkt_addr (tl (bkts s')))"
  have "(?P' + mset (chained (ring w'))) + (?o + ?n) = (?P' + ?n) + (mset (chained (ring w')) + ?o)"
    by (simp only: ac_simps)
  also have "\<dots> = (?P + ?o) + (mset (chained (ring w)) + ?n)"
    using assms(11) mset_chained_update [of k "ring w" s'] assms(2,6) by simp
  also have "\<dots> = (?P + mset (chained (ring w))) + (?o + ?n)" by (simp only: ac_simps)
  finally have "?P' + mset (chained (ring w')) = ?P + mset (chained (ring w))" by (simp only: add_right_cancel)
  moreover have "\<forall>s\<in>set (ring w'). chain_ok (bkts s)"
    using assms(1,6,8) set_update_subset_insert [of "ring w" k s'] by (auto simp: wheel_ok_def)
  ultimately show ?thesis using assms(1,3,4,5,9,10) tx h by (simp add: wheel_ok_def)
qed

text \<open>The fields that no operation of the wheel changes.\<close>

definition wheel_frame :: "TimingWheel \<Rightarrow> TimingWheel \<Rightarrow> bool" where
  "wheel_frame w w' \<longleftrightarrow> wslot_width_tsc w' = wslot_width_tsc w \<and> horizon_tsc w' = horizon_tsc w \<and>
     length (wheel w') = length (wheel w)"

lemma insert_into_wslot_ok:
  assumes ok: "wheel_ok addrs w" and k: "k < length (wheel w)"
    and i: "i = (cur_wslot w + k) mod length (wheel w)" and pool: "length (chained (ring w)) < length addrs \<or> insert_into_wslot i e w \<noteq> None"
  obtains w' s' where "insert_into_wslot i e w = Some w'" "wheel_ok addrs w'" "ring w' = (ring w)[k := s']"
    "tx_tsc s' = tx_tsc (ring w ! k)" "slot_entries s' = slot_entries (ring w ! k) @ [e]"
    "hand w' = hand w" "ready_queue w' = ready_queue w" "wheel_frame w w'"
proof -
  let ?s = "ring w ! k"
  define b where "b = (last (bkts ?s))\<lparr>bkt_entries := bkt_entries (last (bkts ?s)) @ [e]\<rparr>"
  define w1 where "w1 = upd_slot i (\<lambda>s. s\<lparr>bkts := butlast (bkts ?s) @ [b]\<rparr>) w"
  have c: "cur_wslot w < length (wheel w)" "cb_inv (bkt_pool w)" using ok by (simp_all add: wheel_ok_def)
  note n = ring_upd_slot(2) [OF c(1) k i] and up = ring_upd_slot(1) [OF c(1) k i]
  have ch: "chain_ok (bkts ?s)" using ok k by (simp add: wheel_ok_def)
  note sn = chain_ok_snoc [OF ch b_def]
  have r1: "ring w1 = (ring w)[k := ?s\<lparr>bkts := butlast (bkts ?s) @ [b]\<rparr>]" by (simp add: w1_def up)
  have ins: "insert_into_wslot i e w = (if length (bkt_entries b) = kWheelBucketCap
      then (case alloc_bkt w1 of None \<Rightarrow> None
        | Some (new_bkt, w2) \<Rightarrow> Some (upd_slot i (\<lambda>s. s\<lparr>bkts := bkts s @ [new_bkt]\<rparr>) w2))
      else Some w1)"
    by (simp add: insert_into_wslot_def n b_def w1_def Let_def)
  show ?thesis
  proof (cases "length (bkt_entries b) = kWheelBucketCap")
    case False
    have le: "length (bkt_entries b) < kWheelBucketCap"
      using False ch by (simp add: b_def chain_ok_def kWheelBucketCap_def)
    let ?s' = "?s\<lparr>bkts := butlast (bkts ?s) @ [b]\<rparr>"
    have "wheel_ok addrs w1 \<and> hand w1 = hand w"
      by (rule wheel_ok_update [OF ok k, where s' = ?s']) (use r1 sn(1) [OF le] sn(4) c in \<open>simp_all add: w1_def\<close>)
    then show ?thesis
      using that [of w1 ?s'] ins False r1 sn(3) by (simp add: slot_entries_def wheel_frame_def w1_def)
  next
    case True
    have "bkt_pool w1 = bkt_pool w" by (simp add: w1_def)
    then have "insert_into_wslot i e w = None" if "cb_list (bkt_pool w) = []"
      using True ins cb_pop_front_empty [OF c(2) that] by (simp add: alloc_bkt_def)
    moreover have "cb_list (bkt_pool w) \<noteq> []" if "length (chained (ring w)) < length addrs"
    proof
      assume "cb_list (bkt_pool w) = []"
      then have "cb_len (bkt_pool w) = 0" by (metis length_cb_list list.size(3))
      then show False using wheel_pool_size [OF ok] that by simp
    qed
    ultimately have "cb_list (bkt_pool w) \<noteq> []" using pool by auto
    then obtain a as where as: "cb_list (bkt_pool w) = a # as" by (cases "cb_list (bkt_pool w)") auto
    obtain p where p: "cb_pop_front (bkt_pool w) = (Some a, p)" "cb_inv p" "cb_list p = as" "cb_slots p = cb_slots (bkt_pool w)"
      by (rule cb_pop_front_ok [OF c(2) as])
    let ?n = "\<lparr>bkt_addr = a, bkt_entries = []\<rparr>"
    let ?s' = "?s\<lparr>bkts := butlast (bkts ?s) @ [b, ?n]\<rparr>"
    define w2 where "w2 = upd_slot i (\<lambda>s. s\<lparr>bkts := bkts s @ [?n]\<rparr>) (w1\<lparr>bkt_pool := p\<rparr>)"
    have "bkt_pool w1 = bkt_pool w" by (simp add: w1_def)
    then have w2: "insert_into_wslot i e w = Some w2" using True ins p(1) by (simp add: alloc_bkt_def w2_def)
    have "ring (w1\<lparr>bkt_pool := p\<rparr>) = ring w1" by (simp add: ring_def)
    then have r2: "ring w2 = (ring w)[k := ?s']"
      using ring_upd_slot(1) [of "w1\<lparr>bkt_pool := p\<rparr>" k i] c(1) k i r1 by (simp add: w2_def w1_def)
    have "wheel_ok addrs w2 \<and> hand w2 = hand w"
      by (rule wheel_ok_update [OF ok k, where s' = ?s'])
        (use r2 sn(2) [OF True] sn(5) p as in \<open>simp_all add: w1_def w2_def\<close>)
    then show ?thesis
      using that [of w2 ?s'] w2 r2 sn(3) by (simp add: slot_entries_def wheel_frame_def w1_def w2_def)
  qed
qed

section \<open>Reaping\<close>

lemma reap_bkts_ok:
  assumes "cb_inv (bkt_pool w)" "cb_len (bkt_pool w) + length bs < cb_slots (bkt_pool w)"
  obtains w' where "reap_bkts False bs w = Some w'" "cb_inv (bkt_pool w')"
    "cb_slots (bkt_pool w') = cb_slots (bkt_pool w)"
    "mset (cb_list (bkt_pool w')) = mset (cb_list (bkt_pool w)) + mset (map bkt_addr bs)"
    "ready_queue w' = ready_queue w @ concat (map bkt_entries bs)"
    "wheel w' = wheel w" "cur_wslot w' = cur_wslot w" "wheel_frame w w'"
  using assms
proof (induction bs arbitrary: w thesis)
  case Nil
  then show ?case by (auto simp: wheel_frame_def)
next
  case (Cons b bs)
  let ?w1 = "w\<lparr>ready_entries := ready_entries w + length (bkt_entries b),
      ready_queue := ready_queue w @ bkt_entries b\<rparr>"
  have room: "cb_len (bkt_pool w) < cb_slots (bkt_pool w) - 1" using Cons.prems(3) by simp
  obtain p where p: "cb_push_front (bkt_addr b) (bkt_pool w) = (True, p)" "cb_inv p"
    "cb_list p = bkt_addr b # cb_list (bkt_pool w)" "cb_slots p = cb_slots (bkt_pool w)"
    by (rule cb_push_front_ok [OF Cons.prems(2) room])
  have len: "cb_len p = Suc (cb_len (bkt_pool w))" using arg_cong [OF p(3), of length] by simp
  obtain w' where w': "reap_bkts False bs (?w1\<lparr>bkt_pool := p\<rparr>) = Some w'" "cb_inv (bkt_pool w')"
    "cb_slots (bkt_pool w') = cb_slots p" "mset (cb_list (bkt_pool w')) = mset (cb_list p) + mset (map bkt_addr bs)"
    "ready_queue w' = (ready_queue w @ bkt_entries b) @ concat (map bkt_entries bs)"
    "wheel w' = wheel w" "cur_wslot w' = cur_wslot w" "wheel_frame (?w1\<lparr>bkt_pool := p\<rparr>) w'"
    by (rule Cons.IH [of "?w1\<lparr>bkt_pool := p\<rparr>"]) (use Cons.prems(3) p len in simp_all)
  show ?case
    by (rule Cons.prems(1) [of w']) (use w' p in \<open>simp_all add: wheel_frame_def Let_def\<close>)
qed

lemma chained_Cons: "chained (s # ss) = map bkt_addr (tl (bkts s)) @ chained ss"
  by (simp add: chained_def)

lemma chained_snoc: "chained (ss @ [s]) = chained ss @ map bkt_addr (tl (bkts s))"
  by (simp add: chained_def)

text \<open>One turn of the loop of \<open>reap\<close>.\<close>

lemma reap_turn:
  assumes ok: "wheel_ok addrs w" and fit: "hand w + wslot_width_tsc w * length (wheel w) < 2 ^ 61"
  obtains w1 where "reap_wslot (cur_wslot w) w = Some w1" "wheel_ok addrs (advance_wslot w1)"
    "hand (advance_wslot w1) = hand w + wslot_width_tsc w"
    "ready_queue (advance_wslot w1) = ready_queue w @ slot_entries (hd (ring w))"
    "pending w = slot_items (hd (ring w)) @ pending (advance_wslot w1)"
    "wheel_frame w (advance_wslot w1)"
proof -
  have c: "cur_wslot w < length (wheel w)" and inv: "cb_inv (bkt_pool w)" using ok by (simp_all add: wheel_ok_def)
  let ?n = "length (wheel w)" and ?d = "wslot_width_tsc w" and ?c = "cur_wslot w"
  obtain s ss where ring: "ring w = s # ss" using ring_hd(1) [OF c] by (cases "ring w") auto
  have s: "wheel w ! ?c = s" using ring_hd(2) [OF c] ring by simp
  have "chain_ok (bkts s)" using ok ring by (simp add: wheel_ok_def)
  then obtain b bs where bs: "bkts s = b # bs" by (cases "bkts s") (auto simp: chain_ok_def)
  let ?w0 = "w\<lparr>ready_entries := ready_entries w + length (bkt_entries b), ready_queue := ready_queue w @ bkt_entries b\<rparr>"
  have room: "cb_len (bkt_pool w) + length bs < cb_slots (bkt_pool w)"
    using wheel_pool_size [OF ok] ok ring bs by (auto simp: wheel_ok_def chained_Cons)
  obtain w' where w': "reap_bkts False bs ?w0 = Some w'" "cb_inv (bkt_pool w')"
    "cb_slots (bkt_pool w') = cb_slots (bkt_pool w)"
    "mset (cb_list (bkt_pool w')) = mset (cb_list (bkt_pool w)) + mset (map bkt_addr bs)"
    "ready_queue w' = (ready_queue w @ bkt_entries b) @ concat (map bkt_entries bs)"
    "wheel w' = wheel w" "cur_wslot w' = ?c" "wheel_frame ?w0 w'"
    by (rule reap_bkts_ok [of ?w0 bs]) (use inv room in simp_all)
  define w1 where "w1 = upd_slot ?c (\<lambda>s. s\<lparr>bkts := [reset_bkt (hd (bkts s))]\<rparr>) w'"
  define s' where "s' = s\<lparr>bkts := [reset_bkt b], tx_tsc := hand w + ?d * ?n\<rparr>"
  let ?w2 = "advance_wslot w1"
  have reap: "reap_wslot ?c w = Some w1" by (simp add: reap_wslot_def s bs w'(1) w1_def)
  have fr: "wslot_width_tsc w1 = ?d" "horizon_tsc w1 = horizon_tsc w" "length (wheel w1) = ?n" "cur_wslot w1 = ?c"
    using w' by (simp_all add: w1_def wheel_frame_def)
  have s1: "wheel w1 = (wheel w)[?c := s\<lparr>bkts := [reset_bkt b]\<rparr>]"
    using c by (simp add: w1_def upd_slot_def w'(6) s bs)
  have hs: "tx_tsc s = hand w" by (simp add: hand_def s)
  have w2: "wheel ?w2 = (wheel w)[?c := s']"
    using c fit by (simp add: advance_wslot_def Let_def upd_slot_def s1 fr hs tsc_wrap_def s'_def)
  have c2: "cur_wslot ?w2 = (if ?c + 1 = ?n then 0 else ?c + 1)" by (simp add: advance_wslot_def Let_def fr)
  have "rotate ?c (wheel ?w2) = s' # ss"
    using rotate_update [OF c, of 0 s'] c ring unfolding w2 ring_def by (cases "wheel w") simp_all
  then have r2: "ring ?w2 = ss @ [s']"
    using rotate_next [of ?c "wheel ?w2"] c unfolding ring_def c2 by (simp add: w2)
  have n: "?n = Suc (length ss)" using arg_cong [OF ring, of length] by simp
  have tx: "tx_tsc ((s # ss) ! k) = hand w + k * ?d" if "k < ?n" for k using ok that ring by (simp add: wheel_ok_def)
  have tx2: "tx_tsc (ring ?w2 ! k) = hand w + ?d + k * ?d" if "k < ?n" for k
    using that n tx [of "Suc k"] by (cases "k = length ss") (auto simp: r2 nth_append s'_def)
  have c2n: "cur_wslot ?w2 < length (wheel ?w2)" using c by (auto simp: c2 w2)
  have h2: "hand ?w2 = hand w + ?d" using tx2 [of 0] n by (simp add: hand_ring [OF c2n])
  have pool: "bkt_pool ?w2 = bkt_pool w'" by (simp add: advance_wslot_def Let_def w1_def)
  have rq: "ready_queue ?w2 = ready_queue w'" by (simp add: advance_wslot_def Let_def w1_def)
  have fr2: "wslot_width_tsc ?w2 = ?d" "horizon_tsc ?w2 = horizon_tsc w" "length (wheel ?w2) = ?n"
    using fr by (simp_all add: advance_wslot_def Let_def)
  have chains: "\<forall>s\<in>set (ring ?w2). chain_ok (bkts s)"
    using ok ring unfolding r2 by (auto simp: wheel_ok_def s'_def chain_ok_def reset_bkt_def kWheelBucketCap_def)
  have "mset (cb_list (bkt_pool w)) + mset (chained (s # ss)) = mset addrs" using ok ring by (simp add: wheel_ok_def)
  then have "mset (cb_list (bkt_pool ?w2)) + mset (chained (ring ?w2)) = mset addrs"
    unfolding r2 pool w'(4) by (simp add: chained_Cons chained_snoc bs s'_def ac_simps)
  then have ok2: "wheel_ok addrs ?w2"
    using ok tx2 c2n chains w'(2,3) by (simp add: wheel_ok_def fr2 h2 pool)
  show ?thesis
  proof (rule that [OF reap ok2 h2])
    show "ready_queue ?w2 = ready_queue w @ slot_entries (hd (ring w))"
      by (simp add: rq w'(5) ring slot_entries_def bs)
    show "pending w = slot_items (hd (ring w)) @ pending ?w2"
      by (simp add: pending_def ring r2) (simp add: slot_items_def slot_entries_def s'_def reset_bkt_def)
    show "wheel_frame w ?w2" by (simp add: wheel_frame_def fr2)
  qed
qed

lemma slot_items_time: "x \<in> set (slot_items s) \<Longrightarrow> fst x = tx_tsc s"
  by (auto simp: slot_items_def)

lemma pending_time:
  assumes "wheel_ok addrs w" "x \<in> set (pending w)"
  shows "\<exists>k<length (wheel w). fst x = hand w + k * wslot_width_tsc w"
proof -
  obtain s where s: "s \<in> set (ring w)" "x \<in> set (slot_items s)" using assms(2) by (auto simp: pending_def)
  then obtain k where "k < length (wheel w)" "ring w ! k = s" by (auto simp: in_set_conv_nth)
  then show ?thesis using assms(1) slot_items_time [OF s(2)] by (auto simp: wheel_ok_def)
qed

lemma reap_ok:
  assumes "wheel_ok addrs w" "t + wslot_width_tsc w * length (wheel w) < 2 ^ 61"
  shows "\<exists>w'. reap t w = Some (Some w') \<and> wheel_ok addrs w' \<and> wheel_frame w w' \<and>
    ready_queue w' = ready_queue w @ map snd (filter (\<lambda>x. fst x \<le> t) (pending w)) \<and>
    pending w' = filter (\<lambda>x. t < fst x) (pending w) \<and>
    t < hand w' \<and> hand w' \<le> max (hand w) (t + wslot_width_tsc w)"
  using assms
proof (induction "Suc t - hand w" arbitrary: w rule: less_induct)
  case less
  show ?case
  proof (cases "hand w \<le> t")
    case False
    have "t < fst x" if "x \<in> set (pending w)" for x using pending_time [OF less.prems(1) that] False by auto
    then have "filter (\<lambda>x. fst x \<le> t) (pending w) = []" "filter (\<lambda>x. t < fst x) (pending w) = pending w"
      by (simp_all add: filter_empty_conv not_le)
    moreover have "reap t w = Some (Some w)" using False by (subst reap.simps) (simp add: hand_def)
    ultimately show ?thesis using less.prems(1) False by (simp add: wheel_frame_def)
  next
    case True
    have fit: "hand w + wslot_width_tsc w * length (wheel w) < 2 ^ 61" using True less.prems(2) by simp
    obtain w1 where w1: "reap_wslot (cur_wslot w) w = Some w1" "wheel_ok addrs (advance_wslot w1)"
      "hand (advance_wslot w1) = hand w + wslot_width_tsc w"
      "ready_queue (advance_wslot w1) = ready_queue w @ slot_entries (hd (ring w))"
      "pending w = slot_items (hd (ring w)) @ pending (advance_wslot w1)"
      "wheel_frame w (advance_wslot w1)"
      by (rule reap_turn [OF less.prems(1) fit])
    have pos: "0 < wslot_width_tsc w" "cur_wslot w < length (wheel w)" using less.prems(1) by (simp_all add: wheel_ok_def)
    have d: "wslot_width_tsc (advance_wslot w1) = wslot_width_tsc w" "length (wheel (advance_wslot w1)) = length (wheel w)"
      "horizon_tsc (advance_wslot w1) = horizon_tsc w"
      using w1(6) by (simp_all add: wheel_frame_def)
    have dec: "Suc t - hand (advance_wslot w1) < Suc t - hand w" using w1(3) pos True by simp
    have fit2: "t + wslot_width_tsc (advance_wslot w1) * length (wheel (advance_wslot w1)) < 2 ^ 61"
      using less.prems(2) d by simp
    obtain w' where w': "reap t (advance_wslot w1) = Some (Some w')" "wheel_ok addrs w'" "wheel_frame (advance_wslot w1) w'"
      "ready_queue w' = ready_queue (advance_wslot w1) @ map snd (filter (\<lambda>x. fst x \<le> t) (pending (advance_wslot w1)))"
      "pending w' = filter (\<lambda>x. t < fst x) (pending (advance_wslot w1))"
      "t < hand w'" "hand w' \<le> max (hand w + wslot_width_tsc w) (t + wslot_width_tsc w)"
      using less.hyps [OF dec w1(2) fit2] unfolding w1(3) d by blast
    have "fst x = hand w" if "x \<in> set (slot_items (hd (ring w)))" for x
      using slot_items_time [OF that] ring_hd(3) [OF pos(2)] by (simp add: hand_def)
    then have f: "filter (\<lambda>x. fst x \<le> t) (slot_items (hd (ring w))) = slot_items (hd (ring w))"
      "filter (\<lambda>x. t < fst x) (slot_items (hd (ring w))) = []"
      using True by (auto simp: filter_empty_conv intro!: filter_True)
    have "map snd (slot_items s) = slot_entries s" for s by (simp add: slot_items_def o_def)
    moreover have "reap t w = Some (Some w')" using True w1(1) w'(1) by (subst reap.simps) (simp add: hand_def)
    ultimately show ?thesis using w'(2-7) w1(4,5) f True d by (simp add: wheel_frame_def)
  qed
qed

section \<open>What an insertion does to the contents\<close>

lemma pending_update:
  assumes "wheel_ok addrs w" "k < length (wheel w)" "ring w' = (ring w)[k := s']"
    and "tx_tsc s' = tx_tsc (ring w ! k)" "slot_entries s' = slot_entries (ring w ! k) @ [e]"
  shows "pending w' = filter (\<lambda>x. fst x \<le> tx_tsc s') (pending w) @ (tx_tsc s', e) #
    filter (\<lambda>x. tx_tsc s' < fst x) (pending w)"
proof -
  let ?A = "take k (ring w)" and ?B = "drop (Suc k) (ring w)" and ?s = "ring w ! k" and ?T = "tx_tsc s'"
  have d: "0 < wslot_width_tsc w" and tx: "tx_tsc (ring w ! j) = hand w + j * wslot_width_tsc w" if "j < length (wheel w)" for j
    using assms(1) that by (auto simp: wheel_ok_def)
  have d0: "0 < wslot_width_tsc w" using d assms(2) by blast
  have T: "?T = hand w + k * wslot_width_tsc w" using tx [OF assms(2)] assms(4) by simp
  have "tx_tsc x \<le> ?T" if "x \<in> set ?A" for x
  proof -
    obtain j where "j < k" "x = ring w ! j" using \<open>x \<in> set ?A\<close> by (auto simp: in_set_conv_nth)
    then show ?thesis using tx [of j] T assms(2) by simp
  qed
  then have A: "\<forall>x\<in>set (concat (map slot_items ?A)). fst x \<le> ?T" by (fastforce dest: slot_items_time)
  have "?T < tx_tsc x" if "x \<in> set ?B" for x
  proof -
    obtain j where "j < length ?B" "x = ?B ! j" using \<open>x \<in> set ?B\<close> by (metis in_set_conv_nth)
    then have j: "Suc k + j < length (wheel w)" "x = ring w ! (Suc k + j)" using assms(2) by auto
    have "k * wslot_width_tsc w < (Suc k + j) * wslot_width_tsc w" using d0 by (intro mult_strict_right_mono) auto
    then show ?thesis using tx [OF j(1)] T j(2) by simp
  qed
  then have B: "\<forall>x\<in>set (concat (map slot_items ?B)). ?T < fst x" by (fastforce dest: slot_items_time)
  have S: "\<forall>x\<in>set (slot_items ?s). fst x = ?T" using slot_items_time assms(4) by fastforce
  have p: "pending w = concat (map slot_items ?A) @ slot_items ?s @ concat (map slot_items ?B)"
    unfolding pending_def using assms(2) by (subst id_take_nth_drop [of k "ring w"]) simp_all
  have "filter (\<lambda>x. fst x \<le> ?T) (pending w) = concat (map slot_items ?A) @ slot_items ?s"
    unfolding p filter_append using A B S by (simp add: filter_id_conv filter_empty_conv not_le)
  moreover have "filter (\<lambda>x. ?T < fst x) (pending w) = concat (map slot_items ?B)"
    unfolding p filter_append using A B S by (simp add: filter_id_conv filter_empty_conv not_less)
  moreover have "slot_items s' = slot_items ?s @ [(?T, e)]" using assms(4,5) by (simp add: slot_items_def)
  moreover have "pending w' = concat (map slot_items ?A) @ slot_items s' @ concat (map slot_items ?B)"
    unfolding pending_def assms(3) using assms(2) by (simp add: upd_conv_take_nth_drop)
  ultimately show ?thesis by simp
qed

lemma pending_sorted:
  assumes "wheel_ok addrs w"
  shows "sorted (map fst (pending w))"
proof -
  have tx: "tx_tsc (ring w ! j) = hand w + j * wslot_width_tsc w" if "j < length (wheel w)" for j
    using assms that by (auto simp: wheel_ok_def)
  have "sorted (map fst (concat (map slot_items ss)))"
    if "sorted (map tx_tsc ss)" for ss
    using that
  proof (induction ss)
    case (Cons s ss)
    have "map fst (slot_items s) = replicate (length (slot_entries s)) (tx_tsc s)"
      by (simp add: slot_items_def o_def map_replicate_const)
    then show ?case using Cons by (fastforce simp: sorted_append dest: slot_items_time)
  qed simp
  moreover have "sorted (map tx_tsc (ring w))" by (rule sorted_iff_nth_mono [THEN iffD2]) (auto simp: tx)
  ultimately show ?thesis by (simp add: pending_def)
qed

text \<open>The bound on the buckets in use: every chained bucket follows a full one.\<close>

lemma chain_ok_length: "chain_ok bs \<Longrightarrow> kWheelBucketCap * length (tl bs) \<le> length (concat (map bkt_entries bs))"
proof -
  assume ok: "chain_ok bs"
  then obtain cs c where bs: "bs = cs @ [c]" by (cases bs rule: rev_cases) (auto simp: chain_ok_def)
  then have "\<forall>b\<in>set cs. length (bkt_entries b) = kWheelBucketCap" using ok by (simp add: chain_ok_def)
  then have "length (concat (map bkt_entries cs)) = kWheelBucketCap * length cs" by (induction cs) simp_all
  then show ?thesis by (simp add: bs)
qed

lemma chained_length:
  assumes "wheel_ok addrs w"
  shows "kWheelBucketCap * length (chained (ring w)) \<le> length (pending w)"
proof -
  have "kWheelBucketCap * length (chained ss) \<le> length (concat (map slot_items ss))"
    if "\<forall>s\<in>set ss. chain_ok (bkts s)" for ss
    using that
  proof (induction ss)
    case (Cons s ss)
    then show ?case using chain_ok_length [of "bkts s"]
      by (simp add: chained_Cons slot_items_def slot_entries_def add_mult_distrib2)
  qed (simp add: chained_def)
  then show ?thesis using assms by (simp add: wheel_ok_def pending_def)
qed

text \<open>The time of the slot that an entry with a desired time goes to, when the hand is at \<open>h\<close>.\<close>

definition slot_time :: "nat \<Rightarrow> nat \<Rightarrow> nat \<Rightarrow> nat" where
  "slot_time h width d = (if d \<le> h then h else h + (1 + (d - h) div width) * width)"

lemma slot_time_bounds:
  assumes "0 < width" "h \<le> d + width"
  shows "d \<le> slot_time h width d" "slot_time h width d \<le> d + width"
proof -
  define q where "q = (d - h) div width * width"
  have "q \<le> d - h" by (simp add: q_def)
  moreover have "d - h < q + width"
    using assms(1) div_mult_mod_eq [of "d - h" width] mod_less_divisor [OF assms(1), of "d - h"]
    unfolding q_def by linarith
  moreover have "(1 + (d - h) div width) * width = q + width" by (simp add: q_def)
  ultimately show "d \<le> slot_time h width d" "slot_time h width d \<le> d + width"
    using assms(2) unfolding slot_time_def by (auto simp del: mult_Suc)
qed

text \<open>An earlier desired time that is on the grid goes to an earlier slot.\<close>

lemma slot_time_mono:
  assumes "0 < width" "T = h + k * width" "T \<le> d1 + width" "d1 < d2"
  shows "T \<le> slot_time h width d2"
proof (cases "d2 \<le> h")
  case True
  then have "k * width < width" using assms by linarith
  then have "k = 0" by simp
  then show ?thesis using assms(2) by (simp add: slot_time_def)
next
  case False
  have "d2 - h < (d2 - h) div width * width + width"
    using assms(1) div_mult_mod_eq [of "d2 - h" width] mod_less_divisor [OF assms(1), of "d2 - h"] by linarith
  then have "k * width < ((d2 - h) div width + 2) * width" using assms(2-4) False by (simp add: algebra_simps)
  then have "k < (d2 - h) div width + 2" by (rule mult_less_cancel2 [THEN iffD1, THEN conjunct2])
  then have "k \<le> 1 + (d2 - h) div width" by simp
  then have "k * width \<le> (1 + (d2 - h) div width) * width" by (rule mult_le_mono1)
  then show ?thesis using assms(2) False by (simp add: slot_time_def)
qed

lemma wheel_insert_ok:
  assumes ok: "wheel_ok addrs w" and fit: "ref_tsc + wslot_width_tsc w * length (wheel w) < 2 ^ 61"
    and res: "(\<exists>w'. wheel_insert e ref_tsc d w = Some (Some w')) \<or>
      (ref_tsc \<le> d \<and> d - ref_tsc \<le> horizon_tsc w \<and> horizon_tsc w \<le> (length (wheel w) - 1) * wslot_width_tsc w \<and>
       length (pending w) < kWheelBucketCap * length addrs)"
  obtains w1 w' where "reap ref_tsc w = Some (Some w1)" "wheel_insert e ref_tsc d w = Some (Some w')" "ref_tsc \<le> d"
    "wheel_ok addrs w'" "wheel_frame w w'" "hand w' = hand w1" "ready_queue w' = ready_queue w1"
    "pending w' = filter (\<lambda>x. fst x \<le> slot_time (hand w1) (wslot_width_tsc w) d) (pending w1) @
      (slot_time (hand w1) (wslot_width_tsc w) d, e) #
      filter (\<lambda>x. slot_time (hand w1) (wslot_width_tsc w) d < fst x) (pending w1)"
proof -
  let ?n = "length (wheel w)" and ?d = "wslot_width_tsc w"
  obtain w1 where w1: "reap ref_tsc w = Some (Some w1)" "wheel_ok addrs w1" "wheel_frame w w1"
    "pending w1 = filter (\<lambda>x. ref_tsc < fst x) (pending w)" "ref_tsc < hand w1"
    using reap_ok [OF ok fit] by blast
  have fr: "wslot_width_tsc w1 = ?d" "length (wheel w1) = ?n" using w1(3) by (simp_all add: wheel_frame_def)
  have c: "cur_wslot w1 < ?n" "0 < ?d" using w1(2) fr by (auto simp: wheel_ok_def)
  define k where "k = (if d \<le> hand w1 then 0 else 1 + (d - hand w1) div ?d)"
  define i where "i = (cur_wslot w1 + k) mod ?n"
  have ins: "wheel_insert e ref_tsc d w = (if \<not> (ref_tsc \<le> d \<and> d - ref_tsc \<le> horizon_tsc w) then Some None
      else if k < ?n then Some (insert_into_wslot i e w1) else Some None)"
    using c w1(1) circ_mod_less [OF c(1), of k]
    by (auto simp: wheel_insert_def k_def i_def fr hand_def [symmetric] Let_def)
  have k: "k < ?n"
  proof (cases "\<exists>w'. wheel_insert e ref_tsc d w = Some (Some w')")
    case True
    then show ?thesis unfolding ins by (auto split: if_splits)
  next
    case False
    then have h: "ref_tsc \<le> d" "d - ref_tsc \<le> horizon_tsc w" "horizon_tsc w \<le> (?n - 1) * ?d" using res by auto
    have "(d - hand w1) div ?d < ?n - 1" if "hand w1 < d"
    proof -
      have "d - hand w1 < (?n - 1) * ?d" using that h w1(5) by linarith
      then show ?thesis using c(2) by (simp add: div_less_iff_less_mult)
    qed
    then show ?thesis using c(1) by (auto simp: k_def)
  qed
  have pool: "length (chained (ring w1)) < length addrs \<or> insert_into_wslot i e w1 \<noteq> None"
  proof (cases "\<exists>w'. wheel_insert e ref_tsc d w = Some (Some w')")
    case True
    then show ?thesis unfolding ins by (auto split: if_splits)
  next
    case False
    then have "length (pending w) < kWheelBucketCap * length addrs" using res by blast
    moreover have "length (pending w1) \<le> length (pending w)" by (simp add: w1(4))
    ultimately have "kWheelBucketCap * length (chained (ring w1)) < kWheelBucketCap * length addrs"
      using chained_length [OF w1(2)] by linarith
    then show ?thesis by simp
  qed
  have i: "i = (cur_wslot w1 + k) mod length (wheel w1)" "k < length (wheel w1)" using k fr by (simp_all add: i_def)
  obtain w' s' where w': "insert_into_wslot i e w1 = Some w'" "wheel_ok addrs w'" "ring w' = (ring w1)[k := s']"
    "tx_tsc s' = tx_tsc (ring w1 ! k)" "slot_entries s' = slot_entries (ring w1 ! k) @ [e]"
    "hand w' = hand w1" "ready_queue w' = ready_queue w1" "wheel_frame w1 w'"
    by (rule insert_into_wslot_ok [OF w1(2) i(2,1) pool])
  have "tx_tsc s' = slot_time (hand w1) ?d d"
    using w'(4) w1(2) i(2) fr by (simp add: wheel_ok_def slot_time_def k_def)
  moreover have "ref_tsc \<le> d \<and> d - ref_tsc \<le> horizon_tsc w"
    using res unfolding ins by (auto split: if_splits)
  ultimately show ?thesis
    using that [of w1 w'] w1(1,3) w' k ins pending_update [OF w1(2) i(2) w'(3-5)] by (simp add: wheel_frame_def)
qed

section \<open>Histories\<close>

text \<open>
  A state of a wheel, the latest time it was reaped at, the entries queued so far with their desired
  times, and the entries that the sender has taken from the ready queue.
\<close>

inductive wheel_reach ::
  "nat \<Rightarrow> nat \<Rightarrow> nat \<Rightarrow> TimingWheel \<Rightarrow> nat \<Rightarrow> (nat \<times> nat) list \<Rightarrow> nat list \<Rightarrow> bool"
  for width horizon num_wslots
where
  wheel_start: "TimingWheel_new width horizon num_wslots base_tsc = Some w \<Longrightarrow> 0 < width \<Longrightarrow> 0 < num_wslots \<Longrightarrow>
    num_wslots * kWheelBucketCap < 2 ^ 31 \<Longrightarrow> base_tsc + width * (num_wslots + 1) < 2 ^ 61 \<Longrightarrow> wheel_reach width horizon num_wslots w base_tsc [] []"
| wheel_queue: "wheel_reach width horizon num_wslots w clock H out \<Longrightarrow>
    queue_on_timing_wheel sum_tsc prev ref_tsc ent chunk_size allow_bypass w = Some (Some (True, d, w')) \<Longrightarrow>
    clock \<le> ref_tsc \<Longrightarrow> ref_tsc + width * num_wslots < 2 ^ 61 \<Longrightarrow>
    wheel_reach width horizon num_wslots w' ref_tsc (H @ [(ent, d)]) out"
| wheel_reap: "wheel_reach width horizon num_wslots w clock H out \<Longrightarrow> reap t w = Some (Some w') \<Longrightarrow>
    clock \<le> t \<Longrightarrow> t + width * num_wslots < 2 ^ 61 \<Longrightarrow> wheel_reach width horizon num_wslots w' t H out"
| wheel_take: "wheel_reach width horizon num_wslots w clock H out \<Longrightarrow> ready_queue w = x # q \<Longrightarrow>
    wheel_reach width horizon num_wslots (w\<lparr>ready_queue := q\<rparr>) clock H (out @ [x])"

text \<open>\<open>not_overtaken H i j\<close>: entry \<open>i\<close> may leave before entry \<open>j\<close>.\<close>

definition not_overtaken :: "(nat \<times> nat) list \<Rightarrow> nat \<Rightarrow> nat \<Rightarrow> bool" where
  "not_overtaken H i j \<longleftrightarrow> i < j \<or> snd (H ! i) \<le> snd (H ! j)"

definition wheel_order ::
  "TimingWheel \<Rightarrow> nat \<Rightarrow> (nat \<times> nat) list \<Rightarrow> nat list \<Rightarrow> nat list \<Rightarrow> (nat \<times> nat) list \<Rightarrow> bool" where
  "wheel_order w clock H out rel G \<longleftrightarrow>
     out @ ready_queue w = map (\<lambda>i. fst (H ! i)) rel \<and>
     pending w = map (\<lambda>x. (fst x, fst (H ! snd x))) G \<and>
     mset (rel @ map snd G) = mset [0..<length H] \<and>
     sorted_wrt (not_overtaken H) (rel @ map snd G) \<and>
     (\<forall>i\<in>set rel. snd (H ! i) \<le> clock) \<and>
     (\<forall>x\<in>set G. snd (H ! snd x) \<le> fst x \<and> fst x \<le> snd (H ! snd x) + wslot_width_tsc w)"

definition wheel_inv :: "nat list \<Rightarrow> TimingWheel \<Rightarrow> nat \<Rightarrow> (nat \<times> nat) list \<Rightarrow> nat list \<Rightarrow> bool" where
  "wheel_inv addrs w clock H out \<longleftrightarrow>
     wheel_ok addrs w \<and> clock < hand w \<and> hand w \<le> clock + wslot_width_tsc w \<and>
     (\<exists>rel G. wheel_order w clock H out rel G)"

lemma sorted_filter_split:
  "sorted (map fst xs) \<Longrightarrow> filter (\<lambda>x. fst x \<le> t) xs @ filter (\<lambda>x. t < fst x) xs = xs"
proof (induction xs)
  case (Cons x xs)
  show ?case
  proof (cases "fst x \<le> t")
    case False
    then have "\<forall>y\<in>set xs. t < fst y" using Cons.prems by auto
    then have "filter (\<lambda>x. fst x \<le> t) xs = []" "filter (\<lambda>x. t < fst x) xs = xs"
      by (simp_all add: filter_empty_conv filter_id_conv not_le)
    then show ?thesis using False by simp
  qed (use Cons in simp)
qed simp

lemma wheel_inv_reap:
  assumes "wheel_inv addrs w clock H out" "reap t w = Some (Some w')" "clock \<le> t"
    and "t + wslot_width_tsc w * length (wheel w) < 2 ^ 61"
  shows "wheel_inv addrs w' t H out"
proof -
  have ok: "wheel_ok addrs w" using assms(1) by (simp add: wheel_inv_def)
  have r: "wheel_ok addrs w'" "wheel_frame w w'"
    "ready_queue w' = ready_queue w @ map snd (filter (\<lambda>x. fst x \<le> t) (pending w))"
    "pending w' = filter (\<lambda>x. t < fst x) (pending w)" "t < hand w'" "hand w' \<le> max (hand w) (t + wslot_width_tsc w)"
    using reap_ok [OF ok assms(4)] assms(2) by auto
  have d: "wslot_width_tsc w' = wslot_width_tsc w" using r(2) by (simp add: wheel_frame_def)
  from assms(1) obtain rel G where o: "wheel_order w clock H out rel G" by (auto simp: wheel_inv_def)
  note od = o [unfolded wheel_order_def]
  let ?g = "\<lambda>x. (fst x, fst (H ! snd x))"
  have p: "pending w = map ?g G" using od by blast
  have "sorted (map fst G)" using pending_sorted [OF ok] by (simp add: p o_def)
  note sp = sorted_filter_split [OF this, of t]
  have eq: "(rel @ map snd (filter (\<lambda>x. fst x \<le> t) G)) @ map snd (filter (\<lambda>x. t < fst x) G) = rel @ map snd G"
    using arg_cong [OF sp, of "map snd"] by simp
  have "wheel_order w' t H out (rel @ map snd (filter (\<lambda>x. fst x \<le> t) G)) (filter (\<lambda>x. t < fst x) G)"
    unfolding wheel_order_def eq
  proof (intro conjI)
    show "out @ ready_queue w' = map (\<lambda>i. fst (H ! i)) (rel @ map snd (filter (\<lambda>x. fst x \<le> t) G))"
      using od by (simp add: r(3) p filter_map o_def)
    show "pending w' = map ?g (filter (\<lambda>x. t < fst x) G)" by (simp add: r(4) p filter_map o_def)
    show "\<forall>i\<in>set (rel @ map snd (filter (\<lambda>x. fst x \<le> t) G)). snd (H ! i) \<le> t"
      using od assms(3) by (fastforce dest: bspec)
    show "\<forall>x\<in>set (filter (\<lambda>x. t < fst x) G). snd (H ! snd x) \<le> fst x \<and> fst x \<le> snd (H ! snd x) + wslot_width_tsc w'"
      using od by (simp add: d)
  qed (use od in blast)+
  moreover have "hand w' \<le> t + wslot_width_tsc w'" using r(6) assms(1,3) by (auto simp: wheel_inv_def d)
  ultimately show ?thesis using r(1,5) by (auto simp: wheel_inv_def)
qed

lemma wheel_inv_queue:
  assumes "wheel_inv addrs w clock H out" "wheel_insert ent ref_tsc d w = Some (Some w')" "clock \<le> ref_tsc"
    and "ref_tsc + wslot_width_tsc w * length (wheel w) < 2 ^ 61"
  shows "wheel_inv addrs w' ref_tsc (H @ [(ent, d)]) out"
proof -
  have ok: "wheel_ok addrs w" using assms(1) by (simp add: wheel_inv_def)
  have res: "(\<exists>w'. wheel_insert ent ref_tsc d w = Some (Some w')) \<or>
      (ref_tsc \<le> d \<and> d - ref_tsc \<le> horizon_tsc w \<and> horizon_tsc w \<le> (length (wheel w) - 1) * wslot_width_tsc w \<and>
       length (pending w) < kWheelBucketCap * length addrs)" using assms(2) by blast
  obtain w1 w'' where w: "reap ref_tsc w = Some (Some w1)" "wheel_insert ent ref_tsc d w = Some (Some w'')" "ref_tsc \<le> d"
    "wheel_ok addrs w''" "wheel_frame w w''" "hand w'' = hand w1" "ready_queue w'' = ready_queue w1"
    "pending w'' = filter (\<lambda>x. fst x \<le> slot_time (hand w1) (wslot_width_tsc w) d) (pending w1) @
      (slot_time (hand w1) (wslot_width_tsc w) d, ent) #
      filter (\<lambda>x. slot_time (hand w1) (wslot_width_tsc w) d < fst x) (pending w1)"
    by (rule wheel_insert_ok [OF ok assms(4) res])
  have w'': "w'' = w'" using w(2) assms(2) by simp
  define T where "T = slot_time (hand w1) (wslot_width_tsc w) d"
  note ins = w(3-8) [unfolded w'' T_def [symmetric]]
  have inv1: "wheel_inv addrs w1 ref_tsc H out" by (rule wheel_inv_reap [OF assms(1) w(1) assms(3,4)])
  have ok1: "wheel_ok addrs w1" using inv1 by (simp add: wheel_inv_def)
  have "\<exists>w'. reap ref_tsc w = Some (Some w') \<and> wheel_frame w w'" using reap_ok [OF ok assms(4)] by blast
  then have d1: "wslot_width_tsc w1 = wslot_width_tsc w" "wslot_width_tsc w' = wslot_width_tsc w"
    using w(1) ins(3) by (auto simp: wheel_frame_def)
  have pos: "0 < wslot_width_tsc w" using ok by (simp add: wheel_ok_def)
  from inv1 obtain rel G where o: "wheel_order w1 ref_tsc H out rel G" by (auto simp: wheel_inv_def)
  have h1: "ref_tsc < hand w1" "hand w1 \<le> ref_tsc + wslot_width_tsc w" using inv1 d1 by (auto simp: wheel_inv_def)
  note od = o [unfolded wheel_order_def d1(1)]
  let ?n = "length H" and ?H = "H @ [(ent, d)]"
  let ?g = "\<lambda>H x. (fst x, fst (H ! snd x))"
  let ?A = "filter (\<lambda>x. fst x \<le> T) G" and ?B = "filter (\<lambda>x. T < fst x) G"
  have p: "pending w1 = map (?g H) G" using od by blast
  have perm: "mset (rel @ map snd G) = mset [0..<?n]" using od by blast
  then have "set (rel @ map snd G) = {0..<?n}" by (metis mset_eq_setD set_upt)
  then have small: "i < ?n" if "i \<in> set rel \<union> snd ` set G" for i using that by auto
  have H: "?H ! i = H ! i" if "i \<in> set rel \<union> snd ` set G" for i using small [OF that] by (simp add: nth_append)
  have Gb: "snd (H ! i) \<le> t \<and> t \<le> snd (H ! i) + wslot_width_tsc w" if "(t, i) \<in> set G" for t i
    using od that by fastforce
  have HG: "?H ! i = H ! i" if "(t, i) \<in> set G" for t i using H [of i] that by force
  have "sorted (map fst G)" using pending_sorted [OF ok1] by (simp add: p o_def)
  note sp = sorted_filter_split [OF this, of T]
  have eq: "rel @ map snd G = (rel @ map snd ?A) @ map snd ?B" using arg_cong [OF sp, of "map snd"] by simp
  have Td: "d \<le> T" "T \<le> d + wslot_width_tsc w"
    using slot_time_bounds [OF pos, of "hand w1" d] h1 ins(1) by (auto simp: T_def)
  have late: "d \<le> snd (H ! snd x)" if x: "x \<in> set G" "T < fst x" for x
  proof (rule ccontr)
    assume "\<not> d \<le> snd (H ! snd x)"
    moreover obtain k where "fst x = hand w1 + k * wslot_width_tsc w"
      using pending_time [OF ok1, of "?g H x"] x(1) p d1 by auto
    moreover have "fst x \<le> snd (H ! snd x) + wslot_width_tsc w" using od x(1) by blast
    ultimately have "fst x \<le> T" unfolding T_def by (intro slot_time_mono [OF pos]) auto
    then show False using x(2) by simp
  qed
  have "wheel_order w' ref_tsc ?H out rel (?A @ (T, ?n) # ?B)"
    unfolding wheel_order_def
  proof (intro conjI)
    show "out @ ready_queue w' = map (\<lambda>i. fst (?H ! i)) rel" using od H by (simp add: ins(5) cong: map_cong)
    show "pending w' = map (?g ?H) (?A @ (T, ?n) # ?B)"
      using HG by (auto simp: ins(6) p filter_map o_def)
    have "mset (rel @ map snd (?A @ (T, ?n) # ?B)) = add_mset ?n (mset (rel @ map snd G))" unfolding eq by simp
    then show "mset (rel @ map snd (?A @ (T, ?n) # ?B)) = mset [0..<length ?H]" using perm by simp
    have "sorted_wrt (not_overtaken ?H) (rel @ map snd G)"
      using od by (auto simp: not_overtaken_def H elim!: sorted_wrt_mono_rel [rotated])
    then have "sorted_wrt (not_overtaken ?H) ((rel @ map snd ?A) @ map snd ?B)" unfolding eq .
    moreover have "not_overtaken ?H i ?n" if "i \<in> set rel \<union> snd ` set G" for i
      using small [OF that] by (simp add: not_overtaken_def)
    moreover have "not_overtaken ?H ?n (snd x)" if "x \<in> set ?B" for x
      using late [of x] that H by (auto simp: not_overtaken_def)
    ultimately show "sorted_wrt (not_overtaken ?H) (rel @ map snd (?A @ (T, ?n) # ?B))"
      by (auto simp: sorted_wrt_append)
    show "\<forall>i\<in>set rel. snd (?H ! i) \<le> ref_tsc" using od H by auto
    show "\<forall>x\<in>set (?A @ (T, ?n) # ?B). snd (?H ! snd x) \<le> fst x \<and> fst x \<le> snd (?H ! snd x) + wslot_width_tsc w'"
      using Gb HG Td by (auto simp: d1)
  qed
  then show ?thesis using ins(2,4) h1 d1 by (auto simp: wheel_inv_def)
qed

lemma fill_pool_ok:
  assumes "cb_inv p" "cb_len p + length as < cb_slots p"
  shows "\<exists>p'. fill_pool as p = Some p' \<and> cb_inv p' \<and> cb_slots p' = cb_slots p \<and>
    mset (cb_list p') = mset as + mset (cb_list p)"
  using assms
proof (induction as arbitrary: p)
  case (Cons a as)
  have room: "cb_len p < cb_slots p - 1" using Cons.prems(2) by simp
  obtain p1 where p1: "cb_push_front a p = (True, p1)" "cb_inv p1" "cb_list p1 = a # cb_list p" "cb_slots p1 = cb_slots p"
    by (rule cb_push_front_ok [OF Cons.prems(1) room])
  have "cb_len p1 = Suc (cb_len p)" using arg_cong [OF p1(3), of length] by simp
  then have "cb_len p1 + length as < cb_slots p1" using Cons.prems(2) p1(4) by simp
  from Cons.IH [OF p1(2) this] show ?case using p1 by auto
qed simp

lemma TimingWheel_new_ok:
  assumes "TimingWheel_new width horizon n base = Some w" "0 < width" "0 < n" "n * kWheelBucketCap < 2 ^ 31"
    and "base + width * (n + 1) < 2 ^ 61"
  shows "wheel_inv [0..<n * kWheelBucketCap] w base [] []"
    "wslot_width_tsc w = width" "length (wheel w) = n" "horizon_tsc w = horizon"
proof -
  let ?N = "n * kWheelBucketCap"
  have len: "cb_len (cb_new (0 :: nat) ?N) = 0" by (metis cb_new_list length_cb_list list.size(3))
  obtain p where p: "fill_pool [0..<?N] (cb_new 0 ?N) = Some p" "cb_inv p" "cb_slots p = ?N + 1"
    "mset (cb_list p) = mset [0..<?N]"
    using fill_pool_ok [of "cb_new 0 ?N" "[0..<?N]"] cb_new_inv [OF assms(4), of "0 :: nat"] cb_new_slots [OF assms(4), of "0 :: nat"]
      cb_new_list [of "0 :: nat" ?N] len by auto
  let ?s = "\<lambda>i. \<lparr>tx_tsc = tsc_wrap (base + (i + 1) * width), bkts = [\<lparr>bkt_addr = ?N + i, bkt_entries = []\<rparr>]\<rparr>"
  have w: "w = \<lparr>wslot_width_tsc = width, horizon_tsc = horizon, wheel = map ?s [0..<n], cur_wslot = 0, bkt_pool = p,
      ready_entries = 0, ready_queue = []\<rparr>"
    using assms(1) p(1) by (simp add: TimingWheel_new_def Let_def)
  show f: "wslot_width_tsc w = width" "length (wheel w) = n" "horizon_tsc w = horizon" by (simp_all add: w)
  have g: "cur_wslot w = 0" "bkt_pool w = p" by (simp_all add: w)
  have r: "ring w = map ?s [0..<n]" by (simp add: ring_def w)
  have tx: "tsc_wrap (base + (i + 1) * width) = base + (i + 1) * width" if "i < n" for i
  proof -
    have "(i + 1) * width \<le> (n + 1) * width" using that by (intro mult_le_mono1) simp
    then have "base + (i + 1) * width < 2 ^ 61" using assms(5) unfolding mult.commute [of width] by linarith
    then show ?thesis unfolding tsc_wrap_def by (rule mod_less)
  qed
  have h: "hand w = base + width" using tx [OF assms(3)] assms(3) by (simp add: hand_def w)
  have "chained (ring w) = []" by (simp add: chained_def r)
  then have "wheel_ok [0..<?N] w"
    using assms(2,3) p(2-4) tx by (auto simp: wheel_ok_def f g h r chain_ok_def kWheelBucketCap_def)
  moreover have "pending w = []" by (simp add: pending_def r slot_items_def slot_entries_def)
  then have "wheel_order w base [] [] [] []" by (simp add: wheel_order_def w)
  ultimately show "wheel_inv [0..<?N] w base [] []" using h assms(2) f(1) by (auto simp: wheel_inv_def)
qed

lemma wheel_inv_take:
  assumes "wheel_inv addrs w clock H out" "ready_queue w = x # q"
  shows "wheel_inv addrs (w\<lparr>ready_queue := q\<rparr>) clock H (out @ [x])"
  using assms by (simp add: wheel_inv_def wheel_ok_def wheel_order_def hand_def ring_def pending_def)

lemma queue_on_timing_wheel_insert:
  assumes "queue_on_timing_wheel sum_tsc prev ref_tsc ent chunk_size bypass w = Some (Some (True, d, w'))"
  shows "wheel_insert ent ref_tsc d w = Some (Some w')"
  using assms by (auto simp: queue_on_timing_wheel_def Let_def split: if_splits option.splits)

lemma wheel_reach_inv:
  assumes "wheel_reach width horizon n w clock H out"
  shows "wheel_inv [0..<n * kWheelBucketCap] w clock H out \<and>
    wslot_width_tsc w = width \<and> length (wheel w) = n \<and> horizon_tsc w = horizon"
  using assms
proof induction
  case (wheel_start base w)
  then show ?case using TimingWheel_new_ok by blast
next
  case (wheel_queue w clock H out sum_tsc prev ref_tsc ent chunk_size bypass d w')
  note ins = queue_on_timing_wheel_insert [OF wheel_queue.hyps(2)]
  have fit: "ref_tsc + wslot_width_tsc w * length (wheel w) < 2 ^ 61" using wheel_queue by simp
  have ok: "wheel_ok [0..<n * kWheelBucketCap] w" using wheel_queue.IH by (simp add: wheel_inv_def)
  have "wheel_frame w w'" by (rule wheel_insert_ok [OF ok fit, of ent d]) (use ins in auto)
  then show ?case using wheel_inv_queue [OF _ ins wheel_queue.hyps(3) fit] wheel_queue.IH
    by (auto simp: wheel_frame_def)
next
  case (wheel_reap w clock H out t w')
  have fit: "t + wslot_width_tsc w * length (wheel w) < 2 ^ 61" using wheel_reap by simp
  have "wheel_ok [0..<n * kWheelBucketCap] w" using wheel_reap.IH by (simp add: wheel_inv_def)
  from reap_ok [OF this fit] have "wheel_frame w w'" using wheel_reap.hyps(2) by auto
  then show ?case using wheel_inv_reap [OF _ wheel_reap.hyps(2,3) fit] wheel_reap.IH
    by (auto simp: wheel_frame_def)
next
  case (wheel_take w clock H out x q)
  then show ?case using wheel_inv_take [of _ w clock H out x q] by simp
qed

section \<open>Properties\<close>


text \<open>A wheel of five slots of width 10 from time 100 that takes an entry due at 115 at time 105.\<close>

lemma wheel_insert_succeeds:
  assumes "wheel_reach width horizon num_wslots w clock H out" "horizon \<le> (num_wslots - 1) * width"
    and "ref_tsc + width * num_wslots < 2 ^ 61" "ref_tsc \<le> d" "d - ref_tsc \<le> horizon"
    and "length (pending w) < kWheelBucketCap * (num_wslots * kWheelBucketCap)"
  shows "\<exists>w'. wheel_insert ent ref_tsc d w = Some (Some w')"
proof -
  have inv: "wheel_inv [0..<num_wslots * kWheelBucketCap] w clock H out" "wslot_width_tsc w = width"
    "length (wheel w) = num_wslots" "horizon_tsc w = horizon"
    using wheel_reach_inv [OF assms(1)] by auto
  have ok: "wheel_ok [0..<num_wslots * kWheelBucketCap] w" using inv(1) by (simp add: wheel_inv_def)
  have fit: "ref_tsc + wslot_width_tsc w * length (wheel w) < 2 ^ 61" using assms(3) inv by simp
  show ?thesis
    by (rule wheel_insert_ok [OF ok fit, of ent d]) (use assms(2,4-6) inv in auto)
qed

lemma example_wheel_reach:
  "\<exists>w. wheel_reach 10 40 5 w 105 [(7, 115)] [] \<and> length (pending w) \<le> 1"
proof -
  have "cb_len (cb_new (0 :: nat) 25) = 0" by (metis cb_new_list length_cb_list list.size(3))
  then obtain p where "fill_pool [0..<25] (cb_new 0 25) = Some p"
    using fill_pool_ok [of "cb_new (0 :: nat) 25" "[0..<25]"] cb_new_inv [of 25 "0 :: nat"] cb_new_slots [of 25 "0 :: nat"]
    by auto
  then obtain w0 where "TimingWheel_new 10 40 5 100 = Some w0" by (auto simp: TimingWheel_new_def kWheelBucketCap_def)
  then have r0: "wheel_reach 10 40 5 w0 100 [] []" by (rule wheel_start) (simp_all add: kWheelBucketCap_def)
  have "pending w0 = []"
    using wheel_reach_inv [OF r0] by (auto simp: wheel_inv_def wheel_order_def)
  then obtain w where "wheel_insert 7 105 115 w0 = Some (Some w)"
    using wheel_insert_succeeds [OF r0, of 105 115 7] by (auto simp: kWheelBucketCap_def)
  then have "queue_on_timing_wheel 115 0 105 7 9000 True w0 = Some (Some (True, 115, w))"
    by (simp add: queue_on_timing_wheel_def kBypassTimingWheelThres_def)
  then have r: "wheel_reach 10 40 5 w 105 ([] @ [(7, 115)]) []" by (rule wheel_queue [OF r0]) simp_all
  then have "wheel_inv [0..<5 * kWheelBucketCap] w 105 [(7, 115)] []" using wheel_reach_inv by fastforce
  then obtain rel and G :: "(nat \<times> nat) list" where o: "mset (rel @ map snd G) = mset [0..<1 :: nat]" "length (pending w) = length G"
    by (auto simp: wheel_inv_def wheel_order_def)
  have "length (rel @ map snd G) = 1" using arg_cong [OF o(1), of size] by simp
  then show ?thesis using r o(2) by (intro exI [of _ w]) auto
qed




end
