(* ===== verification/RdmaFlow.thy ===== *)
theory RdmaFlow
  imports Pcb ImmData EqdsPacer TimerManager TimingWheel
begin

text \<open>
  The state of one engine towards one peer: \<open>SubUcclFlow\<close>, \<open>RecvRequest\<close>, \<open>RXTracking\<close> and
  \<open>TXTracking\<close> of \<open>collective/rdma/rdma_io.h\<close> and the part of \<open>RDMAContext\<close> (\<open>transport.h\<close>) that the
  receive, acknowledge and retransmit paths touch. Flows are numbered by their flow index; a
  pointer to a receive request of a flow is a number, 0 the null pointer and \<open>rid + 1\<close> the address
  of \<open>reqs_[rid]\<close>, so that pointers compare as the addresses do.

  Calls that leave the sources are recorded: \<open>rx_done\<close> the wake-ups of receivers with the length
  they report, \<open>tx_done\<close> the wake-ups of senders, \<open>acks_posted\<close> the acknowledgement packets given
  to the NIC, \<open>data_posted\<close> the work requests given to a data queue pair, \<open>rtx_posted\<close> the
  retransmitted chunks, \<open>pull_requests\<close> the messages to the pacer. The timer manager of the engine,
  the pacing wheel and the pool of work requests are part of the state of the context.
\<close>

section \<open>Receive requests\<close>

definition kMaxReq :: nat where
  "kMaxReq = 16"

datatype req_type = UNUSED | RECV

record RecvRequest =
  req_type :: req_type
  req_flow :: nat
  received_bytes :: nat

definition RecvRequest_zero :: RecvRequest where
  "RecvRequest_zero = \<lparr>req_type = UNUSED, req_flow = 0, received_bytes = 0\<rparr>"

section \<open>Tracking of received chunks\<close>

definition kMAXRXOOO :: nat where
  "kMAXRXOOO = 8"

definition kMAXCumWQE :: nat where
  "kMAXCumWQE = 4"

text \<open>\<open>kMAXCumBytes\<close> depends on the configured chunk size; 64 KB is the default.\<close>

definition kMAXCumBytes :: nat where
  "kMAXCumBytes = kMAXCumWQE * (64 * 2 ^ 10)"

record RXTracking =
  ready_csn :: "(UINT_CSN \<times> nat) list"
  ooo :: bool
  cumulative_wqe :: nat
  cumulative_bytes :: nat
  consectutive_ooo :: nat

definition RXTracking_new :: RXTracking where
  "RXTracking_new = \<lparr>ready_csn = [], ooo = False, cumulative_wqe = 0, cumulative_bytes = 0,
     consectutive_ooo = 0\<rparr>"

definition cumulate_wqe :: "RXTracking \<Rightarrow> RXTracking" where
  "cumulate_wqe r = r\<lparr>cumulative_wqe := u32_wrap (cumulative_wqe r + 1)\<rparr>"

definition cumulate_bytes :: "nat \<Rightarrow> RXTracking \<Rightarrow> RXTracking" where
  "cumulate_bytes bytes r = r\<lparr>cumulative_bytes := u32_wrap (cumulative_bytes r + bytes)\<rparr>"

definition encounter_ooo :: "RXTracking \<Rightarrow> RXTracking" where
  "encounter_ooo r =
     (let n = u32_wrap (consectutive_ooo r + 1)
      in if n \<ge> kMAXRXOOO then r\<lparr>ooo := True, consectutive_ooo := 0\<rparr>
         else r\<lparr>consectutive_ooo := n\<rparr>)"

definition need_imm_ack :: "RXTracking \<Rightarrow> bool" where
  "need_imm_ack r \<longleftrightarrow> ooo r \<or> cumulative_wqe r = kMAXCumWQE \<or> cumulative_bytes r \<ge> kMAXCumBytes"

definition clear_imm_ack :: "RXTracking \<Rightarrow> RXTracking" where
  "clear_imm_ack r = r\<lparr>ooo := False, cumulative_wqe := 0, cumulative_bytes := 0, consectutive_ooo := 0\<rparr>"

text \<open>
  \<open>ready_csn_\<close> is a \<open>std::set\<close> of pairs, kept as the list of its elements in iteration order. The
  order of pairs is lexicographic over \<open>UINT_CSN::operator<\<close>, the serial comparison.
\<close>

definition ready_less :: "UINT_CSN \<times> nat \<Rightarrow> UINT_CSN \<times> nat \<Rightarrow> bool" where
  "ready_less a b \<longleftrightarrow>
     seqno_lt (fst a) (fst b) \<or> (\<not> seqno_lt (fst b) (fst a) \<and> snd a < snd b)"

fun ready_insert :: "UINT_CSN \<times> nat \<Rightarrow> (UINT_CSN \<times> nat) list \<Rightarrow> (UINT_CSN \<times> nat) list" where
  "ready_insert x [] = [x]"
| "ready_insert x (y # ys) =
     (if ready_less x y then x # y # ys
      else if ready_less y x then y # ready_insert x ys
      else y # ys)"

section \<open>Tracking of sent chunks\<close>

text \<open>
  Work requests and send requests live at addresses; a tracked chunk refers to both. The id of a
  work request carries a sequence number and the flow.
\<close>

datatype wr_opcode = RDMA_WRITE_WITH_IMM | RDMA_WRITE | RDMA_READ

record wr_ex =
  wx_addr :: nat
  wx_length :: nat
  wx_opcode :: wr_opcode
  wx_remote_addr :: nat
  wx_imm :: IMMData
  wx_wr_id :: "u32 \<times> nat"
  wx_ureq :: nat
  wx_qpidx :: nat

datatype ReqType = ReqTx | ReqRx | ReqFlush | ReqTxRC | ReqRxRC | ReqRead | ReqWrite

record ucclRequest =
  ureq_type :: ReqType
  ureq_flow :: nat
  data_len :: nat
  inc_backlog :: bool
  laddr :: nat
  raddr :: nat
  send_rid :: nat
  sent_offset :: nat
  acked_bytes :: nat

record ChunkTrack =
  ct_ureq :: nat
  ct_wr_ex :: nat
  ct_timestamp :: nat
  ct_csn :: u32
  ct_last_chunk :: bool

section \<open>Subflows\<close>

record SubUcclFlow =
  fid :: nat
  next_ack_path :: u16
  unacked_bytes :: nat
  in_wheel_cnt :: nat
  pcb :: PCB
  backlog_bytes :: nat
  rto_armed :: bool
  in_rtx :: bool
  unacked_chunks :: "ChunkTrack list"
  rxtracking :: RXTracking
  reqs :: "RecvRequest list"
  rx_done :: "(nat \<times> nat) list"
  tx_done :: "nat list"

definition SubUcclFlow_new :: "nat \<Rightarrow> SubUcclFlow" where
  "SubUcclFlow_new f = \<lparr>fid = f, next_ack_path = 0, unacked_bytes = 0, in_wheel_cnt = 0, pcb = PCB_new,
     backlog_bytes = 0, rto_armed = False, in_rtx = False, unacked_chunks = [],
     rxtracking = RXTracking_new, reqs = replicate kMaxReq RecvRequest_zero, rx_done = [], tx_done = []\<rparr>"

text \<open>\<open>alloc_recvreq\<close>: the id of the first unused request.\<close>

definition alloc_recvreq :: "SubUcclFlow \<Rightarrow> nat option" where
  "alloc_recvreq sf = find (\<lambda>i. req_type (reqs sf ! i) = UNUSED) [0..<kMaxReq]"

definition free_recvreq :: "nat \<Rightarrow> SubUcclFlow \<Rightarrow> SubUcclFlow" where
  "free_recvreq rid sf = sf\<lparr>reqs := (reqs sf)[rid := RecvRequest_zero]\<rparr>"

section \<open>Acknowledgement packets and the context\<close>

record UcclSackHdr =
  sh_fid :: nat
  sh_path :: u16
  sh_ackno :: u16
  sh_sack_bitmap_count :: u16
  sh_remote_queueing :: nat
  sh_sack_bitmap :: "u64 list"

text \<open>Which of the three context classes the engine runs.\<close>

datatype cc_kind = EQDSRDMAContext | SwiftRDMAContext | TimelyRDMAContext

record RDMAContext =
  cc_kind :: cc_kind
  rc_mode :: bool
  flows :: "nat \<Rightarrow> SubUcclFlow"
  ack_list :: "nat list"
  tx_ack_wrs :: "UcclSackHdr list list"
  acks_posted :: "UcclSackHdr list"
  pull_requests :: "nat list"
  engine_unacked_bytes :: nat
  rtx_posted :: "(nat \<times> wr_ex) list"
  is_roce :: bool
  bypass_pacing :: bool
  chunk_size :: nat
  mtu_bytes :: nat
  rto :: TimerManager
  pacing_wheel :: TimingWheel
  wr_ex_pool :: BuffPool
  wr_exs :: "nat \<Rightarrow> wr_ex"
  ureqs :: "nat \<Rightarrow> ucclRequest"
  last_qp_choice :: nat
  consecutive_same_choice_bytes :: nat
  data_posted :: "(nat \<times> wr_ex) list"

text \<open>
  A context after construction. The pool of work requests has 4096 elements of 192 bytes, each
  prepared for an RDMA write with immediate.
\<close>

definition kNumWr :: nat where
  "kNumWr = 4096"

definition kWrSize :: nat where
  "kWrSize = 192"

definition wr_ex_init :: wr_ex where
  "wr_ex_init = \<lparr>wx_addr = 0, wx_length = 0, wx_opcode = RDMA_WRITE_WITH_IMM, wx_remote_addr = 0, wx_imm = 0,
     wx_wr_id = (0, 0), wx_ureq = 0, wx_qpidx = 0\<rparr>"

definition RDMAContext_new ::
  "cc_kind \<Rightarrow> bool \<Rightarrow> bool \<Rightarrow> bool \<Rightarrow> nat \<Rightarrow> nat \<Rightarrow> nat \<Rightarrow> TimingWheel \<Rightarrow> (nat \<Rightarrow> ucclRequest) \<Rightarrow> nat \<Rightarrow> RDMAContext" where
  "RDMAContext_new cc rc roce bypass chunk mtu timeout_cycles w requests pool_base =
     \<lparr>cc_kind = cc, rc_mode = rc, flows = SubUcclFlow_new, ack_list = [], tx_ack_wrs = [], acks_posted = [],
      pull_requests = [], engine_unacked_bytes = 0, rtx_posted = [], is_roce = roce, bypass_pacing = bypass,
      chunk_size = chunk, mtu_bytes = mtu, rto = TimerManager_new timeout_cycles, pacing_wheel = w,
      wr_ex_pool = BuffPool_new pool_base kNumWr kWrSize, wr_exs = (\<lambda>_. wr_ex_init), ureqs = requests,
      last_qp_choice = 0, consecutive_same_choice_bytes = 0, data_posted = []\<rparr>"

definition upd_flow :: "nat \<Rightarrow> (SubUcclFlow \<Rightarrow> SubUcclFlow) \<Rightarrow> RDMAContext \<Rightarrow> RDMAContext" where
  "upd_flow f g c = c\<lparr>flows := (flows c)(f := g (flows c f))\<rparr>"

definition upd_pcb :: "(PCB \<Rightarrow> PCB) \<Rightarrow> SubUcclFlow \<Rightarrow> SubUcclFlow" where
  "upd_pcb g sf = sf\<lparr>pcb := g (pcb sf)\<rparr>"

lemma upd_flow_sel [simp]:
  "flows (upd_flow f g c) = (flows c)(f := g (flows c f))" "cc_kind (upd_flow f g c) = cc_kind c"
  "rc_mode (upd_flow f g c) = rc_mode c" "ack_list (upd_flow f g c) = ack_list c"
  "tx_ack_wrs (upd_flow f g c) = tx_ack_wrs c" "acks_posted (upd_flow f g c) = acks_posted c"
  "pull_requests (upd_flow f g c) = pull_requests c"
  "engine_unacked_bytes (upd_flow f g c) = engine_unacked_bytes c" "rtx_posted (upd_flow f g c) = rtx_posted c"
  "is_roce (upd_flow f g c) = is_roce c" "bypass_pacing (upd_flow f g c) = bypass_pacing c"
  "chunk_size (upd_flow f g c) = chunk_size c" "mtu_bytes (upd_flow f g c) = mtu_bytes c"
  "rto (upd_flow f g c) = rto c" "pacing_wheel (upd_flow f g c) = pacing_wheel c"
  "wr_ex_pool (upd_flow f g c) = wr_ex_pool c" "wr_exs (upd_flow f g c) = wr_exs c" "ureqs (upd_flow f g c) = ureqs c"
  "last_qp_choice (upd_flow f g c) = last_qp_choice c"
  "consecutive_same_choice_bytes (upd_flow f g c) = consecutive_same_choice_bytes c"
  "data_posted (upd_flow f g c) = data_posted c"
  by (simp_all add: upd_flow_def)

lemma upd_pcb_sel [simp]:
  "pcb (upd_pcb g sf) = g (pcb sf)" "rxtracking (upd_pcb g sf) = rxtracking sf" "reqs (upd_pcb g sf) = reqs sf"
  "rx_done (upd_pcb g sf) = rx_done sf" "unacked_chunks (upd_pcb g sf) = unacked_chunks sf"
  "unacked_bytes (upd_pcb g sf) = unacked_bytes sf" "fid (upd_pcb g sf) = fid sf"
  "next_ack_path (upd_pcb g sf) = next_ack_path sf" "rto_armed (upd_pcb g sf) = rto_armed sf"
  "in_rtx (upd_pcb g sf) = in_rtx sf" "tx_done (upd_pcb g sf) = tx_done sf"
  "backlog_bytes (upd_pcb g sf) = backlog_bytes sf"
  by (simp_all add: upd_pcb_def)

end
