(* ===== verification/RdmaRx.thy ===== *)
theory RdmaRx
  imports RdmaFlow
begin

text \<open>
  The receive path of \<open>collective/rdma/transport.cc\<close>: \<open>uc_rx_chunk\<close> for data chunks, \<open>uc_rx_rtx_chunk\<close> for
  retransmitted ones, \<open>rc_rx_chunk\<close> for the reliable mode, \<open>try_update_csn\<close>, and the acknowledgements
  (\<open>craft_ack\<close>, \<open>try_post_acks\<close>, \<open>uc_post_acks\<close>, \<open>flush_acks\<close>). A failed \<open>UCCL_CHECK\<close> is \<open>None\<close>. The
  immediate is given in host order; the microseconds a header reports come from floating-point
  clock conversion and are an argument. Copying the payload of a retransmission is left out.

  The correctness of the path is stated against a receiver that remembers the set of chunks it
  accepted, numbered without bound: \<open>rx_rel\<close> relates the two, and the lemmas show that every
  handler keeps the relation.
\<close>

section \<open>Delivery in order\<close>

definition complete_req :: "nat \<Rightarrow> SubUcclFlow \<Rightarrow> SubUcclFlow" where
  "complete_req rid sf =
     free_recvreq rid (sf\<lparr>rx_done := rx_done sf @ [(rid, received_bytes (reqs sf ! rid))]\<rparr>)"

definition deliver_head :: "bool \<Rightarrow> nat \<Rightarrow> (UINT_CSN \<times> nat) list \<Rightarrow> SubUcclFlow \<Rightarrow> SubUcclFlow" where
  "deliver_head rc req rest sf =
     (let sf1 = (if req \<noteq> 0 then complete_req (req - 1) sf else sf);
          sf2 = sf1\<lparr>rxtracking := (rxtracking sf1)\<lparr>ready_csn := rest\<rparr>\<rparr>;
          sf3 = upd_pcb advance_rcv_nxt sf2
      in if \<not> rc then upd_pcb sack_bitmap_shift_left_one sf3 else sf3)"

lemma deliver_head_ready [simp]: "ready_csn (rxtracking (deliver_head rc req rest sf)) = rest"
  by (simp add: deliver_head_def Let_def)

function try_update_csn :: "bool \<Rightarrow> SubUcclFlow \<Rightarrow> SubUcclFlow" where
  "try_update_csn rc sf =
     (case ready_csn (rxtracking sf) of
        [] \<Rightarrow> sf
      | (csn, req) # rest \<Rightarrow>
          (if to_uint32 csn = to_uint32 (rcv_nxt (pcb sf))
           then try_update_csn rc (deliver_head rc req rest sf)
           else sf))"
  by pat_completeness auto
termination
  by (relation "measure (\<lambda>(rc, sf). length (ready_csn (rxtracking sf)))") auto

declare try_update_csn.simps [simp del]

section \<open>Acknowledgements\<close>

definition kMaxAckWRs :: nat where
  "kMaxAckWRs = 8"

definition craft_ack :: "nat \<Rightarrow> SubUcclFlow \<Rightarrow> UcclSackHdr" where
  "craft_ack queueing sf =
     \<lparr>sh_fid = fid sf, sh_path = next_ack_path sf, sh_ackno = ucast (to_uint32 (ackno (pcb sf))),
      sh_sack_bitmap_count = ucast (sack_bitmap_count (pcb sf)), sh_remote_queueing = queueing,
      sh_sack_bitmap = sack_bitmap (pcb sf)\<rparr>"

definition flush_acks :: "RDMAContext \<Rightarrow> RDMAContext" where
  "flush_acks c =
     (if tx_ack_wrs c = [] then c
      else c\<lparr>acks_posted := acks_posted c @ concat (tx_ack_wrs c), tx_ack_wrs := []\<rparr>)"

definition try_post_acks :: "UcclSackHdr list \<Rightarrow> bool \<Rightarrow> RDMAContext \<Rightarrow> RDMAContext" where
  "try_post_acks acks force c =
     (if length acks = 0 then c
      else (let c1 = c\<lparr>tx_ack_wrs := tx_ack_wrs c @ [acks]\<rparr>
            in if force \<or> length (tx_ack_wrs c1) = kMaxAckWRs then flush_acks c1 else c1))"

text \<open>\<open>queueing\<close> gives the delay to report for each flow.\<close>

definition uc_post_acks :: "(nat \<Rightarrow> nat) \<Rightarrow> RDMAContext \<Rightarrow> RDMAContext" where
  "uc_post_acks queueing c =
     (let acks = map (\<lambda>f. craft_ack (queueing f) (flows c f)) (ack_list c)
      in (try_post_acks acks False c)\<lparr>ack_list := []\<rparr>)"

section \<open>Congestion control hooks\<close>

definition EventOnRxData :: "nat \<Rightarrow> IMMData \<Rightarrow> RDMAContext \<Rightarrow> RDMAContext" where
  "EventOnRxData f imm c =
     (case cc_kind c of
        EQDSRDMAContext \<Rightarrow>
          (let (higher, cc) = handle_pull_target (ucast (GetTarget imm)) (eqds_cc (pcb (flows c f)));
               c1 = upd_flow f (upd_pcb (\<lambda>p. p\<lparr>eqds_cc := cc\<rparr>)) c
           in if higher then c1\<lparr>pull_requests := pull_requests c1 @ [f]\<rparr> else c1)
      | SwiftRDMAContext \<Rightarrow> c
      | TimelyRDMAContext \<Rightarrow> c)"

definition EventOnRxRTXData :: "nat \<Rightarrow> IMMData \<Rightarrow> RDMAContext \<Rightarrow> RDMAContext" where
  "EventOnRxRTXData f imm c =
     (case cc_kind c of
        EQDSRDMAContext \<Rightarrow> EventOnRxData f imm c
      | SwiftRDMAContext \<Rightarrow> c
      | TimelyRDMAContext \<Rightarrow> c)"

section \<open>Handlers of received chunks\<close>

definition kReassemblyMaxSeqnoDistance :: nat where
  "kReassemblyMaxSeqnoDistance = kSackBitmapSize"

definition retr_chunk_hdr_size :: nat where
  "retr_chunk_hdr_size = 12"

text \<open>The request of an accepted chunk, and the insertion of the chunk into the ready set.\<close>

definition add_received :: "nat \<Rightarrow> nat \<Rightarrow> SubUcclFlow \<Rightarrow> SubUcclFlow" where
  "add_received rid bytes sf =
     sf\<lparr>reqs := (reqs sf)[rid := (reqs sf ! rid)\<lparr>received_bytes :=
         u32_wrap (received_bytes (reqs sf ! rid) + bytes)\<rparr>]\<rparr>"

definition mark_ready :: "UINT_CSN \<Rightarrow> nat \<Rightarrow> SubUcclFlow \<Rightarrow> SubUcclFlow" where
  "mark_ready csn req sf =
     sf\<lparr>rxtracking := (rxtracking sf)\<lparr>ready_csn := ready_insert (csn, req) (ready_csn (rxtracking sf))\<rparr>\<rparr>"

definition add_to_ack_list :: "nat \<Rightarrow> RDMAContext \<Rightarrow> RDMAContext" where
  "add_to_ack_list f c = (if f \<notin> set (ack_list c) then c\<lparr>ack_list := ack_list c @ [f]\<rparr> else c)"

definition count_drop :: "PCB \<Rightarrow> PCB" where
  "count_drop p = p\<lparr>stats_chunk_drop := stats_chunk_drop p + 1\<rparr>"

definition count_retr_drop :: "PCB \<Rightarrow> PCB" where
  "count_retr_drop p = p\<lparr>stats_retr_chunk_drop := stats_retr_chunk_drop p + 1\<rparr>"

definition uc_rx_chunk :: "nat \<Rightarrow> IMMData \<Rightarrow> u16 \<Rightarrow> nat \<Rightarrow> nat \<Rightarrow> RDMAContext \<Rightarrow> RDMAContext option" where
  "uc_rx_chunk byte_len imm qpidx now queueing c =
     (let last_chunk = (GetHINT imm \<noteq> 0);
          csn = UINT_CSN_of (GetCSN imm);
          rid = unat (GetRID imm);
          f = unat (GetFID imm);
          sf = flows c f;
          req = reqs sf ! rid
      in if req_type req \<noteq> RECV \<or> req_flow req \<noteq> f
         then Some (upd_flow f (upd_pcb count_drop) c)
         else
           (let ecsn = rcv_nxt (pcb sf);
                distance = unat (to_uint32 (csn_sub csn ecsn))
            in if seqno_lt csn ecsn then Some (upd_flow f (upd_pcb count_drop) c)
               else if distance > kReassemblyMaxSeqnoDistance
               then Some (upd_flow f (upd_pcb count_drop) c)
               else if sack_bitmap_bit_is_set distance (pcb sf) then None
               else
                 (case sack_bitmap_bit_set distance ((pcb sf)\<lparr>t_remote_nic_rx := now\<rparr>) of
                    None \<Rightarrow> None
                  | Some p \<Rightarrow>
                      (let sf1 = add_received rid byte_len (sf\<lparr>pcb := p\<rparr>);
                           sf2 = mark_ready csn (if last_chunk then rid + 1 else 0) sf1;
                           sf3 = try_update_csn (rc_mode c) sf2;
                           sf4 = (if distance \<noteq> 0 then sf3\<lparr>rxtracking := encounter_ooo (rxtracking sf3)\<rparr> else sf3);
                           sf5 = sf4\<lparr>rxtracking := cumulate_bytes byte_len (cumulate_wqe (rxtracking sf4)),
                                     next_ack_path := qpidx\<rparr>;
                           c1 = add_to_ack_list f (upd_flow f (\<lambda>_. sf5) c);
                           c2 = (if need_imm_ack (rxtracking sf5)
                                 then (let c' = upd_flow f (\<lambda>s. s\<lparr>rxtracking := clear_imm_ack (rxtracking s)\<rparr>)
                                                  (try_post_acks [craft_ack queueing sf5] True c1)
                                       in c'\<lparr>ack_list := remove1 f (ack_list c')\<rparr>)
                                 else c1)
                       in Some (EventOnRxData f imm c2)))))"

definition uc_rx_rtx_chunk :: "nat \<Rightarrow> IMMData \<Rightarrow> RDMAContext \<Rightarrow> RDMAContext option" where
  "uc_rx_rtx_chunk byte_len imm c =
     (let chunk_len = u32_sub byte_len retr_chunk_hdr_size;
          last_chunk = (GetHINT imm \<noteq> 0);
          csn = UINT_CSN_of (GetCSN imm);
          rid = unat (GetRID imm);
          f = unat (GetFID imm);
          sf = flows c f;
          req = reqs sf ! rid
      in if req_type req \<noteq> RECV \<or> req_flow req \<noteq> f
         then Some (upd_flow f (upd_pcb count_retr_drop) c)
         else
           (let ecsn = rcv_nxt (pcb sf);
                distance = unat (to_uint32 (csn_sub csn ecsn))
            in if seqno_lt csn ecsn then Some (upd_flow f (upd_pcb count_retr_drop) c)
               else if distance > kReassemblyMaxSeqnoDistance
               then Some (upd_flow f (upd_pcb count_retr_drop) c)
               else if sack_bitmap_bit_is_set distance (pcb sf)
               then Some (upd_flow f (upd_pcb count_retr_drop) c)
               else
                 (case sack_bitmap_bit_set distance
                         ((pcb sf)\<lparr>stats_accept_retr := stats_accept_retr (pcb sf) + 1\<rparr>) of
                    None \<Rightarrow> None
                  | Some p \<Rightarrow>
                      (let sf1 = add_received rid chunk_len (sf\<lparr>pcb := p\<rparr>);
                           sf2 = mark_ready csn (if last_chunk then rid + 1 else 0) sf1;
                           sf3 = try_update_csn (rc_mode c) sf2;
                           c1 = add_to_ack_list f (upd_flow f (\<lambda>_. sf3) c);
                           c2 = upd_flow f (\<lambda>s. s\<lparr>next_ack_path := 65535\<rparr>) c1
                       in Some (EventOnRxRTXData f imm c2)))))"

definition rc_rx_chunk :: "nat \<Rightarrow> IMMData \<Rightarrow> RDMAContext \<Rightarrow> RDMAContext option" where
  "rc_rx_chunk byte_len imm c =
     (let last_chunk = (GetHINT imm \<noteq> 0);
          csn = UINT_CSN_of (GetCSN imm);
          rid = unat (GetRID imm);
          f = unat (GetFID imm);
          sf = flows c f;
          req = reqs sf ! rid
      in if req_type req \<noteq> RECV \<or> req_flow req \<noteq> f then None
         else
           (let sf1 = add_received rid byte_len sf;
                sf2 = mark_ready csn (if last_chunk then rid + 1 else 0) sf1;
                sf3 = try_update_csn (rc_mode c) sf2
            in Some (EventOnRxData f imm (upd_flow f (\<lambda>_. sf3) c))))"

text \<open>Posting a receive: the request id the sender will put into the immediate, or \<open>-1\<close>.\<close>

definition supply_rx_buff :: "nat \<Rightarrow> RDMAContext \<Rightarrow> nat option \<times> RDMAContext" where
  "supply_rx_buff f c =
     (case alloc_recvreq (flows c f) of
        None \<Rightarrow> (None, c)
      | Some rid \<Rightarrow>
          (Some rid,
           upd_flow f (\<lambda>s. s\<lparr>reqs := (reqs s)[rid := \<lparr>req_type = RECV, req_flow = f, received_bytes = 0\<rparr>]\<rparr>) c))"

section \<open>The receiver that remembers every chunk\<close>

text \<open>
  \<open>R\<close> is the set of chunks accepted so far, \<open>N\<close> the number of chunks delivered in order and \<open>ptr k\<close>
  what the ready set stores with chunk \<open>k\<close> (the request it completes, or the null pointer).
  \<open>rx_pre\<close> holds in the middle of a handler, \<open>rx_rel\<close> between handlers, when \<open>N\<close> is the first
  missing chunk.
\<close>

definition rx_pre :: "nat \<Rightarrow> nat set \<Rightarrow> (nat \<Rightarrow> nat) \<Rightarrow> SubUcclFlow \<Rightarrow> bool" where
  "rx_pre N R ptr sf \<longleftrightarrow>
     {..<N} \<subseteq> R \<and> R \<subseteq> {..<N + 128} \<and>
     rcv_nxt (pcb sf) = csn_of N \<and>
     bitmap_ok (sack_bitmap (pcb sf)) \<and> bitmap_set (sack_bitmap (pcb sf)) = {i. N + i \<in> R} \<and>
     sack_bitmap_count (pcb sf) = of_nat (card {i. N + i \<in> R}) \<and>
     ready_csn (rxtracking sf) = map (\<lambda>k. (csn_of k, ptr k)) (sorted_list_of_set {k \<in> R. N \<le> k}) \<and>
     map fst (rx_done sf) = map (\<lambda>k. ptr k - 1) (filter (\<lambda>k. ptr k \<noteq> 0) [0..<N])"

definition rx_rel :: "nat \<Rightarrow> nat set \<Rightarrow> (nat \<Rightarrow> nat) \<Rightarrow> SubUcclFlow \<Rightarrow> bool" where
  "rx_rel N R ptr sf \<longleftrightarrow> rx_pre N R ptr sf \<and> N \<notin> R"

lemma csn_window_inj:
  assumes "N \<le> j" "j < N + 256" "N \<le> k" "k < N + 256" "csn_of j = csn_of k"
  shows "j = k"
proof -
  have "unat (csn_of j - csn_of N) = j - N" by (rule unat_csn_diff [OF assms(1,2)])
  moreover have "unat (csn_of k - csn_of N) = k - N" by (rule unat_csn_diff [OF assms(3,4)])
  ultimately show ?thesis using assms by simp
qed

lemma ready_less_window:
  assumes "N \<le> j" "j < N + 128" "N \<le> k" "k < N + 128" "j \<noteq> k"
  shows "ready_less (csn_of j, p) (csn_of k, q) \<longleftrightarrow> j < k"
proof -
  have "seqno_lt (csn_of j) (csn_of k) \<longleftrightarrow> j < k" "seqno_lt (csn_of k) (csn_of j) \<longleftrightarrow> k < j"
    using assms by (auto intro!: seqno_compare(1))
  then show ?thesis using assms(5) by (auto simp: ready_less_def)
qed

lemma ready_insert_insort:
  assumes "set (k # xs) \<subseteq> {N..<N + 128}" "k \<notin> set xs"
  shows "ready_insert (csn_of k, p) (map (\<lambda>j. (csn_of j, ptr j)) xs) =
    map (\<lambda>j. (csn_of j, (ptr(k := p)) j)) (insort k xs)"
  using assms
proof (induction xs)
  case Nil
  then show ?case by simp
next
  case (Cons y ys)
  then have ne: "k \<noteq> y" and y: "N \<le> y" "y < N + 128" "N \<le> k" "k < N + 128" by auto
  have "ready_less (csn_of k, p) (csn_of y, ptr y) \<longleftrightarrow> k < y"
    "ready_less (csn_of y, ptr y) (csn_of k, p) \<longleftrightarrow> y < k"
    using ready_less_window y ne by auto
  moreover have "map (\<lambda>j. (csn_of j, (ptr(k := p)) j)) ys = map (\<lambda>j. (csn_of j, ptr j)) ys"
    using Cons.prems(2) by (intro map_cong) auto
  ultimately show ?case using Cons ne by auto
qed

lemma rx_pre_finite: "rx_pre N R ptr sf \<Longrightarrow> finite R"
  by (auto simp: rx_pre_def intro: finite_subset)

lemma offsets_Suc: "{i. N + i \<in> R} - {0} = Suc ` {i. Suc N + i \<in> R}"
proof (rule set_eqI)
  fix x
  show "x \<in> {i. N + i \<in> R} - {0} \<longleftrightarrow> x \<in> Suc ` {i. Suc N + i \<in> R}"
    by (cases x) (auto simp: image_iff)
qed

lemma finite_offsets: "finite R \<Longrightarrow> finite {i. N + i \<in> (R :: nat set)}"
  by (rule finite_imageD [where f = "\<lambda>i. N + i"]) (auto intro: finite_subset simp: inj_on_def)

lemma card_offsets:
  assumes "N \<in> R" "finite R"
  shows "card {i. N + i \<in> R} = Suc (card {i. Suc N + i \<in> R})"
proof -
  have fin: "finite {i. N + i \<in> R}" by (rule finite_offsets [OF assms(2)])
  have "card {i. N + i \<in> R} = Suc (card ({i. N + i \<in> R} - {0}))"
    using assms(1) fin by (subst card_Suc_Diff1) auto
  then show ?thesis by (simp add: offsets_Suc card_image)
qed

lemma sorted_head:
  assumes "finite R" "N \<in> R"
  shows "sorted_list_of_set {k \<in> R. N \<le> k} = N # sorted_list_of_set {k \<in> R. Suc N \<le> k}"
proof -
  have "{k \<in> R. N \<le> k} = insert N {k \<in> R. Suc N \<le> k}" using assms(2) by (auto simp: Suc_le_eq le_less)
  moreover have "sorted_list_of_set (insert N {k \<in> R. Suc N \<le> k}) = insort N (sorted_list_of_set {k \<in> R. Suc N \<le> k})"
    using assms(1) by (intro sorted_list_of_set_insert) auto
  moreover have "insort N (sorted_list_of_set {k \<in> R. Suc N \<le> k}) = N # sorted_list_of_set {k \<in> R. Suc N \<le> k}"
    using assms(1) by (intro insort_is_Cons) (auto simp: Suc_le_eq)
  ultimately show ?thesis by simp
qed

lemma deliver_head_pre:
  assumes "rx_pre N R ptr sf" "N \<in> R"
    and "rest = map (\<lambda>k. (csn_of k, ptr k)) (sorted_list_of_set {k \<in> R. Suc N \<le> k})"
  shows "rx_pre (Suc N) R ptr (deliver_head False (ptr N) rest sf)"
proof -
  let ?sf = "deliver_head False (ptr N) rest sf"
  have pcb: "pcb ?sf = sack_bitmap_shift_left_one (advance_rcv_nxt (pcb sf))"
    by (simp add: deliver_head_def complete_req_def free_recvreq_def Let_def)
  have adv: "sack_bitmap (advance_rcv_nxt p) = sack_bitmap p"
    "sack_bitmap_count (advance_rcv_nxt p) = sack_bitmap_count p" "rcv_nxt (advance_rcv_nxt p) = rcv_nxt p + 1" for p
    by (simp_all add: advance_rcv_nxt_def)
  have sh: "rcv_nxt (sack_bitmap_shift_left_one p) = rcv_nxt p"
    "sack_bitmap_count (sack_bitmap_shift_left_one p) = sack_bitmap_count p - 1" for p
    by (simp_all add: sack_bitmap_shift_left_one_def Let_def)
  note pre = assms(1) [unfolded rx_pre_def]
  have "bitmap_set (sack_bitmap (pcb ?sf)) = {i. Suc N + i \<in> R}" "bitmap_ok (sack_bitmap (pcb ?sf))"
    using sack_shift_ok [of "advance_rcv_nxt (pcb sf)"] pre by (auto simp: pcb adv)
  moreover have "sack_bitmap_count (pcb ?sf) = of_nat (card {i. Suc N + i \<in> R})"
    using pre card_offsets [OF assms(2) rx_pre_finite [OF assms(1)]] by (simp add: pcb sh adv)
  moreover have "map fst (rx_done ?sf) = map (\<lambda>k. ptr k - 1) (filter (\<lambda>k. ptr k \<noteq> 0) [0..<Suc N])"
    using pre by (simp add: deliver_head_def complete_req_def free_recvreq_def Let_def)
  moreover have "rcv_nxt (pcb ?sf) = csn_of (Suc N)" using pre by (simp add: pcb sh adv)
  moreover have "{..<Suc N} \<subseteq> R" "R \<subseteq> {..<Suc N + 128}" using pre assms(2) by (auto simp: less_Suc_eq)
  ultimately show ?thesis using assms(3) by (simp add: rx_pre_def)
qed

text \<open>The loop delivers the chunks up to the first one missing.\<close>

lemma try_update_csn_rel:
  assumes "rx_pre N R ptr sf"
  shows "\<exists>M\<ge>N. M \<le> N + 128 \<and> rx_rel M R ptr (try_update_csn False sf)"
proof -
  have "\<exists>M\<ge>N. rx_rel M R ptr (try_update_csn False sf)"
    using assms
  proof (induction "length (ready_csn (rxtracking sf))" arbitrary: N sf)
    case 0
    then have "sorted_list_of_set {k \<in> R. N \<le> k} = []" by (simp add: rx_pre_def)
    then have "N \<notin> R" using rx_pre_finite [OF 0(2)] by auto
    moreover have "try_update_csn False sf = sf" using 0(1) by (subst try_update_csn.simps) simp
    ultimately show ?case using 0(2) by (auto simp: rx_rel_def)
  next
    case (Suc n)
    note fin = rx_pre_finite [OF Suc.prems]
    show ?case
    proof (cases "N \<in> R")
      case True
      define rest where "rest = map (\<lambda>k. (csn_of k, ptr k)) (sorted_list_of_set {k \<in> R. Suc N \<le> k})"
      have ready: "ready_csn (rxtracking sf) = (csn_of N, ptr N) # rest"
        using Suc.prems sorted_head [OF fin True] by (simp add: rx_pre_def rest_def)
      have "rcv_nxt (pcb sf) = csn_of N" using Suc.prems by (simp add: rx_pre_def)
      then have step: "try_update_csn False sf = try_update_csn False (deliver_head False (ptr N) rest sf)"
        using ready by (subst try_update_csn.simps) simp
      have "\<exists>M\<ge>Suc N. rx_rel M R ptr (try_update_csn False (deliver_head False (ptr N) rest sf))"
        using Suc.hyps(2) ready deliver_head_pre [OF Suc.prems True rest_def] by (intro Suc.hyps(1)) auto
      then show ?thesis unfolding step using Suc_leD by blast
    next
      case False
      then obtain k ks where ks: "sorted_list_of_set {k \<in> R. N \<le> k} = k # ks"
        using Suc.hyps(2) Suc.prems by (cases "sorted_list_of_set {k \<in> R. N \<le> k}") (auto simp: rx_pre_def)
      have "k \<in> set (sorted_list_of_set {k \<in> R. N \<le> k})" using ks by simp
      then have k: "k \<in> R" "N \<le> k" "k < N + 128" using fin Suc.prems by (auto simp: rx_pre_def)
      then have "csn_of k \<noteq> csn_of N" using False csn_window_inj [of N k N] by auto
      then have "try_update_csn False sf = sf"
        using Suc.prems ks by (subst try_update_csn.simps) (simp add: rx_pre_def)
      then show ?thesis using False Suc.prems by (auto simp: rx_rel_def)
    qed
  qed
  then obtain M where M: "N \<le> M" "rx_rel M R ptr (try_update_csn False sf)" by blast
  then have "{..<M} \<subseteq> R" "R \<subseteq> {..<N + 128}" using assms by (simp_all add: rx_rel_def rx_pre_def)
  then have "M \<le> N + 128" by (metis lessThan_subset_iff subset_trans)
  then show ?thesis using M by blast
qed

text \<open>Accepting chunk \<open>k\<close>: its bit is set and it joins the ready set.\<close>

lemma accept_pre:
  assumes "rx_rel N R ptr sf" "k \<notin> R" "N \<le> k" "k < N + 128"
    and "p0 = (pcb sf)\<lparr>t_remote_nic_rx := a, stats_accept_retr := b\<rparr>"
  obtains p where "sack_bitmap_bit_set (k - N) p0 = Some p"
    "rx_pre N (insert k R) (ptr(k := q)) (mark_ready (csn_of k) q (add_received rid bytes (sf\<lparr>pcb := p\<rparr>)))"
proof -
  note rel = assms(1) [unfolded rx_rel_def rx_pre_def]
  have fin: "finite R" using assms(1) rx_pre_finite by (auto simp: rx_rel_def)
  have ok: "bitmap_ok (sack_bitmap p0)" "k - N < 128" using rel assms(3-5) by auto
  obtain p where p: "sack_bitmap_bit_set (k - N) p0 = Some p"
    "bitmap_set (sack_bitmap p) = insert (k - N) (bitmap_set (sack_bitmap p0))" "bitmap_ok (sack_bitmap p)"
    "p = p0\<lparr>sack_bitmap := sack_bitmap p, sack_bitmap_count := sack_bitmap_count p0 + 1\<rparr>"
    by (rule sack_bit_set_ok [OF ok])
  have offs: "{i. N + i \<in> insert k R} = insert (k - N) {i. N + i \<in> R}" using assms(3) by auto
  have sel: "rcv_nxt p = csn_of N" "sack_bitmap_count p = of_nat (card {i. N + i \<in> R}) + 1"
    using rel assms(5) by (subst p(4), simp)+
  have "k - N \<notin> {i. N + i \<in> R}" using assms(2,3) by simp
  then have card: "card {i. N + i \<in> insert k R} = Suc (card {i. N + i \<in> R})"
    unfolding offs using finite_offsets [OF fin, of N] by simp
  have sub: "{j \<in> insert k R. N \<le> j} = insert k {j \<in> R. N \<le> j}" using assms(3) by auto
  have "sorted_list_of_set (insert k {j \<in> R. N \<le> j}) = insort k (sorted_list_of_set {j \<in> R. N \<le> j})"
    using fin assms(2) by (intro sorted_list_of_set_insert) auto
  moreover have "ready_insert (csn_of k, q) (map (\<lambda>j. (csn_of j, ptr j)) (sorted_list_of_set {j \<in> R. N \<le> j})) =
      map (\<lambda>j. (csn_of j, (ptr(k := q)) j)) (insort k (sorted_list_of_set {j \<in> R. N \<le> j}))"
    using fin assms(2-4) rel by (intro ready_insert_insort [where N = N]) auto
  ultimately have ready: "ready_insert (csn_of k, q) (ready_csn (rxtracking sf)) =
      map (\<lambda>j. (csn_of j, (ptr(k := q)) j)) (sorted_list_of_set {j \<in> insert k R. N \<le> j})"
    unfolding sub using rel by simp
  have fresh: "filter (\<lambda>j. (ptr(k := q)) j \<noteq> 0) [0..<N] = filter (\<lambda>j. ptr j \<noteq> 0) [0..<N]"
    using assms(3) by (intro filter_cong) auto
  have "map (\<lambda>j. (ptr(k := q)) j - 1) (filter (\<lambda>j. ptr j \<noteq> 0) [0..<N]) =
      map (\<lambda>j. ptr j - 1) (filter (\<lambda>j. ptr j \<noteq> 0) [0..<N])"
    using assms(3) by (intro map_cong) auto
  then have "rx_pre N (insert k R) (ptr(k := q)) (mark_ready (csn_of k) q (add_received rid bytes (sf\<lparr>pcb := p\<rparr>)))"
    using rel p(2,3) sel ready card offs fresh assms(3-5)
    by (auto simp: rx_pre_def mark_ready_def add_received_def)
  then show ?thesis using that p(1) by blast
qed

section \<open>The handlers keep the relation\<close>

text \<open>The relation depends only on these parts of a subflow.\<close>

definition rx_view :: "SubUcclFlow \<Rightarrow> UINT_CSN \<times> u64 list \<times> u8 \<times> (UINT_CSN \<times> nat) list \<times> (nat \<times> nat) list" where
  "rx_view sf = (rcv_nxt (pcb sf), sack_bitmap (pcb sf), sack_bitmap_count (pcb sf),
     ready_csn (rxtracking sf), rx_done sf)"

lemma rx_rel_view: "rx_view sf = rx_view sf' \<Longrightarrow> rx_rel N R ptr sf = rx_rel N R ptr sf'"
  by (simp add: rx_view_def rx_rel_def rx_pre_def)

lemma ack_ops_frame [simp]:
  "flows (flush_acks c) = flows c" "rc_mode (flush_acks c) = rc_mode c"
  "flows (try_post_acks acks force c) = flows c" "rc_mode (try_post_acks acks force c) = rc_mode c"
  "flows (add_to_ack_list f c) = flows c" "rc_mode (add_to_ack_list f c) = rc_mode c"
  "cc_kind (flush_acks c) = cc_kind c" "cc_kind (try_post_acks acks force c) = cc_kind c"
  "cc_kind (add_to_ack_list f c) = cc_kind c"
  by (simp_all add: flush_acks_def try_post_acks_def add_to_ack_list_def Let_def)

lemma EventOnRxData_frame:
  "rx_view (flows (EventOnRxData f imm c) g) = rx_view (flows c g)"
  "rc_mode (EventOnRxData f imm c) = rc_mode c" "g \<noteq> f \<Longrightarrow> flows (EventOnRxData f imm c) g = flows c g"
  by (auto simp: EventOnRxData_def rx_view_def Let_def split: cc_kind.split prod.split)

lemma EventOnRxRTXData_frame:
  "rx_view (flows (EventOnRxRTXData f imm c) g) = rx_view (flows c g)"
  "rc_mode (EventOnRxRTXData f imm c) = rc_mode c" "g \<noteq> f \<Longrightarrow> flows (EventOnRxRTXData f imm c) g = flows c g"
  by (auto simp: EventOnRxRTXData_def EventOnRxData_frame split: cc_kind.split)

lemma rx_ready_frame [simp]:
  "ready_csn (encounter_ooo r) = ready_csn r" "ready_csn (cumulate_bytes n r) = ready_csn r"
  "ready_csn (cumulate_wqe r) = ready_csn r" "ready_csn (clear_imm_ack r) = ready_csn r"
  by (simp_all add: encounter_ooo_def cumulate_bytes_def cumulate_wqe_def clear_imm_ack_def Let_def)

lemma rx_view_simps [simp]:
  "rx_view (sf\<lparr>rxtracking := encounter_ooo (rxtracking sf)\<rparr>) = rx_view sf"
  "rx_view (sf\<lparr>rxtracking := cumulate_bytes n (cumulate_wqe (rxtracking sf)), next_ack_path := q\<rparr>) = rx_view sf"
  "rx_view (sf\<lparr>rxtracking := clear_imm_ack (rxtracking sf)\<rparr>) = rx_view sf"
  "rx_view (sf\<lparr>next_ack_path := q\<rparr>) = rx_view sf"
  "rx_view (sf\<lparr>reqs := rs\<rparr>) = rx_view sf"
  "rx_view (upd_pcb count_drop sf) = rx_view sf" "rx_view (upd_pcb count_retr_drop sf) = rx_view sf"
  by (simp_all add: rx_view_def encounter_ooo_def cumulate_bytes_def cumulate_wqe_def clear_imm_ack_def
      count_drop_def count_retr_drop_def Let_def)

lemma seqno_lt_window:
  assumes "N \<le> k + 128" "k < N + 256"
  shows "seqno_lt (csn_of k) (csn_of N) \<longleftrightarrow> k < N \<or> N + 128 \<le> k"
proof (cases "k < N")
  case True
  have "csn_of k = csn_of (k + 256)" by (simp add: csn_of_eq_iff)
  moreover have "unat (csn_of (k + 256) - csn_of N) = k + 256 - N"
    using True assms by (intro unat_csn_diff) auto
  ultimately show ?thesis using True assms by (simp add: seqno_lt_iff_unat)
next
  case False
  then have "unat (csn_of k - csn_of N) = k - N" using assms by (intro unat_csn_diff) auto
  then show ?thesis using False by (auto simp: seqno_lt_iff_unat)
qed

text \<open>What a handler decides about chunk \<open>k\<close>, on the abstract receiver.\<close>

definition rx_valid :: "nat \<Rightarrow> nat \<Rightarrow> SubUcclFlow \<Rightarrow> bool" where
  "rx_valid f rid sf \<longleftrightarrow> req_type (reqs sf ! rid) = RECV \<and> req_flow (reqs sf ! rid) = f"

lemma rx_decide:
  assumes "rx_rel N R ptr sf" "N \<le> k + 128" "k < N + 256" "d = unat (to_uint32 (csn_sub (csn_of k) (rcv_nxt (pcb sf))))"
  shows "seqno_lt (csn_of k) (rcv_nxt (pcb sf)) \<longleftrightarrow> k < N \<or> N + 128 \<le> k"
    and "N \<le> k \<Longrightarrow> k < N + 128 \<Longrightarrow> d = k - N \<and> \<not> kReassemblyMaxSeqnoDistance < k - N \<and>
      (sack_bitmap_bit_is_set (k - N) (pcb sf) \<longleftrightarrow> k \<in> R)"
proof -
  have rn: "rcv_nxt (pcb sf) = csn_of N" using assms(1) by (simp add: rx_rel_def rx_pre_def)
  then show "seqno_lt (csn_of k) (rcv_nxt (pcb sf)) \<longleftrightarrow> k < N \<or> N + 128 \<le> k"
    using seqno_lt_window [OF assms(2,3)] by simp
  assume k: "N \<le> k" "k < N + 128"
  have "unat (csn_of k - csn_of N) = k - N" using k by (intro unat_csn_diff) auto
  then have d: "d = k - N" using assms(4) rn by simp
  have "sack_bitmap_bit_is_set (k - N) (pcb sf) \<longleftrightarrow> k - N \<in> bitmap_set (sack_bitmap (pcb sf))"
    using k by (simp add: sack_bitmap_bit_is_set_def bitmap_bit_iff)
  then show "d = k - N \<and> \<not> kReassemblyMaxSeqnoDistance < k - N \<and> (sack_bitmap_bit_is_set (k - N) (pcb sf) \<longleftrightarrow> k \<in> R)"
    using d k assms(1) by (auto simp: kReassemblyMaxSeqnoDistance_def kSackBitmapSize_def rx_rel_def rx_pre_def)
qed

lemma uc_rx_chunk_drop:
  assumes "\<not> rx_valid f (unat (GetRID imm)) (flows c f) \<or> k < N \<or> N + 128 \<le> k"
    and "rx_rel N R ptr (flows c f)" "N \<le> k + 128" "k < N + 256"
    and "unat (GetFID imm) = f" "UINT_CSN_of (GetCSN imm) = csn_of k"
  shows "uc_rx_chunk byte_len imm qpidx now queueing c = Some (upd_flow f (upd_pcb count_drop) c)"
    and "uc_rx_rtx_chunk byte_len imm c = Some (upd_flow f (upd_pcb count_retr_drop) c)"
  using assms(1) rx_decide(1) [OF assms(2-4) refl]
  unfolding uc_rx_chunk_def uc_rx_rtx_chunk_def Let_def assms(5,6)
  by (auto simp: rx_valid_def simp del: UINT_CSN_of_eq)

lemma uc_rx_chunk_duplicate:
  assumes "rx_valid f (unat (GetRID imm)) (flows c f)" "N \<le> k" "k < N + 128" "k \<in> R"
    and "rx_rel N R ptr (flows c f)"
    and "unat (GetFID imm) = f" "UINT_CSN_of (GetCSN imm) = csn_of k"
  shows "uc_rx_chunk byte_len imm qpidx now queueing c = None"
    and "uc_rx_rtx_chunk byte_len imm c = Some (upd_flow f (upd_pcb count_retr_drop) c)"
proof -
  have w: "N \<le> k + 128" "k < N + 256" using assms(2,3) by auto
  note d = rx_decide(1) [OF assms(5) w refl] rx_decide(2) [OF assms(5) w refl assms(2,3)]
  show "uc_rx_chunk byte_len imm qpidx now queueing c = None"
    unfolding uc_rx_chunk_def Let_def assms(6,7) using assms(1-4) d
    by (simp add: rx_valid_def del: UINT_CSN_of_eq csn_sub_eq unat_to_uint32)
  show "uc_rx_rtx_chunk byte_len imm c = Some (upd_flow f (upd_pcb count_retr_drop) c)"
    unfolding uc_rx_rtx_chunk_def Let_def assms(6,7) using assms(1-4) d
    by (simp add: rx_valid_def del: UINT_CSN_of_eq csn_sub_eq unat_to_uint32)
qed

text \<open>
  An accepted chunk: the flow goes through \<open>mark_ready\<close> and \<open>try_update_csn\<close>, and what follows
  leaves the relation alone.
\<close>

lemma uc_rx_chunk_accept:
  assumes "rx_valid f (unat (GetRID imm)) (flows c f)" "N \<le> k" "k < N + 128" "k \<notin> R"
    and "rx_rel N R ptr (flows c f)" "\<not> rc_mode c"
    and "unat (GetFID imm) = f" "UINT_CSN_of (GetCSN imm) = csn_of k"
    and "q = (if GetHINT imm \<noteq> 0 then unat (GetRID imm) + 1 else 0)"
  shows "\<exists>c' M. uc_rx_chunk byte_len imm qpidx now queueing c = Some c' \<and> N \<le> M \<and> M \<le> N + 128 \<and>
      rx_rel M (insert k R) (ptr(k := q)) (flows c' f)"
    and "\<exists>c' M. uc_rx_rtx_chunk byte_len imm c = Some c' \<and> N \<le> M \<and> M \<le> N + 128 \<and>
      rx_rel M (insert k R) (ptr(k := q)) (flows c' f)"
proof -
  let ?sf = "flows c f" and ?rid = "unat (GetRID imm)"
  have w: "N \<le> k + 128" "k < N + 256" using assms(2,3) by auto
  note d = rx_decide(1) [OF assms(5) w refl] rx_decide(2) [OF assms(5) w refl assms(2,3)]
  obtain p where p: "sack_bitmap_bit_set (k - N) ((pcb ?sf)\<lparr>t_remote_nic_rx := now\<rparr>) = Some p"
    "rx_pre N (insert k R) (ptr(k := q)) (mark_ready (csn_of k) q (add_received ?rid byte_len (?sf\<lparr>pcb := p\<rparr>)))"
    by (rule accept_pre [OF assms(5,4,2,3), where a = now and b = "stats_accept_retr (pcb ?sf)" and q = q
          and rid = ?rid and bytes = byte_len]) auto
  obtain M where M: "N \<le> M" "M \<le> N + 128" "rx_rel M (insert k R) (ptr(k := q))
      (try_update_csn False (mark_ready (csn_of k) q (add_received ?rid byte_len (?sf\<lparr>pcb := p\<rparr>))))"
    using try_update_csn_rel [OF p(2)] by blast
  have "uc_rx_chunk byte_len imm qpidx now queueing c \<noteq> None"
    "rx_view (flows (the (uc_rx_chunk byte_len imm qpidx now queueing c)) f) =
      rx_view (try_update_csn False (mark_ready (csn_of k) q (add_received ?rid byte_len (?sf\<lparr>pcb := p\<rparr>))))"
    unfolding uc_rx_chunk_def Let_def assms(7,8) using assms(1-4,6) d p(1)
    by (auto simp: rx_valid_def EventOnRxData_frame assms(9) simp del: UINT_CSN_of_eq csn_sub_eq unat_to_uint32)
      (simp_all add: rx_view_def)
  then show "\<exists>c' M. uc_rx_chunk byte_len imm qpidx now queueing c = Some c' \<and> N \<le> M \<and> M \<le> N + 128 \<and>
      rx_rel M (insert k R) (ptr(k := q)) (flows c' f)"
    using M rx_rel_view by (metis option.collapse)
  obtain p where p: "sack_bitmap_bit_set (k - N) ((pcb ?sf)\<lparr>stats_accept_retr := stats_accept_retr (pcb ?sf) + 1\<rparr>) = Some p"
    "rx_pre N (insert k R) (ptr(k := q))
      (mark_ready (csn_of k) q (add_received ?rid (u32_sub byte_len retr_chunk_hdr_size) (?sf\<lparr>pcb := p\<rparr>)))"
    by (rule accept_pre [OF assms(5,4,2,3), where a = "t_remote_nic_rx (pcb ?sf)" and q = q and rid = ?rid
          and b = "stats_accept_retr (pcb ?sf) + 1" and bytes = "u32_sub byte_len retr_chunk_hdr_size"]) auto
  obtain M where M: "N \<le> M" "M \<le> N + 128" "rx_rel M (insert k R) (ptr(k := q)) (try_update_csn False
      (mark_ready (csn_of k) q (add_received ?rid (u32_sub byte_len retr_chunk_hdr_size) (?sf\<lparr>pcb := p\<rparr>))))"
    using try_update_csn_rel [OF p(2)] by blast
  have "uc_rx_rtx_chunk byte_len imm c \<noteq> None"
    "rx_view (flows (the (uc_rx_rtx_chunk byte_len imm c)) f) = rx_view (try_update_csn False
      (mark_ready (csn_of k) q (add_received ?rid (u32_sub byte_len retr_chunk_hdr_size) (?sf\<lparr>pcb := p\<rparr>))))"
    unfolding uc_rx_rtx_chunk_def Let_def assms(7,8) using assms(1-4,6) d p(1)
    by (auto simp: rx_valid_def EventOnRxRTXData_frame assms(9) simp del: UINT_CSN_of_eq csn_sub_eq unat_to_uint32)
  then show "\<exists>c' M. uc_rx_rtx_chunk byte_len imm c = Some c' \<and> N \<le> M \<and> M \<le> N + 128 \<and>
      rx_rel M (insert k R) (ptr(k := q)) (flows c' f)"
    using M rx_rel_view by (metis option.collapse)
qed

section \<open>Histories of a receiver\<close>

datatype rx_event =
    DataChunk nat IMMData u16 nat nat
  | RtxChunk nat IMMData
  | SupplyRx nat
  | PostAcks "nat \<Rightarrow> nat"

fun rx_handle :: "rx_event \<Rightarrow> RDMAContext \<Rightarrow> RDMAContext option" where
  "rx_handle (DataChunk byte_len imm qpidx now queueing) c = uc_rx_chunk byte_len imm qpidx now queueing c"
| "rx_handle (RtxChunk byte_len imm) c = uc_rx_rtx_chunk byte_len imm c"
| "rx_handle (SupplyRx f) c = Some (snd (supply_rx_buff f c))"
| "rx_handle (PostAcks queueing) c = Some (uc_post_acks queueing c)"

text \<open>The immediate of an event that is a chunk.\<close>

fun rx_imm :: "rx_event \<Rightarrow> IMMData option" where
  "rx_imm (DataChunk _ imm _ _ _) = Some imm"
| "rx_imm (RtxChunk _ imm) = Some imm"
| "rx_imm _ = None"

definition imm_ptr :: "IMMData \<Rightarrow> nat" where
  "imm_ptr imm = (if GetHINT imm \<noteq> 0 then unat (GetRID imm) + 1 else 0)"

text \<open>
  \<open>rx_reach f c A N\<close>: the context \<open>c\<close> is reached from a new flow \<open>f\<close>; \<open>A\<close> holds the chunks of the flow
  that arrived, each with the request it completes, and \<open>N\<close> counts the advances of \<open>rcv_nxt\<close>. A chunk
  may arrive late or be duplicated as a retransmission; that its number lies less than 128 behind
  or 256 ahead of \<open>N\<close> is what the 8 bits of the sequence number need.
\<close>

inductive rx_reach :: "nat \<Rightarrow> RDMAContext \<Rightarrow> (nat \<times> nat) set \<Rightarrow> nat \<Rightarrow> bool" for f where
  rx_start: "\<not> rc_mode c \<Longrightarrow> flows c f = SubUcclFlow_new f \<Longrightarrow> rx_reach f c {} 0"
| rx_chunk: "rx_reach f c A N \<Longrightarrow> rx_handle e c = Some c' \<Longrightarrow> rx_imm e = Some imm \<Longrightarrow>
    unat (GetFID imm) = f \<Longrightarrow> UINT_CSN_of (GetCSN imm) = csn_of k \<Longrightarrow> N \<le> k + 128 \<Longrightarrow> k < N + 256 \<Longrightarrow>
    rx_reach f c' (insert (k, imm_ptr imm) A)
      (N + unat (rcv_nxt (pcb (flows c' f)) - rcv_nxt (pcb (flows c f))))"
| rx_other: "rx_reach f c A N \<Longrightarrow> rx_handle e c = Some c' \<Longrightarrow>
    (case rx_imm e of None \<Rightarrow> True | Some imm \<Rightarrow> unat (GetFID imm) \<noteq> f) \<Longrightarrow> rx_reach f c' A N"

lemma rx_chunk_frame:
  "uc_rx_chunk byte_len imm qpidx now queueing c = Some c' \<Longrightarrow> rc_mode c' = rc_mode c"
  "uc_rx_rtx_chunk byte_len imm c = Some c' \<Longrightarrow> rc_mode c' = rc_mode c"
  "uc_rx_chunk byte_len imm qpidx now queueing c = Some c' \<Longrightarrow> g \<noteq> unat (GetFID imm) \<Longrightarrow> flows c' g = flows c g"
  "uc_rx_rtx_chunk byte_len imm c = Some c' \<Longrightarrow> g \<noteq> unat (GetFID imm) \<Longrightarrow> flows c' g = flows c g"
  by (auto simp: uc_rx_chunk_def uc_rx_rtx_chunk_def Let_def EventOnRxData_frame EventOnRxRTXData_frame
      simp del: UINT_CSN_of_eq csn_sub_eq unat_to_uint32 split: if_splits option.splits)

lemma rx_handle_other:
  assumes "rx_handle e c = Some c'" "case rx_imm e of None \<Rightarrow> True | Some imm \<Rightarrow> unat (GetFID imm) \<noteq> f"
  shows "rc_mode c' = rc_mode c \<and> rx_view (flows c' f) = rx_view (flows c f)"
proof (cases e)
  case (DataChunk byte_len imm qpidx now queueing)
  then show ?thesis using assms rx_chunk_frame(1,3) by auto
next
  case (RtxChunk byte_len imm)
  then show ?thesis using assms rx_chunk_frame(2,4) by auto
next
  case (SupplyRx g)
  then show ?thesis using assms(1) by (auto simp: supply_rx_buff_def split: option.splits)
next
  case (PostAcks queueing)
  then show ?thesis using assms(1) by (auto simp: uc_post_acks_def Let_def rx_view_def)
qed

lemma rx_handle_chunk:
  assumes "rx_rel N R ptr (flows c f)" "\<not> rc_mode c" "rx_handle e c = Some c'" "rx_imm e = Some imm"
    and "unat (GetFID imm) = f" "UINT_CSN_of (GetCSN imm) = csn_of k" "N \<le> k + 128" "k < N + 256"
  shows "rx_rel N R ptr (flows c' f) \<or>
    (\<exists>M. N \<le> M \<and> M \<le> N + 128 \<and> rx_rel M (insert k R) (ptr(k := imm_ptr imm)) (flows c' f))"
proof -
  have keep: "rx_rel N R ptr (flows (upd_flow f (upd_pcb h) c) f)" if "h = count_drop \<or> h = count_retr_drop" for h
  proof -
    have "rx_view (upd_pcb h (flows c f)) = rx_view (flows c f)" using that by auto
    from rx_rel_view [OF this, of N R ptr] show ?thesis using assms(1) by simp
  qed
  consider (drop) "\<not> rx_valid f (unat (GetRID imm)) (flows c f) \<or> k < N \<or> N + 128 \<le> k"
    | (dup) "rx_valid f (unat (GetRID imm)) (flows c f)" "N \<le> k" "k < N + 128" "k \<in> R"
    | (new) "rx_valid f (unat (GetRID imm)) (flows c f)" "N \<le> k" "k < N + 128" "k \<notin> R" by linarith
  then show ?thesis
  proof cases
    case drop
    then have "c' = upd_flow f (upd_pcb count_drop) c \<or> c' = upd_flow f (upd_pcb count_retr_drop) c"
      using uc_rx_chunk_drop [OF drop assms(1,7,8,5,6)] assms(3,4) by (cases e) auto
    then show ?thesis using keep by blast
  next
    case dup
    then have "c' = upd_flow f (upd_pcb count_retr_drop) c"
      using uc_rx_chunk_duplicate [OF dup assms(1,5,6)] assms(3,4) by (cases e) auto
    then show ?thesis using keep by blast
  next
    case new
    note acc = uc_rx_chunk_accept [OF new assms(1,2,5,6) imm_ptr_def]
    show ?thesis
    proof (cases e)
      case (DataChunk byte_len i qpidx now queueing)
      then show ?thesis using acc(1) [of byte_len qpidx now queueing] assms(3,4) by auto
    next
      case (RtxChunk byte_len i)
      then show ?thesis using acc(2) [of byte_len] assms(3,4) by auto
    qed (use assms(4) in auto)
  qed
qed

lemma rx_rel_new: "rx_rel 0 {} ptr (SubUcclFlow_new f)"
  by (simp add: rx_rel_def rx_pre_def SubUcclFlow_new_def PCB_new_def RXTracking_new_def csn_of_def bitmap_ok_def
      bitmap_consts numeral_2_eq_2 bitmap_set_zero)

lemma rx_reach_rel:
  assumes "rx_reach f c A N"
  shows "\<not> rc_mode c \<and> (\<exists>R ptr. rx_rel N R ptr (flows c f) \<and> (\<forall>k\<in>R. (k, ptr k) \<in> A))"
  using assms
proof induction
  case (rx_start c)
  then show ?case using rx_rel_new by auto
next
  case (rx_chunk c A N e c' imm k)
  then obtain R ptr where rel: "rx_rel N R ptr (flows c f)" "\<forall>k\<in>R. (k, ptr k) \<in> A" "\<not> rc_mode c" by auto
  have rc: "\<not> rc_mode c'" using rx_chunk.hyps(2,3) rel(3) rx_chunk_frame(1,2) by (cases e) auto
  have N: "rcv_nxt (pcb (flows c f)) = csn_of N" using rel(1) by (simp add: rx_rel_def rx_pre_def)
  from rx_handle_chunk [OF rel(1,3) rx_chunk.hyps(2-7)]
  show ?case
  proof
    assume same: "rx_rel N R ptr (flows c' f)"
    then have "rcv_nxt (pcb (flows c' f)) = csn_of N" by (simp add: rx_rel_def rx_pre_def)
    then show ?thesis using same rel(2) rc N by auto
  next
    assume "\<exists>M. N \<le> M \<and> M \<le> N + 128 \<and> rx_rel M (insert k R) (ptr(k := imm_ptr imm)) (flows c' f)"
    then obtain M where M: "N \<le> M" "M \<le> N + 128" "rx_rel M (insert k R) (ptr(k := imm_ptr imm)) (flows c' f)"
      by blast
    then have "rcv_nxt (pcb (flows c' f)) = csn_of M" by (simp add: rx_rel_def rx_pre_def)
    moreover have "unat (csn_of M - csn_of N) = M - N" using M(1,2) by (intro unat_csn_diff) auto
    ultimately have eq: "N + unat (rcv_nxt (pcb (flows c' f)) - rcv_nxt (pcb (flows c f))) = M" using N M(1) by simp
    have "\<forall>j\<in>insert k R. (j, (ptr(k := imm_ptr imm)) j) \<in> insert (k, imm_ptr imm) A" using rel(2) by auto
    then show ?thesis unfolding eq using M(3) rc by blast
  qed
next
  case (rx_other c A N e c')
  note fr = rx_handle_other [OF rx_other.hyps(2,3)]
  from rx_other.IH obtain R ptr where "\<not> rc_mode c" "rx_rel N R ptr (flows c f)" "\<forall>k\<in>R. (k, ptr k) \<in> A" by blast
  then show ?case using fr rx_rel_view [of "flows c' f" "flows c f"] by blast
qed

section \<open>Properties\<close>

text \<open>A context with flow 3 in the default mode, two receives posted.\<close>

definition rx_example :: RDMAContext where
  "rx_example = RDMAContext_new TimelyRDMAContext False True True 65536 4096 1000
     \<lparr>wslot_width_tsc = 1, horizon_tsc = 0, wheel = [], cur_wslot = 0, bkt_pool = cb_new 0 0, ready_entries = 0,
      ready_queue = []\<rparr>
     (\<lambda>_. \<lparr>ureq_type = ReqTx, ureq_flow = 3, data_len = 0, inc_backlog = False, laddr = 0, raddr = 0, send_rid = 0,
           sent_offset = 0, acked_bytes = 0\<rparr>) 0"

definition rx_example_supplied :: RDMAContext where
  "rx_example_supplied = snd (supply_rx_buff 3 (snd (supply_rx_buff 3 rx_example)))"

lemma rx_example_rel:
  "rx_rel 0 {} (\<lambda>_. 0) (flows rx_example_supplied 3)" "\<not> rc_mode rx_example_supplied"
  "rx_valid 3 0 (flows rx_example_supplied 3)" "rx_reach 3 rx_example_supplied {} 0"
proof -
  have "rx_view (flows rx_example_supplied 3) = rx_view (SubUcclFlow_new 3)"
    by (simp add: rx_example_supplied_def supply_rx_buff_def rx_example_def RDMAContext_new_def split: option.split)
  from rx_rel_view [OF this] show "rx_rel 0 {} (\<lambda>_. 0) (flows rx_example_supplied 3)" using rx_rel_new by blast
  show "\<not> rc_mode rx_example_supplied"
    by (simp add: rx_example_supplied_def supply_rx_buff_def rx_example_def RDMAContext_new_def split: option.split)
  let ?f = "\<lambda>s. s\<lparr>reqs := (reqs s)[0 := \<lparr>req_type = RECV, req_flow = 3, received_bytes = 0\<rparr>]\<rparr>"
  let ?g = "\<lambda>s. s\<lparr>reqs := (reqs s)[1 := \<lparr>req_type = RECV, req_flow = 3, received_bytes = 0\<rparr>]\<rparr>"
  have al: "alloc_recvreq (SubUcclFlow_new 3) = Some 0" "alloc_recvreq (?f (SubUcclFlow_new 3)) = Some 1"
    by code_simp+
  have fl: "flows rx_example = SubUcclFlow_new" by (simp add: rx_example_def RDMAContext_new_def)
  have "flows (snd (supply_rx_buff 3 rx_example)) 3 = ?f (SubUcclFlow_new 3)"
    by (simp add: supply_rx_buff_def fl al(1))
  then have "flows rx_example_supplied 3 = ?g (?f (SubUcclFlow_new 3))"
    unfolding rx_example_supplied_def by (simp add: supply_rx_buff_def [of 3 "snd (supply_rx_buff 3 rx_example)"] al(2) del: fun_upd_apply) simp
  moreover have "rx_valid 3 0 (?g (?f (SubUcclFlow_new 3)))" by code_simp
  ultimately show "rx_valid 3 0 (flows rx_example_supplied 3)" by simp
  have "rx_reach 3 rx_example {} 0" by (rule rx_start) (simp_all add: rx_example_def RDMAContext_new_def)
  then have "rx_reach 3 (snd (supply_rx_buff 3 rx_example)) {} 0"
    by (rule rx_other [where e = "SupplyRx 3"]) simp_all
  then show "rx_reach 3 rx_example_supplied {} 0"
    by (rule rx_other [where e = "SupplyRx 3"]) (simp_all add: rx_example_supplied_def)
qed

text \<open>A message of one chunk arrives and completes request 0.\<close>

lemma rx_example_reach: "\<exists>c. rx_reach 3 c {(0, 1)} 1"
proof -
  let ?imm = "imm_of_chunk None 3 True 0 0"
  have f: "unat (GetFID ?imm) = 3" "GetRID ?imm = 0" "UINT_CSN_of (GetCSN ?imm) = csn_of 0" "GetHINT ?imm = 1"
    by (simp_all only: imm_of_chunk_fields unat_mask ucast_to_uint32) (simp_all add: csn_of_def)
  have v: "rx_valid 3 (unat (GetRID ?imm)) (flows rx_example_supplied 3)" using f(2) rx_example_rel(3) by simp
  have q: "1 = (if GetHINT ?imm \<noteq> 0 then unat (GetRID ?imm) + 1 else 0)" using f(2,4) by simp
  have ex: "\<exists>c' M. uc_rx_chunk 4096 ?imm 5 100 7 rx_example_supplied = Some c' \<and> 0 \<le> M \<and> M \<le> 0 + 128 \<and>
      rx_rel M (insert 0 {}) ((\<lambda>_. 0)(0 := 1)) (flows c' 3)"
    using uc_rx_chunk_accept(1) [where f = 3 and imm = ?imm and c = rx_example_supplied and N = 0 and k = 0
        and R = "{}" and ptr = "\<lambda>_. 0" and q = 1 and byte_len = 4096 and qpidx = 5 and now = 100 and queueing = 7,
        OF v _ _ _ rx_example_rel(1,2) f(1,3) q] by simp
  obtain c M where c: "uc_rx_chunk 4096 ?imm 5 100 7 rx_example_supplied = Some c" "M \<le> 128"
    "rx_rel M {0} ((\<lambda>_. 0)(0 := 1)) (flows c 3)"
    using ex by auto
  have "{..<M} \<subseteq> {0}" "M \<notin> {0}" using c(3) unfolding rx_rel_def rx_pre_def by blast+
  then have "M = 1" by (cases M) (auto simp: lessThan_Suc)
  then have "rcv_nxt (pcb (flows c 3)) = csn_of 1" using c(3) by (simp add: rx_rel_def rx_pre_def)
  moreover have "rcv_nxt (pcb (flows rx_example_supplied 3)) = csn_of 0" using rx_example_rel(1) by (simp add: rx_rel_def rx_pre_def)
  ultimately have "unat (rcv_nxt (pcb (flows c 3)) - rcv_nxt (pcb (flows rx_example_supplied 3))) = 1" by simp
  moreover have "rx_reach 3 c (insert (0, imm_ptr ?imm) {})
      (0 + unat (rcv_nxt (pcb (flows c 3)) - rcv_nxt (pcb (flows rx_example_supplied 3))))"
    by (rule rx_chunk [OF rx_example_rel(4), where e = "DataChunk 4096 ?imm 5 100 7"])
      (use c(1) f in \<open>simp_all del: UINT_CSN_of_eq\<close>)
  moreover have "imm_ptr ?imm = 1" using f by (simp add: imm_ptr_def)
  ultimately show ?thesis by auto
qed

text \<open>
  C3: an acknowledgement tells the truth. In every state a receiving flow reaches, whatever the
  order, loss and retransmission of its chunks, the header it would send carries as \<open>ackno\<close> the
  number (modulo 256) of the first chunk missing, its SACK bitmap holds bit \<open>i\<close> exactly when chunk
  \<open>ackno + i\<close> was accepted, the bitmap count is the number of those chunks, and every chunk
  acknowledged in either way has arrived.
\<close>

theorem rx_acks_only_arrived:
  assumes "rx_reach f c A N"
  shows "\<exists>R. {..<N} \<subseteq> R \<and> N \<notin> R \<and> R \<subseteq> fst ` A \<and>
    unat (sh_ackno (craft_ack queueing (flows c f))) = N mod 256 \<and>
    bitmap_set (sh_sack_bitmap (craft_ack queueing (flows c f))) = {i. N + i \<in> R} \<and>
    unat (sh_sack_bitmap_count (craft_ack queueing (flows c f))) = card {i. N + i \<in> R}"
proof -
  obtain R ptr where R: "rx_rel N R ptr (flows c f)" "\<forall>k\<in>R. (k, ptr k) \<in> A" using rx_reach_rel [OF assms] by blast
  note rel = R(1) [unfolded rx_rel_def rx_pre_def]
  have "{i. N + i \<in> R} \<subseteq> {..<128}" using rel by auto
  then have "card {i. N + i \<in> R} \<le> 128" using card_mono [of "{..<128::nat}"] by fastforce
  then have "unat (ucast (sack_bitmap_count (pcb (flows c f))) :: u16) = card {i. N + i \<in> R}"
    using rel by (simp add: unsigned_ucast_eq unat_of_nat take_bit_nat_eq_self)
  moreover have "unat (ucast (to_uint32 (csn_of N)) :: u16) = N mod 256"
    by (simp add: unsigned_ucast_eq unat_csn_of take_bit_eq_mod)
  moreover have "R \<subseteq> fst ` A" using R(2) by force
  ultimately show ?thesis using rel by (intro exI [of _ R]) (auto simp: craft_ack_def ackno_def)
qed

theorem rx_acks_only_arrived_witness:
  "\<exists>c R. rx_reach 3 c {(0, 1)} 1 \<and> {..<1} \<subseteq> R \<and> R \<subseteq> {0 :: nat} \<and>
    unat (sh_ackno (craft_ack 9 (flows c 3))) = 1"
proof -
  obtain c where c: "rx_reach 3 c {(0, 1)} 1" using rx_example_reach by blast
  from rx_acks_only_arrived [OF this, of 9] obtain R where
    "{..<1} \<subseteq> R" "R \<subseteq> fst ` {(0 :: nat, 1 :: nat)}" "unat (sh_ackno (craft_ack 9 (flows c 3))) = 1 mod 256" by blast
  then have "{..<1} \<subseteq> R \<and> R \<subseteq> {0} \<and> unat (sh_ackno (craft_ack 9 (flows c 3))) = 1" by simp
  with c show ?thesis by blast
qed

text \<open>
  C7: requests complete in the order of the sender's chunks, and only when everything before
  has arrived: the wake-ups of a receiving flow are exactly the requests of the last-chunks below
  the first missing chunk, in order.
\<close>

theorem rx_completes_in_order:
  assumes "rx_reach f c A N"
  shows "\<exists>ptr. (\<forall>k<N. (k, ptr k) \<in> A) \<and>
    map fst (rx_done (flows c f)) = map (\<lambda>k. ptr k - 1) (filter (\<lambda>k. ptr k \<noteq> 0) [0..<N])"
proof -
  obtain R ptr where R: "rx_rel N R ptr (flows c f)" "\<forall>k\<in>R. (k, ptr k) \<in> A" using rx_reach_rel [OF assms] by blast
  then have "\<forall>k<N. (k, ptr k) \<in> A"
    "map fst (rx_done (flows c f)) = map (\<lambda>k. ptr k - 1) (filter (\<lambda>k. ptr k \<noteq> 0) [0..<N])"
    unfolding rx_rel_def rx_pre_def by (blast intro: lessThan_iff [THEN iffD2])+
  then show ?thesis by blast
qed

theorem rx_completes_in_order_witness:
  "\<exists>c. rx_reach 3 c {(0, 1)} 1 \<and> map fst (rx_done (flows c 3)) = [0]"
proof -
  obtain c where c: "rx_reach 3 c {(0, 1)} 1" using rx_example_reach by blast
  from rx_completes_in_order [OF this] obtain ptr where "\<forall>k<1. (k, ptr k) \<in> {(0 :: nat, 1 :: nat)}"
    "map fst (rx_done (flows c 3)) = map (\<lambda>k. ptr k - 1) (filter (\<lambda>k. ptr k \<noteq> 0) [0..<1])" by blast
  then have "map fst (rx_done (flows c 3)) = [0]" by simp
  with c show ?thesis by (intro exI conjI)
qed

text \<open>
  C8: a chunk with a valid request is accepted exactly once. If its number lies in the window of
  128 chunks from the first one missing and was not accepted before, both handlers accept it and
  the set of accepted chunks grows by it; a duplicate is dropped by the retransmission handler
  and fails the check of the data handler; a chunk outside the window is dropped.
\<close>

theorem rx_accepts_exactly_new:
  assumes "rx_rel N R ptr (flows c f)" "\<not> rc_mode c" "rx_valid f rid (flows c f)"
    and "f < 2048" "rid < 16" "N \<le> k + 128" "k < N + 256"
    and "imm = imm_of_chunk target (of_nat f) last_chunk (of_nat rid) (csn_of k)"
  shows "(if k < N \<or> N + 128 \<le> k then
      uc_rx_chunk len imm qpidx now queueing c = Some (upd_flow f (upd_pcb count_drop) c) \<and>
      uc_rx_rtx_chunk len imm c = Some (upd_flow f (upd_pcb count_retr_drop) c)
    else if k \<in> R then
      uc_rx_chunk len imm qpidx now queueing c = None \<and>
      uc_rx_rtx_chunk len imm c = Some (upd_flow f (upd_pcb count_retr_drop) c)
    else
      (\<exists>c' M. uc_rx_chunk len imm qpidx now queueing c = Some c' \<and> N \<le> M \<and>
        rx_rel M (insert k R) (ptr(k := if last_chunk then rid + 1 else 0)) (flows c' f)) \<and>
      (\<exists>c' M. uc_rx_rtx_chunk len imm c = Some c' \<and> N \<le> M \<and>
        rx_rel M (insert k R) (ptr(k := if last_chunk then rid + 1 else 0)) (flows c' f)))"
proof -
  have u: "unat (of_nat f :: u32) = f" "unat (of_nat rid :: u32) = rid"
    using assms(4,5) by (simp_all add: unat_of_nat)
  have imm: "unat (GetFID imm) = f" "unat (GetRID imm) = rid" "UINT_CSN_of (GetCSN imm) = csn_of k"
    "(GetHINT imm \<noteq> 0) = last_chunk"
    unfolding assms(8) imm_of_chunk_fields using assms(4,5) u
    by (simp_all only: unat_mask ucast_to_uint32) (simp_all split: if_splits)
  have valid: "rx_valid f (unat (GetRID imm)) (flows c f)" using assms(3) imm(2) by simp
  have ptr: "(if last_chunk then rid + 1 else 0) = (if GetHINT imm \<noteq> 0 then unat (GetRID imm) + 1 else 0)"
    using imm(2,4) by simp
  show ?thesis
  proof (cases "k < N \<or> N + 128 \<le> k")
    case True
    then show ?thesis
      using uc_rx_chunk_drop [OF disjI2 assms(1,6,7) imm(1,3)] by simp
  next
    case False
    then have k: "N \<le> k" "k < N + 128" by auto
    show ?thesis
    proof (cases "k \<in> R")
      case True
      then show ?thesis using uc_rx_chunk_duplicate [OF valid k True assms(1) imm(1,3)] k by simp
    next
      case no: False
      note acc = uc_rx_chunk_accept [OF valid k no assms(1,2) imm(1,3) ptr]
      from acc(1) [of len qpidx now queueing] acc(2) [of len] show ?thesis
        unfolding if_not_P [OF False] if_not_P [OF no] by blast
    qed
  qed
qed

theorem rx_accepts_exactly_new_witness:
  "\<exists>c' M. uc_rx_chunk 4096 (imm_of_chunk None (of_nat 3) True (of_nat 0) (csn_of 0)) 5 100 7 rx_example_supplied = Some c' \<and>
     rx_rel M {0} ((\<lambda>_. 0)(0 := 1)) (flows c' 3)"
proof -
  note t = rx_accepts_exactly_new [OF rx_example_rel(1-3) _ _ _ _ refl, where k = 0 and target = None
      and last_chunk = True and len = 4096 and qpidx = 5 and now = 100 and queueing = 7]
  show ?thesis using t by (simp only: if_False if_True not_less0 empty_iff) auto
qed

end
