(* ===== verification/RdmaTx.thy ===== *)
theory RdmaTx
  imports RdmaFlow
begin

text \<open>
  The send path of \<open>collective/rdma/transport.cc\<close>: chunking and posting of messages under the three
  congestion controls, the retransmission timer of a flow, acknowledgements, fast retransmission
  and retransmission on time-out, credits, and the bursts of the pacing wheel; with
  \<open>TXTracking\<close> of \<open>rdma_io.cc\<close> and the hooks of the context classes in \<open>transport.h\<close>.

  \<open>None\<close> is a failed \<open>UCCL_CHECK\<close> or an access out of the bounds of \<open>unacked_chunks_\<close>; where a loop may
  not end the result is nested, the outer \<open>None\<close> being divergence. Readings of the clock, random
  choices of a queue pair, the windows of the floating-point controllers and the pacing gap come
  with a \<open>TxEnv\<close>. The rates of the controllers, the RTT scoreboard and the pools of retransmission
  headers and completion descriptors, which are shared by all contexts of an engine, are left out.
\<close>

section \<open>Inputs and small operations on the context\<close>

record TxEnv =
  env_now :: nat
  env_pot :: nat
  env_wnd :: nat
  env_sum_tsc :: nat

definition upd_wr :: "nat \<Rightarrow> (wr_ex \<Rightarrow> wr_ex) \<Rightarrow> RDMAContext \<Rightarrow> RDMAContext" where
  "upd_wr a g c = c\<lparr>wr_exs := (wr_exs c)(a := g (wr_exs c a))\<rparr>"

definition upd_ureq :: "nat \<Rightarrow> (ucclRequest \<Rightarrow> ucclRequest) \<Rightarrow> RDMAContext \<Rightarrow> RDMAContext" where
  "upd_ureq r g c = c\<lparr>ureqs := (ureqs c)(r := g (ureqs c r))\<rparr>"

definition alloc_wr_ex :: "RDMAContext \<Rightarrow> (nat \<times> RDMAContext) option" where
  "alloc_wr_ex c =
     (case alloc_buff (wr_ex_pool c) of
        (None, _) \<Rightarrow> None
      | (Some a, p) \<Rightarrow> Some (a, c\<lparr>wr_ex_pool := p\<rparr>))"

definition free_wr_ex :: "nat \<Rightarrow> RDMAContext \<Rightarrow> RDMAContext" where
  "free_wr_ex a c = c\<lparr>wr_ex_pool := free_buff a (wr_ex_pool c)\<rparr>"

definition track_chunk :: "nat \<Rightarrow> ChunkTrack \<Rightarrow> RDMAContext \<Rightarrow> RDMAContext" where
  "track_chunk f ch = upd_flow f (\<lambda>s. s\<lparr>unacked_chunks := unacked_chunks s @ [ch]\<rparr>)"

definition post_send :: "nat \<Rightarrow> RDMAContext \<Rightarrow> RDMAContext" where
  "post_send a c = c\<lparr>data_posted := data_posted c @ [(wx_qpidx (wr_exs c a), wr_exs c a)]\<rparr>"

definition take_csn :: "nat \<Rightarrow> RDMAContext \<Rightarrow> UINT_CSN \<times> RDMAContext" where
  "take_csn f c =
     (let (csn, p) = get_snd_nxt (pcb (flows c f)) in (csn, upd_flow f (upd_pcb (\<lambda>_. p)) c))"

definition count_unacked :: "nat \<Rightarrow> nat \<Rightarrow> RDMAContext \<Rightarrow> RDMAContext" where
  "count_unacked f n c =
     (upd_flow f (\<lambda>s. s\<lparr>unacked_bytes := u32_wrap (unacked_bytes s + n)\<rparr>) c)
       \<lparr>engine_unacked_bytes := u32_wrap (engine_unacked_bytes c + n)\<rparr>"

section \<open>The retransmission timer of a flow\<close>

definition flow_timer :: "nat \<Rightarrow> TimerData" where
  "flow_timer f = \<lparr>td_rdma_ctx = 0, td_flow = f\<rparr>"

definition arm_timer_for_flow :: "nat \<Rightarrow> nat \<Rightarrow> RDMAContext \<Rightarrow> RDMAContext" where
  "arm_timer_for_flow now f c =
     (if \<not> rto_armed (flows c f)
      then upd_flow f (\<lambda>s. s\<lparr>rto_armed := True\<rparr>) (c\<lparr>rto := arm_timer now (flow_timer f) (rto c)\<rparr>)
      else c)"

definition rearm_timer_for_flow :: "nat \<Rightarrow> nat \<Rightarrow> RDMAContext \<Rightarrow> RDMAContext" where
  "rearm_timer_for_flow now f c =
     (if rto_armed (flows c f) then c\<lparr>rto := rearm_timer now (flow_timer f) (rto c)\<rparr>
      else arm_timer_for_flow now f c)"

definition mark_flow_timeout :: "nat \<Rightarrow> RDMAContext \<Rightarrow> RDMAContext" where
  "mark_flow_timeout f = upd_flow f (\<lambda>s. s\<lparr>rto_armed := False\<rparr>)"

definition disarm_timer_for_flow :: "nat \<Rightarrow> RDMAContext \<Rightarrow> RDMAContext" where
  "disarm_timer_for_flow f c =
     (if rto_armed (flows c f)
      then upd_flow f (\<lambda>s. s\<lparr>rto_armed := False\<rparr>) (c\<lparr>rto := disarm_timer (flow_timer f) (rto c)\<rparr>)
      else c)"

section \<open>Choice of a queue pair\<close>

definition kMAXUseCacheQPSize :: nat where
  "kMAXUseCacheQPSize = 8192"

definition kMAXConsecutiveSameChoiceBytes :: nat where
  "kMAXConsecutiveSameChoiceBytes = 16384"

definition can_use_last_choice :: "nat \<Rightarrow> RDMAContext \<Rightarrow> bool \<times> RDMAContext" where
  "can_use_last_choice msize c =
     (if msize \<le> kMAXUseCacheQPSize \<and>
         u32_wrap (consecutive_same_choice_bytes c + msize) \<le> kMAXConsecutiveSameChoiceBytes
      then (True, c\<lparr>consecutive_same_choice_bytes := u32_wrap (consecutive_same_choice_bytes c + msize)\<rparr>)
      else (False, c\<lparr>consecutive_same_choice_bytes := 0\<rparr>))"

text \<open>\<open>pot\<close> is the better of two randomly chosen queue pairs.\<close>

definition select_qpidx_pot :: "nat \<Rightarrow> nat \<Rightarrow> RDMAContext \<Rightarrow> nat \<times> RDMAContext" where
  "select_qpidx_pot pot msize c =
     (let (same, c1) = can_use_last_choice msize c
      in if same then (last_qp_choice c1, c1) else (pot, c1\<lparr>last_qp_choice := pot\<rparr>))"

section \<open>How much may be sent\<close>

definition kMaxUnAckedBytesPerFlow :: "RDMAContext \<Rightarrow> nat" where
  "kMaxUnAckedBytesPerFlow c = 2 * max (chunk_size c) 32768"

definition kMaxUnAckedBytesPerEngineLow :: "RDMAContext \<Rightarrow> nat" where
  "kMaxUnAckedBytesPerEngineLow c = (if is_roce c then 8 else 18) * max (chunk_size c) 32768"

definition kMaxUnAckedBytesPerEngineHigh :: "RDMAContext \<Rightarrow> nat" where
  "kMaxUnAckedBytesPerEngineHigh c = (if is_roce c then 12 else 24) * max (chunk_size c) 32768"

definition chunk_size_eqds :: "nat \<Rightarrow> nat \<Rightarrow> nat \<Rightarrow> RDMAContext \<Rightarrow> nat \<times> RDMAContext" where
  "chunk_size_eqds wnd f remaining_bytes c =
     (let sf = flows c f
      in if unacked_bytes sf \<ge> wnd then (0, c)
         else
           (let n = min (min (chunk_size c) (credit (eqds_cc (pcb sf)))) remaining_bytes;
                (spent, cc) = spend_credit n (eqds_cc (pcb sf));
                c1 = upd_flow f (upd_pcb (\<lambda>p. p\<lparr>eqds_cc := cc\<rparr>)) c
            in (if \<not> spent then 0 else n, c1)))"

definition chunk_size_swift :: "nat \<Rightarrow> nat \<Rightarrow> nat \<Rightarrow> RDMAContext \<Rightarrow> nat" where
  "chunk_size_swift wnd f remaining_bytes c =
     (if remaining_bytes \<le> chunk_size c then remaining_bytes
      else
        (let hard_budget = u32_sub (kMaxUnAckedBytesPerEngineHigh c) (engine_unacked_bytes c);
             soft_budget = u32_sub (kMaxUnAckedBytesPerEngineLow c) (engine_unacked_bytes c);
             flow_budget = u32_sub (kMaxUnAckedBytesPerFlow c) (unacked_bytes (flows c f));
             cc_budget = u32_sub wnd (unacked_bytes (flows c f));
             ready_bytes = min (min remaining_bytes cc_budget) (chunk_size c)
         in if ready_bytes > hard_budget then 0
            else if ready_bytes \<le> soft_budget \<or> ready_bytes \<le> flow_budget then ready_bytes
            else 0))"

definition chunk_size_timely :: "nat \<Rightarrow> nat \<Rightarrow> RDMAContext \<Rightarrow> nat" where
  "chunk_size_timely f remaining_bytes c =
     (let ready_bytes = min remaining_bytes (chunk_size c)
      in if u32_wrap (engine_unacked_bytes c + ready_bytes) > kMaxUnAckedBytesPerEngineHigh c then 0
         else if u32_wrap (engine_unacked_bytes c + ready_bytes) \<le> kMaxUnAckedBytesPerEngineLow c \<or>
                 u32_wrap (unacked_bytes (flows c f) + ready_bytes) \<le> kMaxUnAckedBytesPerFlow c
         then ready_bytes
         else 0)"

definition EventOnChunkSize :: "nat \<Rightarrow> nat \<Rightarrow> nat \<Rightarrow> RDMAContext \<Rightarrow> nat \<times> RDMAContext" where
  "EventOnChunkSize wnd f remaining_bytes c =
     (case cc_kind c of
        EQDSRDMAContext \<Rightarrow> chunk_size_eqds wnd f remaining_bytes c
      | SwiftRDMAContext \<Rightarrow> (chunk_size_swift wnd f remaining_bytes c, c)
      | TimelyRDMAContext \<Rightarrow> (chunk_size_timely f remaining_bytes c, c))"

section \<open>Sending a message\<close>

text \<open>The work request of the chunk at \<open>sent_offset\<close> of request \<open>r\<close>, at address \<open>a\<close>.\<close>

definition fill_wr :: "nat \<Rightarrow> nat \<Rightarrow> nat \<Rightarrow> RDMAContext \<Rightarrow> RDMAContext" where
  "fill_wr a r n c =
     upd_wr a (\<lambda>x. x\<lparr>wx_addr := laddr (ureqs c r) + sent_offset (ureqs c r), wx_length := n,
                     wx_remote_addr := raddr (ureqs c r) + sent_offset (ureqs c r)\<rparr>) c"

definition is_last_chunk :: "nat \<Rightarrow> nat \<Rightarrow> RDMAContext \<Rightarrow> bool" where
  "is_last_chunk r n c \<longleftrightarrow> u32_wrap (sent_offset (ureqs c r) + n) = data_len (ureqs c r)"

definition set_imm :: "nat \<Rightarrow> nat \<Rightarrow> IMMData \<Rightarrow> RDMAContext \<Rightarrow> RDMAContext" where
  "set_imm a f imm c =
     upd_wr a (\<lambda>x. x\<lparr>wx_imm := imm, wx_wr_id := (if rc_mode c then (GetCSN imm, f) else (0, 0))\<rparr>) c"

definition advance_offset :: "nat \<Rightarrow> nat \<Rightarrow> RDMAContext \<Rightarrow> RDMAContext" where
  "advance_offset r n = upd_ureq r (\<lambda>u. u\<lparr>sent_offset := u32_wrap (sent_offset u + n)\<rparr>)"

text \<open>Posting a prepared work request on a queue pair, and tracking it.\<close>

definition transmit :: "nat \<Rightarrow> nat \<Rightarrow> nat \<Rightarrow> nat \<Rightarrow> nat \<Rightarrow> nat \<Rightarrow> RDMAContext \<Rightarrow> RDMAContext" where
  "transmit pot now f r a n c =
     (let (qpidx, c1) = select_qpidx_pot pot n c;
          c2 = post_send a (upd_wr a (\<lambda>x. x\<lparr>wx_qpidx := qpidx\<rparr>) c1);
          imm = wx_imm (wr_exs c a);
          c3 = track_chunk f \<lparr>ct_ureq = r, ct_wr_ex = a, ct_timestamp = now, ct_csn = GetCSN imm,
                              ct_last_chunk = (GetHINT imm \<noteq> 0)\<rparr> c2
      in if \<not> rc_mode c3 then arm_timer_for_flow now f c3 else c3)"

text \<open>Allocation of a work request and its preparation up to the choice of the queue pair.\<close>

definition prepare_chunk ::
  "PullQuanta option \<Rightarrow> nat \<Rightarrow> nat \<Rightarrow> nat \<Rightarrow> RDMAContext \<Rightarrow> (nat \<times> RDMAContext) option" where
  "prepare_chunk pull_target f r n c =
     (case alloc_wr_ex c of
        None \<Rightarrow> None
      | Some (a, c1) \<Rightarrow>
          (let c2 = fill_wr a r n c1;
               (csn, c3) = take_csn f c2;
               imm = imm_of_chunk pull_target (of_nat (fid (flows c3 f))) (is_last_chunk r n c3)
                       (of_nat (send_rid (ureqs c3 r))) csn
           in Some (a, set_imm a f imm c3)))"

definition finish_chunk :: "nat \<Rightarrow> nat \<Rightarrow> nat \<Rightarrow> RDMAContext \<Rightarrow> RDMAContext" where
  "finish_chunk f r n c = count_unacked f n (advance_offset r n c)"

text \<open>One turn of \<open>senderCC_tx_message\<close> after the size of the chunk is known, without pacing.\<close>

definition send_bypassing :: "TxEnv \<Rightarrow> nat \<Rightarrow> nat \<Rightarrow> nat \<Rightarrow> nat \<Rightarrow> RDMAContext \<Rightarrow> RDMAContext option option" where
  "send_bypassing env now f r n c =
     (case prepare_chunk None f r n c of
        None \<Rightarrow> Some None
      | Some (a, c1) \<Rightarrow> Some (Some (finish_chunk f r n (transmit (env_pot env) now f r a n c1))))"

text \<open>The header bytes that the pacing accounts for; the two constants are used as the code has them.\<close>

definition IB_HDR_OVERHEAD :: nat where
  "IB_HDR_OVERHEAD = 8 + 40 + 12"

definition ROCE_IPV4_HDR_OVERHEAD :: nat where
  "ROCE_IPV4_HDR_OVERHEAD = 14 + 20 + 8 + 12"

definition hdr_overhead :: "nat \<Rightarrow> RDMAContext \<Rightarrow> nat" where
  "hdr_overhead n c =
     (if n = chunk_size c \<and> mtu_bytes c = 4096
      then (if is_roce c then ((chunk_size c + 4096) div 4096) * IB_HDR_OVERHEAD
            else ((chunk_size c + 4096) div 4096) * ROCE_IPV4_HDR_OVERHEAD)
      else ((n + mtu_bytes c) div mtu_bytes c) * (if is_roce c then ROCE_IPV4_HDR_OVERHEAD else IB_HDR_OVERHEAD))"

definition EventOnQueueData ::
  "TxEnv \<Rightarrow> nat \<Rightarrow> nat \<Rightarrow> nat \<Rightarrow> nat \<Rightarrow> RDMAContext \<Rightarrow> (bool \<times> RDMAContext) option option" where
  "EventOnQueueData env now f a full_chunk_size c =
     (case cc_kind c of
        EQDSRDMAContext \<Rightarrow> Some (Some (False, c))
      | SwiftRDMAContext \<Rightarrow> Some (Some (False, c))
      | TimelyRDMAContext \<Rightarrow>
          (case queue_on_timing_wheel (env_sum_tsc env) (prev_desired_tx_tsc (pcb (flows c f))) now a full_chunk_size
                  (in_wheel_cnt (flows c f) = 0) (pacing_wheel c) of
             None \<Rightarrow> None
           | Some None \<Rightarrow> Some None
           | Some (Some (queued, prev, w)) \<Rightarrow>
               Some (Some (queued, upd_flow f (upd_pcb (\<lambda>p. p\<lparr>prev_desired_tx_tsc := prev\<rparr>)) (c\<lparr>pacing_wheel := w\<rparr>)))))"

definition send_paced :: "TxEnv \<Rightarrow> nat \<Rightarrow> nat \<Rightarrow> nat \<Rightarrow> nat \<Rightarrow> RDMAContext \<Rightarrow> RDMAContext option option" where
  "send_paced env now f r n c =
     (case prepare_chunk None f r n c of
        None \<Rightarrow> Some None
      | Some (a, c1) \<Rightarrow>
          (case EventOnQueueData env now f a (n + hdr_overhead n c1) c1 of
             None \<Rightarrow> None
           | Some None \<Rightarrow> Some None
           | Some (Some (queued, c2)) \<Rightarrow>
               Some (Some (finish_chunk f r n
                 (if queued
                  then upd_wr a (\<lambda>x. x\<lparr>wx_ureq := r\<rparr>) (upd_flow f (\<lambda>s. s\<lparr>in_wheel_cnt := in_wheel_cnt s + 1\<rparr>) c2)
                  else transmit (env_pot env) now f r a n c2)))))"

text \<open>The loop; turn \<open>i\<close> has its inputs in \<open>env i\<close>, and \<open>now\<close> is read before the loop.\<close>

partial_function (option) senderCC_loop ::
  "(nat \<Rightarrow> TxEnv) \<Rightarrow> nat \<Rightarrow> nat \<Rightarrow> nat \<Rightarrow> RDMAContext \<Rightarrow> (bool \<times> RDMAContext) option option" where
  "senderCC_loop env now i r c =
     (let u = ureqs c r; f = ureq_flow u
      in if sent_offset u < data_len u \<or> data_len u = 0
         then
           (let (n, c1) = EventOnChunkSize (env_wnd (env i)) f (u32_sub (data_len u) (sent_offset u)) c
            in if n = 0 \<and> data_len u \<noteq> 0 then Some (Some (False, c1))
               else
                 (case (if bypass_pacing c1 then send_bypassing (env i) now f r n c1 else send_paced (env i) now f r n c1) of
                    None \<Rightarrow> None
                  | Some None \<Rightarrow> Some None
                  | Some (Some c2) \<Rightarrow>
                      if data_len u = 0 then Some (Some (True, c2)) else senderCC_loop env now (i + 1) r c2))
         else Some (Some (True, c)))"

definition senderCC_tx_message ::
  "(nat \<Rightarrow> TxEnv) \<Rightarrow> nat \<Rightarrow> RDMAContext \<Rightarrow> (bool \<times> RDMAContext) option option" where
  "senderCC_tx_message env r c = senderCC_loop env (env_now (env 0)) 0 r c"

text \<open>
  One-sided writes and reads. They overwrite the operation code of the pooled work request, always
  use the id that the reliable mode uses, and arm no timer.
\<close>

definition send_one_sided :: "wr_opcode \<Rightarrow> TxEnv \<Rightarrow> nat \<Rightarrow> nat \<Rightarrow> nat \<Rightarrow> RDMAContext \<Rightarrow> RDMAContext option" where
  "send_one_sided opc env f r n c =
     (case alloc_wr_ex c of
        None \<Rightarrow> None
      | Some (a, c1) \<Rightarrow>
          (let c2 = upd_wr a (\<lambda>x. x\<lparr>wx_opcode := opc\<rparr>) (fill_wr a r n c1);
               (csn, c3) = take_csn f c2;
               (qpidx, c4) = select_qpidx_pot (env_pot env) n
                               (upd_wr a (\<lambda>x. x\<lparr>wx_wr_id := (to_uint32 csn, f)\<rparr>) c3);
               c5 = post_send a (upd_wr a (\<lambda>x. x\<lparr>wx_qpidx := qpidx\<rparr>) c4);
               c6 = track_chunk f \<lparr>ct_ureq = r, ct_wr_ex = a, ct_timestamp = env_now env, ct_csn = to_uint32 csn,
                                   ct_last_chunk = is_last_chunk r n c5\<rparr> c5
           in Some (finish_chunk f r n c6)))"

partial_function (option) one_sided_loop ::
  "wr_opcode \<Rightarrow> (nat \<Rightarrow> TxEnv) \<Rightarrow> nat \<Rightarrow> nat \<Rightarrow> RDMAContext \<Rightarrow> (bool \<times> RDMAContext) option option" where
  "one_sided_loop opc env i r c =
     (let u = ureqs c r; f = ureq_flow u
      in if sent_offset u < data_len u \<or> data_len u = 0
         then
           (let (n, c1) = EventOnChunkSize (env_wnd (env i)) f (u32_sub (data_len u) (sent_offset u)) c
            in if n = 0 \<and> data_len u \<noteq> 0 then Some (Some (False, c1))
               else
                 (case send_one_sided opc (env i) f r n c1 of
                    None \<Rightarrow> Some None
                  | Some c2 \<Rightarrow>
                      if data_len u = 0 then Some (Some (True, c2)) else one_sided_loop opc env (i + 1) r c2))
         else Some (Some (True, c)))"

definition senderCC_tx_write ::
  "(nat \<Rightarrow> TxEnv) \<Rightarrow> nat \<Rightarrow> RDMAContext \<Rightarrow> (bool \<times> RDMAContext) option option" where
  "senderCC_tx_write env r c =
     (if data_len (ureqs c r) = 0 then Some None else one_sided_loop RDMA_WRITE env 0 r c)"

definition senderCC_tx_read ::
  "(nat \<Rightarrow> TxEnv) \<Rightarrow> nat \<Rightarrow> RDMAContext \<Rightarrow> (bool \<times> RDMAContext) option option" where
  "senderCC_tx_read env r c =
     (if data_len (ureqs c r) = 0 then Some None else one_sided_loop RDMA_READ env 0 r c)"

section \<open>Retransmission\<close>

definition EventOnTxRTXData :: "nat \<Rightarrow> nat \<Rightarrow> nat \<Rightarrow> RDMAContext \<Rightarrow> bool \<times> RDMAContext" where
  "EventOnTxRTXData wnd f a c =
     (case cc_kind c of
        EQDSRDMAContext \<Rightarrow>
          (let n = wx_length (wr_exs c a);
               cc = eqds_cc (pcb (flows c f));
               enough = (credit cc \<ge> n);
               (spent, cc1) = (if enough then spend_credit n cc else (False, cc));
               c1 = upd_flow f (upd_pcb (\<lambda>p. p\<lparr>eqds_cc := cc1\<rparr>)) c
           in if \<not> spent then (False, upd_flow f (\<lambda>s. s\<lparr>in_rtx := True\<rparr>) c1)
              else
                (let (pull_target, cc2) = compute_pull_target (backlog_bytes (flows c1 f)) wnd n cc1;
                     c2 = upd_flow f (upd_pcb (\<lambda>p. p\<lparr>eqds_cc := cc2\<rparr>)) c1
                 in (True, upd_wr a (\<lambda>x. x\<lparr>wx_imm := SetTarget (ucast pull_target) (wx_imm x)\<rparr>) c2)))
      | SwiftRDMAContext \<Rightarrow> (True, c)
      | TimelyRDMAContext \<Rightarrow> (True, c))"

text \<open>A retransmission carries the immediate and the remote address of the work request.\<close>

definition try_retransmit_chunk :: "nat \<Rightarrow> nat \<Rightarrow> nat \<Rightarrow> RDMAContext \<Rightarrow> bool \<times> RDMAContext" where
  "try_retransmit_chunk wnd f a c =
     (let (ok, c1) = EventOnTxRTXData wnd f a c
      in if \<not> ok then (False, c1)
         else (True, c1\<lparr>rtx_posted := rtx_posted c1 @ [(wx_qpidx (wr_exs c1 a), wr_exs c1 a)]\<rparr>))"

definition count_fast_rexmit :: "nat \<Rightarrow> RDMAContext \<Rightarrow> RDMAContext" where
  "count_fast_rexmit f = upd_flow f (upd_pcb (\<lambda>p. p\<lparr>stats_fast_rexmits := stats_fast_rexmits p + 1\<rparr>))"

definition count_rexmit :: "bool \<Rightarrow> nat \<Rightarrow> RDMAContext \<Rightarrow> RDMAContext" where
  "count_rexmit by_rto f =
     (if by_rto
      then upd_flow f (upd_pcb (\<lambda>p. p\<lparr>stats_rto_rexmits := stats_rto_rexmits p + 1,
                                      rto_rexmits_consectutive := rto_rexmits_consectutive p + 1\<rparr>))
      else count_fast_rexmit f)"

text \<open>
  The walk over a SACK bitmap that both retransmission paths have. \<open>base\<close> is the sequence number of
  bit 0. The result says whether a chunk was retransmitted; \<open>in_recovery\<close> tells the path taken on
  duplicate acknowledgements, which counts each chunk and re-arms the timer at every hole.
\<close>

function rexmit_holes ::
  "bool \<Rightarrow> (nat \<Rightarrow> TxEnv) \<Rightarrow> nat \<Rightarrow> UINT_CSN \<Rightarrow> u64 list \<Rightarrow> nat \<Rightarrow> nat \<Rightarrow> bool \<Rightarrow> RDMAContext \<Rightarrow> (bool \<times> RDMAContext) option"
where
  "rexmit_holes in_recovery env f base bm index cnt sent c =
     (if cnt \<noteq> 0 \<and> index < kSackBitmapSize \<and> unacked_chunks (flows c f) \<noteq> []
      then
        (if \<not> bitmap_bit bm index
         then
           (let seqno = csn_add base (UINT_CSN_of (of_nat index))
            in if index \<ge> length (unacked_chunks (flows c f)) then None
               else
                 (let chunk = unacked_chunks (flows c f) ! index;
                      (index', sent', c1) =
                        (if seqno = UINT_CSN_of (ct_csn chunk)
                         then (let (ok, c') = try_retransmit_chunk (env_wnd (env index)) f (ct_wr_ex chunk) c
                               in if ok then (index, True, if in_recovery then count_fast_rexmit f c' else c')
                                  else (kSackBitmapSize, sent, c'))
                         else (index, sent, c));
                      c2 = (if in_recovery then rearm_timer_for_flow (env_now (env index)) f c1 else c1)
                  in rexmit_holes in_recovery env f base bm (index' + 1) cnt sent' c2))
         else rexmit_holes in_recovery env f base bm (index + 1) (cnt - 1) sent c)
      else Some (sent, c))"
  by pat_completeness auto
termination
  by (relation "measure (\<lambda>(ir, env, f, base, bm, index, cnt, sent, c). kSackBitmapSize - index)") (auto split: if_splits prod.splits)

declare rexmit_holes.simps [simp del]

text \<open>\<open>env index\<close> are the inputs of the turn at \<open>index\<close>, \<open>env kSackBitmapSize\<close> those after the walk.\<close>

definition retransmit_for_flow :: "bool \<Rightarrow> (nat \<Rightarrow> TxEnv) \<Rightarrow> nat \<Rightarrow> RDMAContext \<Rightarrow> RDMAContext option" where
  "retransmit_for_flow by_rto env f c =
     (case unacked_chunks (flows c f) of
        [] \<Rightarrow> Some c
      | chunk # _ \<Rightarrow>
          (let p = pcb (flows c f); e = env kSackBitmapSize
           in if tx_sack_bitmap_count p = 0
              then
                (let (_, c1) = try_retransmit_chunk (env_wnd e) f (ct_wr_ex chunk) c
                 in Some (count_rexmit by_rto f (rearm_timer_for_flow (env_now e) f c1)))
              else
                (case rexmit_holes False env f (UINT_CSN_of (tx_sack_bitmap_base p)) (tx_sack_bitmap p) 0
                        (unat (tx_sack_bitmap_count p)) False c of
                   None \<Rightarrow> None
                 | Some (sent, c1) \<Rightarrow>
                     (let c2 = rearm_timer_for_flow (env_now e) f c1
                      in Some (if sent then count_rexmit by_rto f c2 else c2)))))"

definition fast_retransmit_for_flow :: "(nat \<Rightarrow> TxEnv) \<Rightarrow> nat \<Rightarrow> RDMAContext \<Rightarrow> RDMAContext option" where
  "fast_retransmit_for_flow env f c = (if is_roce c then retransmit_for_flow False env f c else Some c)"

definition rto_retransmit_for_flow :: "(nat \<Rightarrow> TxEnv) \<Rightarrow> nat \<Rightarrow> RDMAContext \<Rightarrow> RDMAContext option" where
  "rto_retransmit_for_flow env f c = (if is_roce c then retransmit_for_flow True env f c else Some c)"

definition drain_rtx_queue :: "(nat \<Rightarrow> TxEnv) \<Rightarrow> nat \<Rightarrow> RDMAContext \<Rightarrow> RDMAContext option" where
  "drain_rtx_queue env f c = fast_retransmit_for_flow env f c"

section \<open>Sending under receiver-driven control\<close>

definition send_pulling :: "TxEnv \<Rightarrow> nat \<Rightarrow> nat \<Rightarrow> nat \<Rightarrow> nat \<Rightarrow> RDMAContext \<Rightarrow> RDMAContext option" where
  "send_pulling env now f r n c =
     (let c1 = upd_flow f (\<lambda>s. s\<lparr>backlog_bytes := u32_sub (backlog_bytes s) n\<rparr>) c;
          (pull_target, cc) = compute_pull_target (backlog_bytes (flows c1 f)) (env_wnd env) n (eqds_cc (pcb (flows c1 f)));
          c2 = upd_flow f (upd_pcb (\<lambda>p. p\<lparr>eqds_cc := cc\<rparr>)) c1
      in case prepare_chunk (Some pull_target) f r n c2 of
           None \<Rightarrow> None
         | Some (a, c3) \<Rightarrow> Some (finish_chunk f r n (transmit (env_pot env) now f r a n c3)))"

partial_function (option) receiverCC_loop ::
  "(nat \<Rightarrow> TxEnv) \<Rightarrow> nat \<Rightarrow> nat \<Rightarrow> nat \<Rightarrow> RDMAContext \<Rightarrow> (bool \<times> RDMAContext) option option" where
  "receiverCC_loop env now i r c =
     (let u = ureqs c r; f = ureq_flow u
      in if sent_offset u < data_len u \<or> data_len u = 0
         then
           (let (n, c1) = EventOnChunkSize (env_wnd (env i)) f (u32_sub (data_len u) (sent_offset u)) c
            in if n = 0 \<and> data_len u \<noteq> 0 then Some (Some (False, c1))
               else
                 (case send_pulling (env i) now f r n c1 of
                    None \<Rightarrow> Some None
                  | Some c2 \<Rightarrow>
                      if data_len u = 0 then Some (Some (True, c2)) else receiverCC_loop env now (i + 1) r c2))
         else Some (Some (True, c)))"

definition receiverCC_tx_message ::
  "(nat \<Rightarrow> TxEnv) \<Rightarrow> nat \<Rightarrow> RDMAContext \<Rightarrow> (bool \<times> RDMAContext) option option" where
  "receiverCC_tx_message env r c =
     (let f = ureq_flow (ureqs c r);
          size = data_len (ureqs c r);
          c1 = (if \<not> inc_backlog (ureqs c r)
                then upd_flow f (\<lambda>s. s\<lparr>backlog_bytes := u32_wrap (backlog_bytes s + size)\<rparr>)
                       (upd_ureq r (\<lambda>u. u\<lparr>inc_backlog := True\<rparr>) c)
                else c)
      in if in_rtx (flows c1 f)
         then (case drain_rtx_queue env f c1 of None \<Rightarrow> Some None | Some c2 \<Rightarrow> Some (Some (False, c2)))
         else receiverCC_loop env (env_now (env 0)) 0 r c1)"

definition tx_message :: "(nat \<Rightarrow> TxEnv) \<Rightarrow> nat \<Rightarrow> RDMAContext \<Rightarrow> (bool \<times> RDMAContext) option option" where
  "tx_message env r c =
     (if cc_kind c = EQDSRDMAContext then receiverCC_tx_message env r c
      else if ureq_type (ureqs c r) = ReqRead then senderCC_tx_read env r c
      else if ureq_type (ureqs c r) = ReqWrite then senderCC_tx_write env r c
      else senderCC_tx_message env r c)"

section \<open>Acknowledgements\<close>

text \<open>The head of \<open>unacked_chunks_\<close> is acknowledged: wake-up of the sender, accounting, release.\<close>

definition ack_head :: "nat \<Rightarrow> ChunkTrack \<Rightarrow> ChunkTrack list \<Rightarrow> RDMAContext \<Rightarrow> RDMAContext" where
  "ack_head f ch rest c =
     free_wr_ex (ct_wr_ex ch)
       (upd_flow f (\<lambda>s. s\<lparr>tx_done := (if ct_last_chunk ch then tx_done s @ [ct_ureq ch] else tx_done s),
                          unacked_bytes := u32_sub (unacked_bytes s) (wx_length (wr_exs c (ct_wr_ex ch))),
                          unacked_chunks := rest\<rparr>) c)"

fun ack_transmitted_chunks :: "nat \<Rightarrow> nat \<Rightarrow> RDMAContext \<Rightarrow> RDMAContext option" where
  "ack_transmitted_chunks f 0 c = Some c"
| "ack_transmitted_chunks f (Suc num_acked_chunks) c =
     (case unacked_chunks (flows c f) of
        [] \<Rightarrow> None
      | ch # rest \<Rightarrow> ack_transmitted_chunks f num_acked_chunks (ack_head f ch rest c))"

text \<open>When no tracked chunk has the sequence number, the code reads uninitialised variables.\<close>

definition ack_rc_transmitted_chunks :: "UINT_CSN \<Rightarrow> nat \<Rightarrow> RDMAContext \<Rightarrow> RDMAContext option" where
  "ack_rc_transmitted_chunks csn f c =
     (case find (\<lambda>i. ct_csn (unacked_chunks (flows c f) ! i) = to_uint32 csn) [0..<length (unacked_chunks (flows c f))] of
        None \<Rightarrow> None
      | Some i \<Rightarrow>
          (let ch = unacked_chunks (flows c f) ! i;
               n = wx_length (wr_exs c (ct_wr_ex ch));
               c1 = upd_ureq (ct_ureq ch) (\<lambda>u. u\<lparr>acked_bytes := u32_wrap (acked_bytes u + n)\<rparr>) c;
               done = (acked_bytes (ureqs c1 (ct_ureq ch)) = data_len (ureqs c1 (ct_ureq ch)));
               c2 = upd_flow f (\<lambda>s. s\<lparr>tx_done := (if done then tx_done s @ [ct_ureq ch] else tx_done s),
                                      unacked_bytes := u32_sub (unacked_bytes s) n,
                                      unacked_chunks := take i (unacked_chunks s) @ drop (i + 1) (unacked_chunks s)\<rparr>) c1
           in Some (free_wr_ex (ct_wr_ex ch)
                (c2\<lparr>engine_unacked_bytes := u32_sub (engine_unacked_bytes c2) n\<rparr>))))"

definition rc_rx_ack :: "u32 \<times> nat \<Rightarrow> RDMAContext \<Rightarrow> RDMAContext option" where
  "rc_rx_ack wr_id c = ack_rc_transmitted_chunks (UINT_CSN_of (fst wr_id)) (snd wr_id) c"

definition EventOnRxACK :: "nat \<Rightarrow> RDMAContext \<Rightarrow> RDMAContext" where
  "EventOnRxACK f c =
     (case cc_kind c of
        EQDSRDMAContext \<Rightarrow>
          upd_flow f (\<lambda>s. upd_pcb (\<lambda>p. p\<lparr>eqds_cc := stop_speculating (eqds_cc p)\<rparr>) (s\<lparr>in_rtx := False\<rparr>)) c
      | SwiftRDMAContext \<Rightarrow> c
      | TimelyRDMAContext \<Rightarrow> c)"

definition ROCE_DUP_ACK_THRES :: nat where
  "ROCE_DUP_ACK_THRES = 32"

definition rx_duplicate_ack :: "(nat \<Rightarrow> TxEnv) \<Rightarrow> nat \<Rightarrow> UcclSackHdr \<Rightarrow> RDMAContext \<Rightarrow> RDMAContext option" where
  "rx_duplicate_ack env f h c =
     (let c1 = upd_flow f (upd_pcb (\<lambda>p. p\<lparr>duplicate_acks := duplicate_acks p + 1,
                                         snd_ooo_acks := UINT_CSN_of (ucast (sh_sack_bitmap_count h))\<rparr>)) c;
          dups = unat (duplicate_acks (pcb (flows c1 f)));
          fast_rexmit_thres = (if is_roce c1 then ROCE_DUP_ACK_THRES else 65536)
      in if dups < fast_rexmit_thres then Some c1
         else if dups = fast_rexmit_thres then fast_retransmit_for_flow env f c1
         else map_option snd (rexmit_holes True env f (snd_una (pcb (flows c1 f))) (sh_sack_bitmap h) 0
                                (unat (sh_sack_bitmap_count h)) False c1))"

definition rx_valid_ack :: "(nat \<Rightarrow> TxEnv) \<Rightarrow> nat \<Rightarrow> UcclSackHdr \<Rightarrow> RDMAContext \<Rightarrow> RDMAContext option" where
  "rx_valid_ack env f h c =
     (let c0 = EventOnRxACK f c;
          ack = UINT_CSN_of (ucast (sh_ackno h));
          num_acked_chunks = csn_sub ack (snd_una (pcb (flows c0 f)))
      in case ack_transmitted_chunks f (unat (to_uint32 num_acked_chunks)) c0 of
           None \<Rightarrow> None
         | Some c1 \<Rightarrow>
             (let reduced_bytes = u32_sub (unacked_bytes (flows c0 f)) (unacked_bytes (flows c1 f));
                  c2 = c1\<lparr>engine_unacked_bytes := u32_sub (engine_unacked_bytes c1) reduced_bytes\<rparr>;
                  c3 = upd_flow f (upd_pcb (\<lambda>p. p\<lparr>snd_una := ack, duplicate_acks := 0, snd_ooo_acks := 0,
                                                 rto_rexmits_consectutive := 0\<rparr>)) c2
              in Some (if unacked_chunks (flows c3 f) \<noteq> [] then rearm_timer_for_flow (env_now (env 0)) f c3
                       else disarm_timer_for_flow f c3)))"

definition store_sack :: "UcclSackHdr \<Rightarrow> PCB \<Rightarrow> PCB" where
  "store_sack h p = p\<lparr>tx_sack_bitmap := sh_sack_bitmap h, tx_sack_bitmap_count := ucast (sh_sack_bitmap_count h),
     tx_sack_bitmap_base := ucast (sh_ackno h)\<rparr>"

definition uc_rx_ack :: "(nat \<Rightarrow> TxEnv) \<Rightarrow> UcclSackHdr \<Rightarrow> RDMAContext \<Rightarrow> RDMAContext option" where
  "uc_rx_ack env h c =
     (let f = sh_fid h;
          ack = UINT_CSN_of (ucast (sh_ackno h));
          p = pcb (flows c f);
          store = map_option (upd_flow f (upd_pcb (store_sack h)))
      in if seqno_lt ack (snd_una p) then Some c
         else if seqno_gt ack (snd_nxt p) then Some c
         else if seqno_eq ack (snd_una p) then store (rx_duplicate_ack env f h c)
         else store (rx_valid_ack env f h c))"

section \<open>Credits, time-outs and bursts\<close>

definition rx_credit :: "(nat \<Rightarrow> TxEnv) \<Rightarrow> nat \<Rightarrow> PullQuanta \<Rightarrow> RDMAContext \<Rightarrow> RDMAContext option" where
  "rx_credit env f pullno c =
     (case cc_kind c of
        EQDSRDMAContext \<Rightarrow>
          (let c1 = upd_flow f (upd_pcb (\<lambda>p. p\<lparr>eqds_cc := snd (handle_pull pullno (stop_speculating (eqds_cc p)))\<rparr>)) c
           in if in_rtx (flows c1 f) then drain_rtx_queue env f c1 else Some c1)
      | SwiftRDMAContext \<Rightarrow> Some c
      | TimelyRDMAContext \<Rightarrow> Some c)"

fun rto_flows :: "(nat \<Rightarrow> nat \<Rightarrow> TxEnv) \<Rightarrow> TimerData list \<Rightarrow> RDMAContext \<Rightarrow> RDMAContext option" where
  "rto_flows envs [] c = Some c"
| "rto_flows envs (d # ds) c =
     (case rto_retransmit_for_flow (envs (td_flow d)) (td_flow d) (mark_flow_timeout (td_flow d) c) of
        None \<Rightarrow> None
      | Some c1 \<Rightarrow> rto_flows envs ds c1)"

definition is_no_rto :: "RDMAContext \<Rightarrow> bool" where
  "is_no_rto c \<longleftrightarrow> \<not> is_roce c"

definition handle_rto :: "(nat \<Rightarrow> nat \<Rightarrow> TxEnv) \<Rightarrow> nat \<Rightarrow> RDMAContext \<Rightarrow> RDMAContext option" where
  "handle_rto envs now c =
     (if is_no_rto c then Some c
      else (let (expired, tm) = check_expired now (rto c) in rto_flows envs expired (c\<lparr>rto := tm\<rparr>)))"

definition kMaxBurstTW :: nat where
  "kMaxBurstTW = 8"

text \<open>Turn \<open>i\<close> of the burst sends the head of the ready queue.\<close>

fun burst_loop :: "(nat \<Rightarrow> TxEnv) \<Rightarrow> nat \<Rightarrow> RDMAContext \<Rightarrow> RDMAContext" where
  "burst_loop env 0 c = c"
| "burst_loop env (Suc n) c =
     (case ready_queue (pacing_wheel c) of
        [] \<Rightarrow> c
      | a # q \<Rightarrow>
          (let r = wx_ureq (wr_exs c a);
               f = ureq_flow (ureqs c r);
               c1 = transmit (env_pot (env n)) (env_now (env n)) f r a (wx_length (wr_exs c a)) c;
               c2 = upd_flow f (\<lambda>s. s\<lparr>in_wheel_cnt := in_wheel_cnt s - 1\<rparr>) c1;
               c3 = c2\<lparr>pacing_wheel := (pacing_wheel c2)\<lparr>ready_queue := q\<rparr>\<rparr>
           in if engine_unacked_bytes c3 \<ge> kMaxUnAckedBytesPerEngineHigh c3 then c3 else burst_loop env n c3))"

definition burst_timing_wheel :: "(nat \<Rightarrow> TxEnv) \<Rightarrow> nat \<Rightarrow> RDMAContext \<Rightarrow> RDMAContext option option" where
  "burst_timing_wheel env now c =
     (case reap now (pacing_wheel c) of
        None \<Rightarrow> None
      | Some None \<Rightarrow> Some None
      | Some (Some w) \<Rightarrow> Some (Some (burst_loop env (min kMaxBurstTW (length (ready_queue w))) (c\<lparr>pacing_wheel := w\<rparr>))))"

section \<open>Fields after each operation\<close>

lemma rto_armed_same:
  "rto_armed s \<Longrightarrow> s\<lparr>rto_armed := True\<rparr> = s" "\<not> rto_armed s \<Longrightarrow> s\<lparr>rto_armed := False\<rparr> = s"
  by (cases s; simp)+

lemma upd_wr_sel [simp]:
  "cc_kind (upd_wr a g c) = cc_kind c" "rc_mode (upd_wr a g c) = rc_mode c" "flows (upd_wr a g c) = flows c"
  "ack_list (upd_wr a g c) = ack_list c" "tx_ack_wrs (upd_wr a g c) = tx_ack_wrs c"
  "acks_posted (upd_wr a g c) = acks_posted c" "pull_requests (upd_wr a g c) = pull_requests c"
  "engine_unacked_bytes (upd_wr a g c) = engine_unacked_bytes c" "rtx_posted (upd_wr a g c) = rtx_posted c"
  "is_roce (upd_wr a g c) = is_roce c" "bypass_pacing (upd_wr a g c) = bypass_pacing c"
  "chunk_size (upd_wr a g c) = chunk_size c" "mtu_bytes (upd_wr a g c) = mtu_bytes c" "rto (upd_wr a g c) = rto c"
  "pacing_wheel (upd_wr a g c) = pacing_wheel c" "wr_ex_pool (upd_wr a g c) = wr_ex_pool c"
  "wr_exs (upd_wr a g c) = (wr_exs c)(a := g (wr_exs c a))" "ureqs (upd_wr a g c) = ureqs c"
  "last_qp_choice (upd_wr a g c) = last_qp_choice c"
  "consecutive_same_choice_bytes (upd_wr a g c) = consecutive_same_choice_bytes c"
  "data_posted (upd_wr a g c) = data_posted c"
  by (simp_all add: upd_wr_def)

lemma upd_ureq_sel [simp]:
  "cc_kind (upd_ureq r g c) = cc_kind c" "rc_mode (upd_ureq r g c) = rc_mode c" "flows (upd_ureq r g c) = flows c"
  "ack_list (upd_ureq r g c) = ack_list c" "tx_ack_wrs (upd_ureq r g c) = tx_ack_wrs c"
  "acks_posted (upd_ureq r g c) = acks_posted c" "pull_requests (upd_ureq r g c) = pull_requests c"
  "engine_unacked_bytes (upd_ureq r g c) = engine_unacked_bytes c" "rtx_posted (upd_ureq r g c) = rtx_posted c"
  "is_roce (upd_ureq r g c) = is_roce c" "bypass_pacing (upd_ureq r g c) = bypass_pacing c"
  "chunk_size (upd_ureq r g c) = chunk_size c" "mtu_bytes (upd_ureq r g c) = mtu_bytes c"
  "rto (upd_ureq r g c) = rto c" "pacing_wheel (upd_ureq r g c) = pacing_wheel c"
  "wr_ex_pool (upd_ureq r g c) = wr_ex_pool c" "wr_exs (upd_ureq r g c) = wr_exs c"
  "ureqs (upd_ureq r g c) = (ureqs c)(r := g (ureqs c r))" "last_qp_choice (upd_ureq r g c) = last_qp_choice c"
  "consecutive_same_choice_bytes (upd_ureq r g c) = consecutive_same_choice_bytes c"
  "data_posted (upd_ureq r g c) = data_posted c"
  by (simp_all add: upd_ureq_def)

lemma free_wr_ex_sel [simp]:
  "cc_kind (free_wr_ex a c) = cc_kind c" "rc_mode (free_wr_ex a c) = rc_mode c" "flows (free_wr_ex a c) = flows c"
  "ack_list (free_wr_ex a c) = ack_list c" "tx_ack_wrs (free_wr_ex a c) = tx_ack_wrs c"
  "acks_posted (free_wr_ex a c) = acks_posted c" "pull_requests (free_wr_ex a c) = pull_requests c"
  "engine_unacked_bytes (free_wr_ex a c) = engine_unacked_bytes c" "rtx_posted (free_wr_ex a c) = rtx_posted c"
  "is_roce (free_wr_ex a c) = is_roce c" "bypass_pacing (free_wr_ex a c) = bypass_pacing c"
  "chunk_size (free_wr_ex a c) = chunk_size c" "mtu_bytes (free_wr_ex a c) = mtu_bytes c"
  "rto (free_wr_ex a c) = rto c" "pacing_wheel (free_wr_ex a c) = pacing_wheel c"
  "wr_ex_pool (free_wr_ex a c) = free_buff a (wr_ex_pool c)" "wr_exs (free_wr_ex a c) = wr_exs c"
  "ureqs (free_wr_ex a c) = ureqs c" "last_qp_choice (free_wr_ex a c) = last_qp_choice c"
  "consecutive_same_choice_bytes (free_wr_ex a c) = consecutive_same_choice_bytes c"
  "data_posted (free_wr_ex a c) = data_posted c"
  by (simp_all add: free_wr_ex_def)

lemma post_send_sel [simp]:
  "cc_kind (post_send a c) = cc_kind c" "rc_mode (post_send a c) = rc_mode c" "flows (post_send a c) = flows c"
  "ack_list (post_send a c) = ack_list c" "tx_ack_wrs (post_send a c) = tx_ack_wrs c"
  "acks_posted (post_send a c) = acks_posted c" "pull_requests (post_send a c) = pull_requests c"
  "engine_unacked_bytes (post_send a c) = engine_unacked_bytes c" "rtx_posted (post_send a c) = rtx_posted c"
  "is_roce (post_send a c) = is_roce c" "bypass_pacing (post_send a c) = bypass_pacing c"
  "chunk_size (post_send a c) = chunk_size c" "mtu_bytes (post_send a c) = mtu_bytes c" "rto (post_send a c) = rto c"
  "pacing_wheel (post_send a c) = pacing_wheel c" "wr_ex_pool (post_send a c) = wr_ex_pool c"
  "wr_exs (post_send a c) = wr_exs c" "ureqs (post_send a c) = ureqs c"
  "last_qp_choice (post_send a c) = last_qp_choice c"
  "consecutive_same_choice_bytes (post_send a c) = consecutive_same_choice_bytes c"
  "data_posted (post_send a c) = data_posted c @ [(wx_qpidx (wr_exs c a), wr_exs c a)]"
  by (simp_all add: post_send_def)

lemma track_chunk_sel [simp]:
  "cc_kind (track_chunk f ch c) = cc_kind c" "rc_mode (track_chunk f ch c) = rc_mode c"
  "flows (track_chunk f ch c) = (flows c)(f := (flows c f)\<lparr>unacked_chunks := unacked_chunks (flows c f) @ [ch]\<rparr>)"
  "ack_list (track_chunk f ch c) = ack_list c" "tx_ack_wrs (track_chunk f ch c) = tx_ack_wrs c"
  "acks_posted (track_chunk f ch c) = acks_posted c" "pull_requests (track_chunk f ch c) = pull_requests c"
  "engine_unacked_bytes (track_chunk f ch c) = engine_unacked_bytes c"
  "rtx_posted (track_chunk f ch c) = rtx_posted c" "is_roce (track_chunk f ch c) = is_roce c"
  "bypass_pacing (track_chunk f ch c) = bypass_pacing c" "chunk_size (track_chunk f ch c) = chunk_size c"
  "mtu_bytes (track_chunk f ch c) = mtu_bytes c" "rto (track_chunk f ch c) = rto c"
  "pacing_wheel (track_chunk f ch c) = pacing_wheel c" "wr_ex_pool (track_chunk f ch c) = wr_ex_pool c"
  "wr_exs (track_chunk f ch c) = wr_exs c" "ureqs (track_chunk f ch c) = ureqs c"
  "last_qp_choice (track_chunk f ch c) = last_qp_choice c"
  "consecutive_same_choice_bytes (track_chunk f ch c) = consecutive_same_choice_bytes c"
  "data_posted (track_chunk f ch c) = data_posted c"
  by (simp_all add: track_chunk_def)

lemma count_unacked_sel [simp]:
  "cc_kind (count_unacked f n c) = cc_kind c" "rc_mode (count_unacked f n c) = rc_mode c"
  "flows (count_unacked f n c) = (flows c)(f := (flows c f)\<lparr>unacked_bytes := u32_wrap (unacked_bytes (flows c f) + n)\<rparr>)"
  "ack_list (count_unacked f n c) = ack_list c" "tx_ack_wrs (count_unacked f n c) = tx_ack_wrs c"
  "acks_posted (count_unacked f n c) = acks_posted c" "pull_requests (count_unacked f n c) = pull_requests c"
  "engine_unacked_bytes (count_unacked f n c) = u32_wrap (engine_unacked_bytes c + n)"
  "rtx_posted (count_unacked f n c) = rtx_posted c" "is_roce (count_unacked f n c) = is_roce c"
  "bypass_pacing (count_unacked f n c) = bypass_pacing c" "chunk_size (count_unacked f n c) = chunk_size c"
  "mtu_bytes (count_unacked f n c) = mtu_bytes c" "rto (count_unacked f n c) = rto c"
  "pacing_wheel (count_unacked f n c) = pacing_wheel c" "wr_ex_pool (count_unacked f n c) = wr_ex_pool c"
  "wr_exs (count_unacked f n c) = wr_exs c" "ureqs (count_unacked f n c) = ureqs c"
  "last_qp_choice (count_unacked f n c) = last_qp_choice c"
  "consecutive_same_choice_bytes (count_unacked f n c) = consecutive_same_choice_bytes c"
  "data_posted (count_unacked f n c) = data_posted c"
  by (simp_all add: count_unacked_def)

lemma arm_timer_for_flow_sel [simp]:
  "cc_kind (arm_timer_for_flow now f c) = cc_kind c" "rc_mode (arm_timer_for_flow now f c) = rc_mode c"
  "flows (arm_timer_for_flow now f c) = (flows c)(f := (flows c f)\<lparr>rto_armed := True\<rparr>)"
  "ack_list (arm_timer_for_flow now f c) = ack_list c" "tx_ack_wrs (arm_timer_for_flow now f c) = tx_ack_wrs c"
  "acks_posted (arm_timer_for_flow now f c) = acks_posted c"
  "pull_requests (arm_timer_for_flow now f c) = pull_requests c"
  "engine_unacked_bytes (arm_timer_for_flow now f c) = engine_unacked_bytes c"
  "rtx_posted (arm_timer_for_flow now f c) = rtx_posted c" "is_roce (arm_timer_for_flow now f c) = is_roce c"
  "bypass_pacing (arm_timer_for_flow now f c) = bypass_pacing c"
  "chunk_size (arm_timer_for_flow now f c) = chunk_size c" "mtu_bytes (arm_timer_for_flow now f c) = mtu_bytes c"
  "rto (arm_timer_for_flow now f c) = (if rto_armed (flows c f) then rto c else arm_timer now (flow_timer f) (rto c))"
  "pacing_wheel (arm_timer_for_flow now f c) = pacing_wheel c"
  "wr_ex_pool (arm_timer_for_flow now f c) = wr_ex_pool c" "wr_exs (arm_timer_for_flow now f c) = wr_exs c"
  "ureqs (arm_timer_for_flow now f c) = ureqs c" "last_qp_choice (arm_timer_for_flow now f c) = last_qp_choice c"
  "consecutive_same_choice_bytes (arm_timer_for_flow now f c) = consecutive_same_choice_bytes c"
  "data_posted (arm_timer_for_flow now f c) = data_posted c"
  by (simp_all add: arm_timer_for_flow_def rto_armed_same)

lemma rearm_timer_for_flow_sel [simp]:
  "cc_kind (rearm_timer_for_flow now f c) = cc_kind c" "rc_mode (rearm_timer_for_flow now f c) = rc_mode c"
  "flows (rearm_timer_for_flow now f c) = (flows c)(f := (flows c f)\<lparr>rto_armed := True\<rparr>)"
  "ack_list (rearm_timer_for_flow now f c) = ack_list c" "tx_ack_wrs (rearm_timer_for_flow now f c) = tx_ack_wrs c"
  "acks_posted (rearm_timer_for_flow now f c) = acks_posted c"
  "pull_requests (rearm_timer_for_flow now f c) = pull_requests c"
  "engine_unacked_bytes (rearm_timer_for_flow now f c) = engine_unacked_bytes c"
  "rtx_posted (rearm_timer_for_flow now f c) = rtx_posted c" "is_roce (rearm_timer_for_flow now f c) = is_roce c"
  "bypass_pacing (rearm_timer_for_flow now f c) = bypass_pacing c"
  "chunk_size (rearm_timer_for_flow now f c) = chunk_size c" "mtu_bytes (rearm_timer_for_flow now f c) = mtu_bytes c"
  "rto (rearm_timer_for_flow now f c) = (if rto_armed (flows c f) then rearm_timer now (flow_timer f) (rto c) else arm_timer now (flow_timer f) (rto c))"
  "pacing_wheel (rearm_timer_for_flow now f c) = pacing_wheel c"
  "wr_ex_pool (rearm_timer_for_flow now f c) = wr_ex_pool c" "wr_exs (rearm_timer_for_flow now f c) = wr_exs c"
  "ureqs (rearm_timer_for_flow now f c) = ureqs c" "last_qp_choice (rearm_timer_for_flow now f c) = last_qp_choice c"
  "consecutive_same_choice_bytes (rearm_timer_for_flow now f c) = consecutive_same_choice_bytes c"
  "data_posted (rearm_timer_for_flow now f c) = data_posted c"
  by (simp_all add: rearm_timer_for_flow_def rto_armed_same)

lemma mark_flow_timeout_sel [simp]:
  "cc_kind (mark_flow_timeout f c) = cc_kind c" "rc_mode (mark_flow_timeout f c) = rc_mode c"
  "flows (mark_flow_timeout f c) = (flows c)(f := (flows c f)\<lparr>rto_armed := False\<rparr>)"
  "ack_list (mark_flow_timeout f c) = ack_list c" "tx_ack_wrs (mark_flow_timeout f c) = tx_ack_wrs c"
  "acks_posted (mark_flow_timeout f c) = acks_posted c" "pull_requests (mark_flow_timeout f c) = pull_requests c"
  "engine_unacked_bytes (mark_flow_timeout f c) = engine_unacked_bytes c"
  "rtx_posted (mark_flow_timeout f c) = rtx_posted c" "is_roce (mark_flow_timeout f c) = is_roce c"
  "bypass_pacing (mark_flow_timeout f c) = bypass_pacing c" "chunk_size (mark_flow_timeout f c) = chunk_size c"
  "mtu_bytes (mark_flow_timeout f c) = mtu_bytes c" "rto (mark_flow_timeout f c) = rto c"
  "pacing_wheel (mark_flow_timeout f c) = pacing_wheel c" "wr_ex_pool (mark_flow_timeout f c) = wr_ex_pool c"
  "wr_exs (mark_flow_timeout f c) = wr_exs c" "ureqs (mark_flow_timeout f c) = ureqs c"
  "last_qp_choice (mark_flow_timeout f c) = last_qp_choice c"
  "consecutive_same_choice_bytes (mark_flow_timeout f c) = consecutive_same_choice_bytes c"
  "data_posted (mark_flow_timeout f c) = data_posted c"
  by (simp_all add: mark_flow_timeout_def)

lemma disarm_timer_for_flow_sel [simp]:
  "cc_kind (disarm_timer_for_flow f c) = cc_kind c" "rc_mode (disarm_timer_for_flow f c) = rc_mode c"
  "flows (disarm_timer_for_flow f c) = (flows c)(f := (flows c f)\<lparr>rto_armed := False\<rparr>)"
  "ack_list (disarm_timer_for_flow f c) = ack_list c" "tx_ack_wrs (disarm_timer_for_flow f c) = tx_ack_wrs c"
  "acks_posted (disarm_timer_for_flow f c) = acks_posted c"
  "pull_requests (disarm_timer_for_flow f c) = pull_requests c"
  "engine_unacked_bytes (disarm_timer_for_flow f c) = engine_unacked_bytes c"
  "rtx_posted (disarm_timer_for_flow f c) = rtx_posted c" "is_roce (disarm_timer_for_flow f c) = is_roce c"
  "bypass_pacing (disarm_timer_for_flow f c) = bypass_pacing c"
  "chunk_size (disarm_timer_for_flow f c) = chunk_size c" "mtu_bytes (disarm_timer_for_flow f c) = mtu_bytes c"
  "rto (disarm_timer_for_flow f c) = (if rto_armed (flows c f) then disarm_timer (flow_timer f) (rto c) else rto c)"
  "pacing_wheel (disarm_timer_for_flow f c) = pacing_wheel c" "wr_ex_pool (disarm_timer_for_flow f c) = wr_ex_pool c"
  "wr_exs (disarm_timer_for_flow f c) = wr_exs c" "ureqs (disarm_timer_for_flow f c) = ureqs c"
  "last_qp_choice (disarm_timer_for_flow f c) = last_qp_choice c"
  "consecutive_same_choice_bytes (disarm_timer_for_flow f c) = consecutive_same_choice_bytes c"
  "data_posted (disarm_timer_for_flow f c) = data_posted c"
  by (simp_all add: disarm_timer_for_flow_def rto_armed_same)

end
