(* ===== verification/RdmaTxInv.thy ===== *)
theory RdmaTxInv
  imports RdmaTx
begin

text \<open>
  Correctness of the send path in its default configuration (unreliable connections, no pacing, a
  sender-driven controller). A flow is related to a sender that numbers its chunks without bound:
  chunks below \<open>U\<close> are acknowledged, those from \<open>U\<close> to \<open>M\<close> are outstanding, \<open>w k\<close> is the work request
  that chunk \<open>k\<close> was posted with and \<open>req k\<close> its send request. Other flows of the context hold the
  work requests \<open>others\<close> of the pool.

  The lemmas show that sending, acknowledgements, fast retransmission and time-outs keep the
  relation, that none of them reads beyond the tracked chunks, and what each of them posts.
\<close>

section \<open>The relation\<close>

definition last_of :: "wr_ex \<Rightarrow> bool" where
  "last_of x \<longleftrightarrow> GetHINT (wx_imm x) \<noteq> 0"

definition tracked ::
  "nat \<Rightarrow> nat \<Rightarrow> (nat \<Rightarrow> wr_ex) \<Rightarrow> (nat \<Rightarrow> nat) \<Rightarrow> ChunkTrack list \<Rightarrow> (nat \<Rightarrow> wr_ex) \<Rightarrow> bool" where
  "tracked U M w req chs wx \<longleftrightarrow>
     map (\<lambda>ch. (ct_csn ch, wx (ct_wr_ex ch), ct_ureq ch, ct_last_chunk ch)) chs =
     map (\<lambda>k. (to_uint32 (csn_of k), w k, req k, last_of (w k))) [U..<M]"

definition pool_ok :: "nat list \<Rightarrow> nat multiset \<Rightarrow> ChunkTrack list \<Rightarrow> BuffPool \<Rightarrow> bool" where
  "pool_ok addrs others chs p \<longleftrightarrow>
     bp_inv p \<and> base_addr p < 2 ^ 64 \<and> num_elements p = length addrs + 1 \<and> distinct addrs \<and>
     (\<forall>a\<in>set addrs. a < 2 ^ 64) \<and> mset (bp_addrs p) + mset (map ct_wr_ex chs) + others = mset addrs"

definition sack_ok :: "nat \<Rightarrow> nat \<Rightarrow> PCB \<Rightarrow> bool" where
  "sack_ok U M p \<longleftrightarrow>
     bitmap_ok (tx_sack_bitmap p) \<and> UINT_CSN_of (tx_sack_bitmap_base p) = csn_of U \<and>
     bitmap_set (tx_sack_bitmap p) \<subseteq> {i. U + i < M} \<and>
     unat (tx_sack_bitmap_count p) = card (bitmap_set (tx_sack_bitmap p))"

definition tx_mode :: "RDMAContext \<Rightarrow> bool" where
  "tx_mode c \<longleftrightarrow> \<not> rc_mode c \<and> bypass_pacing c \<and> cc_kind c \<noteq> EQDSRDMAContext \<and>
     (\<forall>a. wx_opcode (wr_exs c a) = RDMA_WRITE_WITH_IMM)"

definition tx_timer :: "nat \<Rightarrow> RDMAContext \<Rightarrow> bool" where
  "tx_timer f c \<longleftrightarrow> tms.consistent {} (\<lambda>g. rto_armed (flows c g)) (rto c) \<and>
     (unacked_chunks (flows c f) \<noteq> [] \<longrightarrow> rto_armed (flows c f))"

definition tx_rel ::
  "nat \<Rightarrow> nat list \<Rightarrow> nat multiset \<Rightarrow> nat \<Rightarrow> nat \<Rightarrow> (nat \<Rightarrow> wr_ex) \<Rightarrow> (nat \<Rightarrow> nat) \<Rightarrow> RDMAContext \<Rightarrow> bool" where
  "tx_rel f addrs others U M w req c \<longleftrightarrow>
     (let sf = flows c f; p = pcb sf
      in tx_mode c \<and> fid sf = f \<and> U \<le> M \<and> snd_una p = csn_of U \<and> snd_nxt p = csn_of M \<and>
         tracked U M w req (unacked_chunks sf) (wr_exs c) \<and>
         pool_ok addrs others (unacked_chunks sf) (wr_ex_pool c) \<and>
         sack_ok U M p \<and> tx_timer f c \<and>
         unacked_bytes sf = u32_wrap (\<Sum>k\<leftarrow>[U..<M]. wx_length (w k)) \<and>
         (\<forall>k\<in>{U..<M}. wx_length (w k) < 2 ^ 32) \<and>
         tx_done sf = map req (filter (\<lambda>k. last_of (w k)) [0..<U]))"

lemma tracked_length: "tracked U M w req chs wx \<Longrightarrow> length chs = M - U"
  unfolding tracked_def by (drule arg_cong [where f = length]) simp

lemma tracked_nth:
  assumes "tracked U M w req chs wx" "i < M - U"
  shows "ct_csn (chs ! i) = to_uint32 (csn_of (U + i))" "wx (ct_wr_ex (chs ! i)) = w (U + i)"
    "ct_ureq (chs ! i) = req (U + i)" "ct_last_chunk (chs ! i) = last_of (w (U + i))"
proof -
  have "map (\<lambda>ch. (ct_csn ch, wx (ct_wr_ex ch), ct_ureq ch, ct_last_chunk ch)) chs ! i =
      map (\<lambda>k. (to_uint32 (csn_of k), w k, req k, last_of (w k))) [U..<M] ! i"
    using assms(1) by (simp add: tracked_def)
  then show "ct_csn (chs ! i) = to_uint32 (csn_of (U + i))" "wx (ct_wr_ex (chs ! i)) = w (U + i)"
    "ct_ureq (chs ! i) = req (U + i)" "ct_last_chunk (chs ! i) = last_of (w (U + i))"
    using assms(2) tracked_length [OF assms(1)] by simp_all
qed

lemma tracked_snoc:
  assumes "tracked U M w req chs wx" "U \<le> M" "a \<notin> set (map ct_wr_ex chs)"
    and "ct_csn ch = to_uint32 (csn_of M)" "ct_wr_ex ch = a" "ct_ureq ch = r" "ct_last_chunk ch = last_of x"
  shows "tracked U (Suc M) (w(M := x)) (req(M := r)) (chs @ [ch]) (wx(a := x))"
proof -
  have "map (\<lambda>ch. (ct_csn ch, if ct_wr_ex ch = a then x else wx (ct_wr_ex ch), ct_ureq ch, ct_last_chunk ch)) chs =
      map (\<lambda>ch. (ct_csn ch, wx (ct_wr_ex ch), ct_ureq ch, ct_last_chunk ch)) chs"
    using assms(3) by (intro map_cong) auto
  moreover have "map (\<lambda>k. (to_uint32 (csn_of k), if k = M then x else w k, if k = M then r else req k,
        last_of (if k = M then x else w k))) [U..<M] =
      map (\<lambda>k. (to_uint32 (csn_of k), w k, req k, last_of (w k))) [U..<M]"
    by (intro map_cong) auto
  ultimately show ?thesis using assms unfolding tracked_def by (simp del: map_eq_conv)
qed

lemma tracked_drop:
  assumes "tracked U M w req chs wx"
  shows "tracked (U + n) M w req (drop n chs) wx"
  using arg_cong [OF assms [unfolded tracked_def], of "drop n"] unfolding tracked_def drop_map drop_upt .

section \<open>The pool of work requests\<close>

lemma pool_alloc:
  assumes "pool_ok addrs others chs p" "length chs + size others < length addrs"
  obtains a p' where "alloc_buff p = (Some a, p')" "a \<notin> set (map ct_wr_ex chs)" "a \<notin># others"
    "\<And>ch. ct_wr_ex ch = a \<Longrightarrow> pool_ok addrs others (chs @ [ch]) p'"
proof -
  have sum: "mset (bp_addrs p) + mset (map ct_wr_ex chs) + others = mset addrs" and inv: "bp_inv p"
    using assms(1) by (auto simp: pool_ok_def)
  have "size (mset (bp_addrs p) + mset (map ct_wr_ex chs) + others) = length addrs" unfolding sum by simp
  then have "bp_addrs p \<noteq> []" using assms(2) by auto
  then obtain a as where as: "bp_addrs p = a # as" by (cases "bp_addrs p") auto
  obtain p' where p': "alloc_buff p = (Some a, p')" "bp_inv p'" "bp_addrs p' = as"
    "base_addr p' = base_addr p" "num_elements p' = num_elements p"
    by (rule alloc_buff_ok [OF inv as])
  have "count (mset addrs) a \<le> 1" using assms(1) by (auto simp: pool_ok_def distinct_count_atmost_1)
  then have "count (mset (map ct_wr_ex chs)) a = 0 \<and> count others a = 0" unfolding sum [symmetric] as by simp
  then have fresh: "a \<notin> set (map ct_wr_ex chs)" "a \<notin># others" by (auto simp: count_eq_zero_iff simp del: mset_map)
  have "pool_ok addrs others (chs @ [ch]) p'" if "ct_wr_ex ch = a" for ch
    using assms(1) p' as that by (auto simp: pool_ok_def)
  then show ?thesis using that p'(1) fresh by blast
qed

lemma pool_free:
  assumes "pool_ok addrs others (ch # chs) p"
  shows "pool_ok addrs others chs (free_buff (ct_wr_ex ch) p)"
proof -
  let ?a = "ct_wr_ex ch"
  have sum: "mset (bp_addrs p) + mset (map ct_wr_ex (ch # chs)) + others = mset addrs"
    and inv: "bp_inv p" "base_addr p < 2 ^ 64" "num_elements p = length addrs + 1" "\<forall>a\<in>set addrs. a < 2 ^ 64"
    using assms by (auto simp: pool_ok_def)
  have "size (mset (bp_addrs p) + mset (map ct_wr_ex (ch # chs)) + others) = length addrs" unfolding sum by simp
  then have room: "length (bp_addrs p) < num_elements p - 1" using inv(3) by simp
  have "?a \<in># mset addrs" unfolding sum [symmetric] by simp
  then have "?a < 2 ^ 64" using inv(4) by simp
  note f = free_buff_ok [OF inv(1,2) this room]
  show ?thesis using assms f sum by (simp add: pool_ok_def)
qed

section \<open>Posting one chunk\<close>

lemma select_qpidx_pot_sel [simp]:
  "flows (snd (select_qpidx_pot pot n c)) = flows c" "wr_exs (snd (select_qpidx_pot pot n c)) = wr_exs c"
  "rto (snd (select_qpidx_pot pot n c)) = rto c" "rc_mode (snd (select_qpidx_pot pot n c)) = rc_mode c"
  "wr_ex_pool (snd (select_qpidx_pot pot n c)) = wr_ex_pool c" "ureqs (snd (select_qpidx_pot pot n c)) = ureqs c"
  "data_posted (snd (select_qpidx_pot pot n c)) = data_posted c" "cc_kind (snd (select_qpidx_pot pot n c)) = cc_kind c"
  "rtx_posted (snd (select_qpidx_pot pot n c)) = rtx_posted c" "is_roce (snd (select_qpidx_pot pot n c)) = is_roce c"
  "bypass_pacing (snd (select_qpidx_pot pot n c)) = bypass_pacing c"
  "engine_unacked_bytes (snd (select_qpidx_pot pot n c)) = engine_unacked_bytes c"
  "chunk_size (snd (select_qpidx_pot pot n c)) = chunk_size c"
  by (simp_all add: select_qpidx_pot_def can_use_last_choice_def case_prod_beta Let_def)

text \<open>The fields that sending a chunk leaves alone.\<close>

definition tx_frame :: "RDMAContext \<Rightarrow> RDMAContext \<Rightarrow> bool" where
  "tx_frame c c' \<longleftrightarrow> cc_kind c' = cc_kind c \<and> rc_mode c' = rc_mode c \<and> is_roce c' = is_roce c \<and>
     bypass_pacing c' = bypass_pacing c \<and> chunk_size c' = chunk_size c"

lemma tx_frame_refl [simp]: "tx_frame c c"
  by (simp add: tx_frame_def)

lemma tx_frame_trans: "tx_frame c c' \<Longrightarrow> tx_frame c' c'' \<Longrightarrow> tx_frame c c''"
  by (simp add: tx_frame_def)

lemma transmit_sel:
  assumes "\<not> rc_mode c" "q = fst (select_qpidx_pot pot n c)"
  shows "flows (transmit pot now f r a n c) = (flows c)(f := (flows c f)\<lparr>unacked_chunks := unacked_chunks (flows c f) @
      [\<lparr>ct_ureq = r, ct_wr_ex = a, ct_timestamp = now, ct_csn = GetCSN (wx_imm (wr_exs c a)),
        ct_last_chunk = last_of (wr_exs c a)\<rparr>], rto_armed := True\<rparr>)"
    "wr_exs (transmit pot now f r a n c) = (wr_exs c)(a := (wr_exs c a)\<lparr>wx_qpidx := q\<rparr>)"
    "rto (transmit pot now f r a n c) = (if rto_armed (flows c f) then rto c else arm_timer now (flow_timer f) (rto c))"
    "data_posted (transmit pot now f r a n c) = data_posted c @ [(q, (wr_exs c a)\<lparr>wx_qpidx := q\<rparr>)]"
    "wr_ex_pool (transmit pot now f r a n c) = wr_ex_pool c" "ureqs (transmit pot now f r a n c) = ureqs c"
    "rtx_posted (transmit pot now f r a n c) = rtx_posted c"
    "engine_unacked_bytes (transmit pot now f r a n c) = engine_unacked_bytes c"
    "tx_frame c (transmit pot now f r a n c)"
  using assms(1) unfolding assms(2)
  by (simp_all add: transmit_def Let_def case_prod_beta last_of_def tx_frame_def)

text \<open>The work request of the chunk that is sent next, up to the queue pair it is posted on.\<close>

definition next_wr :: "nat \<Rightarrow> nat \<Rightarrow> nat \<Rightarrow> nat \<Rightarrow> RDMAContext \<Rightarrow> wr_ex \<Rightarrow> bool" where
  "next_wr f r n M c x \<longleftrightarrow>
     wx_opcode x = RDMA_WRITE_WITH_IMM \<and> wx_length x = n \<and>
     wx_addr x = laddr (ureqs c r) + sent_offset (ureqs c r) \<and>
     wx_remote_addr x = raddr (ureqs c r) + sent_offset (ureqs c r) \<and>
     wx_imm x = imm_of_chunk None (of_nat f) (is_last_chunk r n c) (of_nat (send_rid (ureqs c r))) (csn_of M)"

lemma prepare_chunk_sel:
  assumes "alloc_buff (wr_ex_pool c) = (Some a, p)" "\<not> rc_mode c" "fid (flows c f) = f"
    "snd_nxt (pcb (flows c f)) = csn_of M" "wx_opcode (wr_exs c a) = RDMA_WRITE_WITH_IMM"
  obtains c' y where "prepare_chunk None f r n c = Some (a, c')"
    "flows c' = (flows c)(f := (flows c f)\<lparr>pcb := (pcb (flows c f))\<lparr>snd_nxt := csn_of (Suc M)\<rparr>\<rparr>)"
    "wr_exs c' = (wr_exs c)(a := y)" "next_wr f r n M c y"
    "wr_ex_pool c' = p" "ureqs c' = ureqs c" "data_posted c' = data_posted c" "rtx_posted c' = rtx_posted c"
    "rto c' = rto c" "engine_unacked_bytes c' = engine_unacked_bytes c" "tx_frame c c'"
proof -
  define c2 where "c2 = fill_wr a r n (c\<lparr>wr_ex_pool := p\<rparr>)"
  define c3 where "c3 = upd_flow f (upd_pcb (\<lambda>_. (pcb (flows c f))\<lparr>snd_nxt := csn_of M + 1\<rparr>)) c2"
  define imm where "imm = imm_of_chunk None (of_nat f) (is_last_chunk r n c) (of_nat (send_rid (ureqs c r))) (csn_of M)"
  have t: "take_csn f c2 = (csn_of M, c3)"
    by (simp add: take_csn_def get_snd_nxt_def c2_def c3_def fill_wr_def assms(4))
  have "is_last_chunk r n c3 = is_last_chunk r n c" by (simp add: is_last_chunk_def c3_def c2_def fill_wr_def)
  moreover have "fid (flows c3 f) = f" "ureqs c3 = ureqs c" by (simp_all add: c3_def c2_def fill_wr_def assms(3))
  ultimately have "prepare_chunk None f r n c = Some (a, set_imm a f imm c3)"
    using assms(1) t by (simp add: prepare_chunk_def alloc_wr_ex_def c2_def [symmetric] Let_def imm_def)
  then show ?thesis
    by (rule that [where y = "wr_exs (set_imm a f imm c3) a"])
      (use assms(2,5) in \<open>simp_all add: set_imm_def c3_def c2_def fill_wr_def upd_pcb_def tx_frame_def imm_def next_wr_def\<close>)
qed

lemma flow_timer_sel [simp]: "td_flow (flow_timer f) = f"
  by (simp add: flow_timer_def)

lemma tx_timer_arm:
  assumes "tms.consistent X (\<lambda>g. rto_armed (flows c g)) (rto c)" "f \<notin> X"
    and "\<And>g. rto_armed (fl g) = (if g = f then True else rto_armed (flows c g))"
    and "m = (if rto_armed (flows c f) then rto c else arm_timer now (flow_timer f) (rto c)) \<or>
      m = (if rto_armed (flows c f) then rearm_timer now (flow_timer f) (rto c) else arm_timer now (flow_timer f) (rto c))"
  shows "tms.consistent X (\<lambda>g. rto_armed (fl g)) m"
proof -
  have fl: "(\<lambda>g. rto_armed (fl g)) = (\<lambda>g. rto_armed (flows c g))(f := True)" using assms(3) by auto
  note a = tms.consistent_arm [OF assms(1), of "flow_timer f" now, simplified, OF assms(2)]
  show ?thesis
  proof (cases "rto_armed (flows c f)")
    case True
    then have "(\<lambda>g. rto_armed (flows c g))(f := True) = (\<lambda>g. rto_armed (flows c g))"
      by (intro fun_upd_idem) simp
    then show ?thesis using assms(1,4) a(2) True unfolding fl by auto
  qed (use assms(4) a(1) in \<open>auto simp: fl\<close>)
qed

lemma sack_ok_Suc: "sack_ok U M p \<Longrightarrow> tx_sack_bitmap p' = tx_sack_bitmap p \<Longrightarrow>
    tx_sack_bitmap_base p' = tx_sack_bitmap_base p \<Longrightarrow> tx_sack_bitmap_count p' = tx_sack_bitmap_count p \<Longrightarrow>
    M \<le> M' \<Longrightarrow> sack_ok U M' p'"
  by (auto simp: sack_ok_def)


lemma finish_chunk_sel [simp]:
  "flows (finish_chunk f r n c) = (flows c)(f := (flows c f)\<lparr>unacked_bytes := u32_wrap (unacked_bytes (flows c f) + n)\<rparr>)"
  "wr_exs (finish_chunk f r n c) = wr_exs c" "rto (finish_chunk f r n c) = rto c"
  "wr_ex_pool (finish_chunk f r n c) = wr_ex_pool c" "data_posted (finish_chunk f r n c) = data_posted c"
  "rtx_posted (finish_chunk f r n c) = rtx_posted c"
  "ureqs (finish_chunk f r n c) = (ureqs c)(r := (ureqs c r)\<lparr>sent_offset := u32_wrap (sent_offset (ureqs c r) + n)\<rparr>)"
  "engine_unacked_bytes (finish_chunk f r n c) = u32_wrap (engine_unacked_bytes c + n)"
  "tx_frame c (finish_chunk f r n c)"
  by (simp_all add: finish_chunk_def advance_offset_def tx_frame_def)

text \<open>A context that differs by one more tracked chunk, posted with \<open>x\<close> at address \<open>a\<close>.\<close>

lemma tx_rel_post:
  assumes rel: "tx_rel f addrs others U M w req c" and a: "a \<notin> set (map ct_wr_ex (unacked_chunks (flows c f)))"
    and pool: "pool_ok addrs others (unacked_chunks (flows c f) @ [ch]) (wr_ex_pool c')"
    and ch: "ct_csn ch = to_uint32 (csn_of M)" "ct_wr_ex ch = a" "ct_ureq ch = r" "ct_last_chunk ch = last_of x"
    and x: "wx_opcode x = RDMA_WRITE_WITH_IMM" "wx_length x < 2 ^ 32"
    and fl: "flows c' = (flows c)(f := (flows c f)\<lparr>pcb := (pcb (flows c f))\<lparr>snd_nxt := csn_of (Suc M)\<rparr>,
      unacked_chunks := unacked_chunks (flows c f) @ [ch], rto_armed := True,
      unacked_bytes := u32_wrap (unacked_bytes (flows c f) + wx_length x)\<rparr>)"
    and wr: "wr_exs c' = (wr_exs c)(a := x)" and fr: "tx_frame c c'"
    and rto: "rto c' = (if rto_armed (flows c f) then rto c else arm_timer now (flow_timer f) (rto c))"
  shows "tx_rel f addrs others U (Suc M) (w(M := x)) (req(M := r)) c'"
proof -
  note R = rel [unfolded tx_rel_def Let_def]
  have UM: "U \<le> M" and tr: "tracked U M w req (unacked_chunks (flows c f)) (wr_exs c)" using R by auto
  have "tracked U (Suc M) (w(M := x)) (req(M := r)) (unacked_chunks (flows c f) @ [ch]) ((wr_exs c)(a := x))"
    by (rule tracked_snoc [OF tr UM a ch])
  moreover have "tms.consistent {} (\<lambda>g. rto_armed (flows c' g)) (rto c')"
    by (rule tx_timer_arm [where c = c and f = f and now = now]) (use R rto in \<open>simp_all add: tx_timer_def fl\<close>)
  then have "tx_timer f c'" unfolding tx_timer_def by (rule conjI) (simp add: fl)
  moreover have "sack_ok U (Suc M) (pcb (flows c' f))"
    by (rule sack_ok_Suc [of U M "pcb (flows c f)"]) (use R in \<open>simp_all add: fl\<close>)
  moreover have "(\<Sum>k\<leftarrow>[U..<M]. wx_length ((w(M := x)) k)) = (\<Sum>k\<leftarrow>[U..<M]. wx_length (w k))"
    by (intro arg_cong [where f = sum_list] map_cong) auto
  then have "unacked_bytes (flows c' f) = u32_wrap (\<Sum>k\<leftarrow>[U..<Suc M]. wx_length ((w(M := x)) k))"
    using R UM by (simp add: fl u32_wrap_def mod_add_left_eq)
  moreover have "tx_mode c'" using R fr x by (auto simp: tx_mode_def tx_frame_def wr)
  moreover have "map (req(M := r)) (filter (\<lambda>k. last_of ((w(M := x)) k)) [0..<U]) = tx_done (flows c f)"
  proof -
    have "filter (\<lambda>k. last_of ((w(M := x)) k)) [0..<U] = filter (\<lambda>k. last_of (w k)) [0..<U]"
      using UM by (intro filter_cong) auto
    then show ?thesis using R UM by (auto intro!: map_cong)
  qed
  moreover have "\<forall>k\<in>{U..<Suc M}. wx_length ((w(M := x)) k) < 2 ^ 32" using R x(2) by simp
  ultimately show ?thesis using R UM pool
    unfolding tx_rel_def Let_def by (simp add: fl wr del: csn_of_Suc)
qed

lemma send_step:
  assumes rel: "tx_rel f addrs others U M w req c" and room: "M - U + size others < length addrs" and n: "n < 2 ^ 32"
  obtains c' x where "send_bypassing env now f r n c = Some (Some c')" "next_wr f r n M c x"
    "tx_rel f addrs others U (Suc M) (w(M := x)) (req(M := r)) c'"
    "data_posted c' = data_posted c @ [(wx_qpidx x, x)]" "rtx_posted c' = rtx_posted c"
    "ureqs c' = (ureqs c)(r := (ureqs c r)\<lparr>sent_offset := u32_wrap (sent_offset (ureqs c r) + n)\<rparr>)"
    "engine_unacked_bytes c' = u32_wrap (engine_unacked_bytes c + n)" "tx_frame c c'"
    "\<And>g. g \<noteq> f \<Longrightarrow> flows c' g = flows c g"
proof -
  note R = rel [unfolded tx_rel_def Let_def]
  have rc: "\<not> rc_mode c" and tr: "tracked U M w req (unacked_chunks (flows c f)) (wr_exs c)"
    and pool: "pool_ok addrs others (unacked_chunks (flows c f)) (wr_ex_pool c)" and fid: "fid (flows c f) = f"
    and nxt: "snd_nxt (pcb (flows c f)) = csn_of M" and opc: "\<And>a. wx_opcode (wr_exs c a) = RDMA_WRITE_WITH_IMM"
    using R by (auto simp: tx_mode_def)
  obtain a p where a: "alloc_buff (wr_ex_pool c) = (Some a, p)" "a \<notin> set (map ct_wr_ex (unacked_chunks (flows c f)))"
    "\<And>ch. ct_wr_ex ch = a \<Longrightarrow> pool_ok addrs others (unacked_chunks (flows c f) @ [ch]) p"
    using pool_alloc [OF pool] room tracked_length [OF tr] by metis
  obtain c1 y where c1: "prepare_chunk None f r n c = Some (a, c1)"
    "flows c1 = (flows c)(f := (flows c f)\<lparr>pcb := (pcb (flows c f))\<lparr>snd_nxt := csn_of (Suc M)\<rparr>\<rparr>)"
    and y: "wr_exs c1 = (wr_exs c)(a := y)" "next_wr f r n M c y"
    and sel1: "wr_ex_pool c1 = p" "ureqs c1 = ureqs c" "data_posted c1 = data_posted c" "rtx_posted c1 = rtx_posted c"
    "rto c1 = rto c" "engine_unacked_bytes c1 = engine_unacked_bytes c" "tx_frame c c1"
    by (rule prepare_chunk_sel [OF a(1) rc fid nxt opc])
  have rc1: "\<not> rc_mode c1" using rc sel1(7) by (simp add: tx_frame_def)
  define q where "q = fst (select_qpidx_pot (env_pot env) n c1)"
  define x where "x = y\<lparr>wx_qpidx := q\<rparr>"
  define c2 where "c2 = transmit (env_pot env) now f r a n c1"
  note c2 = transmit_sel [OF rc1 q_def, of now f r a, folded c2_def x_def]
  define c3 where "c3 = finish_chunk f r n c2"
  have fr: "tx_frame c c3" using sel1(7) c2(9) unfolding c3_def by (meson tx_frame_trans finish_chunk_sel)
  have x: "next_wr f r n M c x" using y(2) by (simp add: next_wr_def x_def)
  have "tx_rel f addrs others U (Suc M) (w(M := x)) (req(M := r)) c3"
    by (rule tx_rel_post [OF rel a(2), where now = now, OF _ _ _ _ _ _ _ _ _ fr])
      (use a(3) x n in \<open>simp_all add: c3_def c2 c1(2) y sel1 next_wr_def x_def last_of_def imm_of_chunk_fields\<close>)
  note rel3 = this
  show thesis
    by (rule that [OF _ x rel3 _ _ _ _ fr]) (simp_all add: send_bypassing_def c1 c3_def c2_def [symmetric] c2 y sel1 x_def)
qed

section \<open>Sending a message\<close>

text \<open>
  \<open>msg_posts f u off M xs\<close>: the work requests \<open>xs\<close> carry consecutive pieces of the message \<open>u\<close> of flow
  \<open>f\<close> from the offset \<open>off\<close> on, with consecutive sequence numbers from that of chunk \<open>M\<close> on; only the
  piece that ends the message has the last-chunk hint.
\<close>

fun msg_posts :: "nat \<Rightarrow> ucclRequest \<Rightarrow> nat \<Rightarrow> nat \<Rightarrow> wr_ex list \<Rightarrow> bool" where
  "msg_posts f u off M [] \<longleftrightarrow> True"
| "msg_posts f u off M (x # xs) \<longleftrightarrow>
     wx_opcode x = RDMA_WRITE_WITH_IMM \<and> wx_addr x = laddr u + off \<and> wx_remote_addr x = raddr u + off \<and>
     wx_imm x = imm_of_chunk None (of_nat f) (off + wx_length x = data_len u) (of_nat (send_rid u)) (csn_of M) \<and>
     msg_posts f u (off + wx_length x) (Suc M) xs"

lemma msg_posts_offset: "msg_posts f (u\<lparr>sent_offset := k\<rparr>) off M xs = msg_posts f u off M xs"
  by (induction xs arbitrary: off M) auto

definition chunks_left :: "nat \<Rightarrow> RDMAContext \<Rightarrow> nat" where
  "chunks_left r c = (data_len (ureqs c r) - sent_offset (ureqs c r) + chunk_size c - 1) div chunk_size c"

text \<open>
  From \<open>c\<close> to \<open>c'\<close> the chunks \<open>xs\<close> of request \<open>r\<close> were posted. When the message is not finished, the
  window of the controller has no room for the next chunk.
\<close>

definition message_sent ::
  "nat \<Rightarrow> nat list \<Rightarrow> nat multiset \<Rightarrow> nat \<Rightarrow> nat \<Rightarrow> (nat \<Rightarrow> wr_ex) \<Rightarrow> (nat \<Rightarrow> nat) \<Rightarrow> nat \<Rightarrow> RDMAContext \<Rightarrow> bool \<Rightarrow>
   RDMAContext \<Rightarrow> wr_ex list \<Rightarrow> bool" where
  "message_sent f addrs others U M w req r c b c' xs \<longleftrightarrow>
     (\<exists>w' req'. tx_rel f addrs others U (M + length xs) w' req' c' \<and>
        (\<forall>k<M. w' k = w k \<and> req' k = req k) \<and> (\<forall>i<length xs. w' (M + i) = xs ! i \<and> req' (M + i) = r)) \<and>
     data_posted c' = data_posted c @ map (\<lambda>x. (wx_qpidx x, x)) xs \<and> rtx_posted c' = rtx_posted c \<and>
     msg_posts f (ureqs c r) (sent_offset (ureqs c r)) M xs \<and> (\<forall>x\<in>set xs. wx_length x \<le> chunk_size c) \<and>
     length xs \<le> chunks_left r c \<and> (xs = [] \<longrightarrow> c' = c) \<and>
     ureqs c' = (ureqs c)(r := (ureqs c r)\<lparr>sent_offset := sent_offset (ureqs c r) + (\<Sum>x\<leftarrow>xs. wx_length x)\<rparr>) \<and>
     (b \<longleftrightarrow> sent_offset (ureqs c' r) = data_len (ureqs c r)) \<and> sent_offset (ureqs c' r) \<le> data_len (ureqs c r) \<and>
     (\<not> b \<longrightarrow> fst (EventOnChunkSize 0 f (data_len (ureqs c r) - sent_offset (ureqs c' r)) c') = 0) \<and>
     engine_unacked_bytes c' \<le> max (engine_unacked_bytes c) (kMaxUnAckedBytesPerEngineHigh c) \<and> tx_frame c c' \<and>
     (\<forall>g. g \<noteq> f \<longrightarrow> flows c' g = flows c g)"

lemma message_sent_refl:
  assumes "tx_rel f addrs others U M w req c" "sent_offset (ureqs c r) \<le> data_len (ureqs c r)"
    and "b \<longleftrightarrow> sent_offset (ureqs c r) = data_len (ureqs c r)"
    and "\<not> b \<longrightarrow> fst (EventOnChunkSize 0 f (data_len (ureqs c r) - sent_offset (ureqs c r)) c) = 0"
  shows "message_sent f addrs others U M w req r c b c []"
  using assms unfolding message_sent_def by auto

lemma message_sent_step:
  assumes x: "next_wr f r n M c x" "data_posted c1 = data_posted c @ [(wx_qpidx x, x)]" "rtx_posted c1 = rtx_posted c"
      "ureqs c1 = (ureqs c)(r := (ureqs c r)\<lparr>sent_offset := sent_offset (ureqs c r) + n\<rparr>)"
      "engine_unacked_bytes c1 \<le> kMaxUnAckedBytesPerEngineHigh c" "tx_frame c c1" "n \<le> chunk_size c" "\<And>g. g \<noteq> f \<Longrightarrow> flows c1 g = flows c g"
    and m: "message_sent f addrs others U (Suc M) (w(M := x)) (req(M := r)) r c1 b c' xs"
    and len: "sent_offset (ureqs c r) + n < 2 ^ 32" and left: "chunks_left r c = Suc (chunks_left r c1)"
  shows "message_sent f addrs others U M w req r c b c' (x # xs)"
proof -
  from m obtain w' req' where w: "tx_rel f addrs others U (Suc M + length xs) w' req' c'"
    "\<And>k. k < Suc M \<Longrightarrow> w' k = (w(M := x)) k \<and> req' k = (req(M := r)) k"
    "\<And>i. i < length xs \<Longrightarrow> w' (Suc M + i) = xs ! i \<and> req' (Suc M + i) = r"
    unfolding message_sent_def by blast
  have "w' (M + i) = (x # xs) ! i \<and> req' (M + i) = r" if "i < length (x # xs)" for i
    using that w(2) [of M] w(3) [of "i - 1"] by (cases i) auto
  moreover have "w' k = w k \<and> req' k = req k" if "k < M" for k using that w(2) [of k] by auto
  ultimately have ex: "\<exists>w' req'. tx_rel f addrs others U (M + length (x # xs)) w' req' c' \<and>
      (\<forall>k<M. w' k = w k \<and> req' k = req k) \<and> (\<forall>i<length (x # xs). w' (M + i) = (x # xs) ! i \<and> req' (M + i) = r)"
    using w(1) by (intro exI [of _ w'] exI [of _ req']) auto
  have frame: "kMaxUnAckedBytesPerEngineHigh c1 = kMaxUnAckedBytesPerEngineHigh c" "chunk_size c1 = chunk_size c"
    using x(6) by (simp_all add: tx_frame_def kMaxUnAckedBytesPerEngineHigh_def)
  have last: "is_last_chunk r n c \<longleftrightarrow> sent_offset (ureqs c r) + n = data_len (ureqs c r)"
    using len by (simp add: is_last_chunk_def wrap_simps)
  show ?thesis unfolding message_sent_def
  proof (intro conjI ex)
    show "msg_posts f (ureqs c r) (sent_offset (ureqs c r)) M (x # xs)"
      using x(1) m last by (simp add: next_wr_def message_sent_def x(4) msg_posts_offset)
    show "tx_frame c c'" using m x(6) tx_frame_trans unfolding message_sent_def by blast
  qed (use m x frame left in \<open>auto simp: message_sent_def next_wr_def\<close>)
qed

lemma chunk_size_timely_cases:
  assumes "cc_kind c = TimelyRDMAContext"
  obtains "fst (EventOnChunkSize wnd f rem c) = 0" | n where "0 < n" "EventOnChunkSize wnd f rem c = (n, c)"
    "n = min rem (chunk_size c)" "u32_wrap (engine_unacked_bytes c + n) \<le> kMaxUnAckedBytesPerEngineHigh c"
proof (cases "fst (EventOnChunkSize wnd f rem c) = 0")
  case False
  then show ?thesis
    by (intro that(2) [of "fst (EventOnChunkSize wnd f rem c)"])
      (auto simp: assms EventOnChunkSize_def chunk_size_timely_def Let_def split: if_splits)
qed (rule that(1))

lemma EventOnChunkSize_timely:
  "cc_kind c = TimelyRDMAContext \<Longrightarrow> EventOnChunkSize wnd f rem c = (fst (EventOnChunkSize 0 f rem c), c)"
  by (simp add: EventOnChunkSize_def)

lemma chunks_left_step:
  assumes "0 < cs" "0 < rem" "n = min rem cs"
  shows "(rem + cs - 1) div cs = Suc ((rem - n + cs - 1) div cs)"
proof (cases "rem \<le> cs")
  case True
  have e: "rem + cs - 1 = (rem - 1) + cs" using assms by simp
  have "(rem - 1 + cs) div cs = Suc ((rem - 1) div cs)" using assms(1) by (subst div_add_self2) simp_all
  moreover have "(rem - 1) div cs = 0" "(rem - n + cs - 1) div cs = 0" using assms True by auto
  ultimately show ?thesis unfolding e by simp
next
  case False
  have e: "rem + cs - 1 = (rem - n + cs - 1) + cs" using False assms by simp
  show ?thesis unfolding e using assms(1) by (subst div_add_self2) simp_all
qed

text \<open>What the sender needs: the message is shorter than 4 GB and the pool holds enough work requests.\<close>

definition sendable :: "nat \<Rightarrow> nat list \<Rightarrow> nat multiset \<Rightarrow> nat \<Rightarrow> nat \<Rightarrow> nat \<Rightarrow> RDMAContext \<Rightarrow> bool" where
  "sendable f addrs others U M r c \<longleftrightarrow> cc_kind c = TimelyRDMAContext \<and> ureq_flow (ureqs c r) = f \<and>
     0 < data_len (ureqs c r) \<and> data_len (ureqs c r) < 2 ^ 32 \<and> sent_offset (ureqs c r) \<le> data_len (ureqs c r) \<and>
     0 < chunk_size c \<and> M - U + size others + chunks_left r c \<le> length addrs"

text \<open>One turn of the loop: the window is closed, or a chunk is posted.\<close>

lemma senderCC_turn:
  assumes rel: "tx_rel f addrs others U M w req c" and ok: "sendable f addrs others U M r c"
    and lt: "sent_offset (ureqs c r) < data_len (ureqs c r)"
  obtains "senderCC_loop env now i r c = Some (Some (False, c))" "message_sent f addrs others U M w req r c False c []"
  | c1 x where "senderCC_loop env now i r c = senderCC_loop env now (i + 1) r c1"
    "tx_rel f addrs others U (Suc M) (w(M := x)) (req(M := r)) c1" "sendable f addrs others U (Suc M) r c1"
    "data_len (ureqs c1 r) - sent_offset (ureqs c1 r) < data_len (ureqs c r) - sent_offset (ureqs c r)"
    "\<And>b c' xs. message_sent f addrs others U (Suc M) (w(M := x)) (req(M := r)) r c1 b c' xs \<Longrightarrow>
       message_sent f addrs others U M w req r c b c' (x # xs)"
proof -
  let ?u = "ureqs c r" and ?cs = "chunk_size c"
  define rem where "rem = data_len ?u - sent_offset ?u"
  have bp: "bypass_pacing c" and UM: "U \<le> M" using rel by (auto simp: tx_rel_def Let_def tx_mode_def)
  have tim: "cc_kind c = TimelyRDMAContext" and fl: "ureq_flow ?u = f" and len: "0 < data_len ?u" "data_len ?u < 2 ^ 32"
    and cs: "0 < ?cs" and room: "M - U + size others + chunks_left r c \<le> length addrs"
    using ok by (auto simp: sendable_def)
  have rem: "u32_sub (data_len ?u) (sent_offset ?u) = rem" "0 < rem" using lt len by (simp_all add: rem_def wrap_simps)
  note loop = senderCC_loop.simps [of env now i r c, unfolded Let_def fl rem(1) EventOnChunkSize_timely [OF tim, of "env_wnd (env i)"]]
  from tim show thesis
  proof (cases rule: chunk_size_timely_cases [where wnd = 0 and f = f and rem = rem])
    case 1
    show thesis
    proof (rule that(1))
      show "senderCC_loop env now i r c = Some (Some (False, c))" using lt len(1) 1 by (subst loop) simp
      show "message_sent f addrs others U M w req r c False c []"
        using rel lt 1 by (intro message_sent_refl) (auto simp: rem_def)
    qed
  next
    case (2 n)
    note left = chunks_left_step [OF cs rem(2) 2(3)]
    have "M - U + size others < length addrs" using room left by (simp add: chunks_left_def rem_def)
    moreover have "n \<le> data_len ?u" using 2(3) by (simp add: rem_def)
    then have "n < 2 ^ 32" using len(2) by (rule order.strict_trans1)
    ultimately obtain c1 x where s: "send_bypassing (env i) now f r n c = Some (Some c1)" "next_wr f r n M c x"
      "tx_rel f addrs others U (Suc M) (w(M := x)) (req(M := r)) c1"
      "data_posted c1 = data_posted c @ [(wx_qpidx x, x)]" "rtx_posted c1 = rtx_posted c"
      "ureqs c1 = (ureqs c)(r := ?u\<lparr>sent_offset := u32_wrap (sent_offset ?u + n)\<rparr>)"
      "engine_unacked_bytes c1 = u32_wrap (engine_unacked_bytes c + n)" "tx_frame c c1"
      "\<And>g. g \<noteq> f \<Longrightarrow> flows c1 g = flows c g"
      using send_step [OF rel] by metis
    have off: "sent_offset ?u + n \<le> data_len ?u" "sent_offset ?u + n < 2 ^ 32" using 2(3) lt len by (auto simp: rem_def)
    then have u1: "ureqs c1 = (ureqs c)(r := ?u\<lparr>sent_offset := sent_offset ?u + n\<rparr>)" using s(6) by (simp add: wrap_simps)
    have fr: "cc_kind c1 = cc_kind c" "chunk_size c1 = ?cs" using s(8) by (auto simp: tx_frame_def)
    show thesis
    proof (rule that(2) [OF _ s(3)])
      show "senderCC_loop env now i r c = senderCC_loop env now (i + 1) r c1"
        using lt len(1) 2(1,2) bp s(1) by (subst loop) simp
      show "sendable f addrs others U (Suc M) r c1"
        using ok off UM left by (auto simp: sendable_def fr u1 chunks_left_def rem_def Suc_diff_le)
      show "message_sent f addrs others U M w req r c b c' (x # xs)"
        if "message_sent f addrs others U (Suc M) (w(M := x)) (req(M := r)) r c1 b c' xs" for b c' xs
        by (rule message_sent_step [OF s(2,4,5) u1 _ s(8) _ s(9) that off(2)])
          (use 2 s(7) left off in \<open>auto simp: chunks_left_def rem_def fr u1\<close>)
    qed (use off 2(1) in \<open>auto simp: u1\<close>)
  qed
qed

lemma senderCC_loop_ok:
  assumes "tx_rel f addrs others U M w req c" "sendable f addrs others U M r c"
  shows "\<exists>b c' xs. senderCC_loop env now i r c = Some (Some (b, c')) \<and> message_sent f addrs others U M w req r c b c' xs"
  using assms
proof (induction "data_len (ureqs c r) - sent_offset (ureqs c r)" arbitrary: c i M w req rule: less_induct)
  case less
  show ?case
  proof (cases "sent_offset (ureqs c r) < data_len (ureqs c r)")
    case False
    then have "sent_offset (ureqs c r) = data_len (ureqs c r)" "data_len (ureqs c r) \<noteq> 0"
      using less.prems(2) by (auto simp: sendable_def)
    then have "senderCC_loop env now i r c = Some (Some (True, c))" "message_sent f addrs others U M w req r c True c []"
      using less.prems(1) by (simp_all add: senderCC_loop.simps [of env now i r c] Let_def message_sent_refl)
    then show ?thesis by blast
  next
    case True
    from less.prems True show ?thesis
    proof (cases rule: senderCC_turn [where env = env and now = now and i = i])
      case (2 c1 x)
      from less.hyps [OF 2(4,2,3), of "i + 1"] 2(1,5) show ?thesis by metis
    qed blast
  qed
qed

section \<open>Acknowledgements\<close>

lemma u32_sub_wrap: "x < 2 ^ 32 \<Longrightarrow> u32_sub (u32_wrap (x + s)) x = u32_wrap s"
proof -
  assume x: "x < 2 ^ 32"
  have "int (u32_sub (u32_wrap (x + s)) x) = ((int x + int s) mod 2 ^ 32 + (2 ^ 32 - int x)) mod 2 ^ 32"
    using x by (simp add: u32_sub_def u32_wrap_def of_nat_diff of_nat_mod add_diff_eq)
  also have "\<dots> = (int x + int s + (2 ^ 32 - int x)) mod 2 ^ 32" by (rule mod_add_left_eq)
  also have "\<dots> = (int s + 2 ^ 32) mod 2 ^ 32" by simp
  also have "\<dots> = int (u32_wrap s)" by (simp add: u32_wrap_def of_nat_mod)
  finally show ?thesis by (simp only: of_nat_eq_iff)
qed

text \<open>The parts of the relation that releasing the oldest chunk changes.\<close>

definition tx_held ::
  "nat \<Rightarrow> nat list \<Rightarrow> nat multiset \<Rightarrow> nat \<Rightarrow> nat \<Rightarrow> (nat \<Rightarrow> wr_ex) \<Rightarrow> (nat \<Rightarrow> nat) \<Rightarrow> RDMAContext \<Rightarrow> bool" where
  "tx_held f addrs others U M w req c \<longleftrightarrow> U \<le> M \<and>
     tracked U M w req (unacked_chunks (flows c f)) (wr_exs c) \<and>
     pool_ok addrs others (unacked_chunks (flows c f)) (wr_ex_pool c) \<and>
     unacked_bytes (flows c f) = u32_wrap (\<Sum>k\<leftarrow>[U..<M]. wx_length (w k)) \<and>
     (\<forall>k\<in>{U..<M}. wx_length (w k) < 2 ^ 32) \<and>
     tx_done (flows c f) = map req (filter (\<lambda>k. last_of (w k)) [0..<U])"

text \<open>And the fields it leaves alone.\<close>

definition tx_same :: "nat \<Rightarrow> RDMAContext \<Rightarrow> RDMAContext \<Rightarrow> bool" where
  "tx_same f c c' \<longleftrightarrow> tx_frame c c' \<and> wr_exs c' = wr_exs c \<and> rto c' = rto c \<and> ureqs c' = ureqs c \<and>
     data_posted c' = data_posted c \<and> rtx_posted c' = rtx_posted c \<and> engine_unacked_bytes c' = engine_unacked_bytes c \<and>
     pcb (flows c' f) = pcb (flows c f) \<and> fid (flows c' f) = fid (flows c f) \<and>
     (\<forall>g. rto_armed (flows c' g) = rto_armed (flows c g)) \<and> (\<forall>g. g \<noteq> f \<longrightarrow> flows c' g = flows c g)"

lemma ack_head_ok:
  assumes h: "tx_held f addrs others U M w req c" and lt: "U < M"
  obtains ch rest where "unacked_chunks (flows c f) = ch # rest"
    "tx_held f addrs others (Suc U) M w req (ack_head f ch rest c)" "tx_same f c (ack_head f ch rest c)"
proof -
  note H = h [unfolded tx_held_def]
  have tr: "tracked U M w req (unacked_chunks (flows c f)) (wr_exs c)" using H by blast
  then obtain ch rest where chs: "unacked_chunks (flows c f) = ch # rest"
    using tracked_length lt by (cases "unacked_chunks (flows c f)") fastforce+
  note first = tracked_nth [OF tr, of 0, unfolded chs, simplified]
  have "tracked (Suc U) M w req rest (wr_exs c)" using tracked_drop [OF tr, of 1] by (simp add: chs)
  moreover have "pool_ok addrs others rest (free_buff (ct_wr_ex ch) (wr_ex_pool c))"
    using pool_free H by (simp add: chs)
  moreover have "u32_sub (unacked_bytes (flows c f)) (wx_length (w U)) = u32_wrap (\<Sum>k\<leftarrow>[Suc U..<M]. wx_length (w k))"
    using H lt by (simp add: upt_conv_Cons u32_sub_wrap)
  ultimately have "tx_held f addrs others (Suc U) M w req (ack_head f ch rest c)"
    using H lt first by (simp add: tx_held_def ack_head_def)
  moreover have "tx_same f c (ack_head f ch rest c)" by (simp add: tx_same_def ack_head_def tx_frame_def)
  ultimately show thesis using chs that by blast
qed

lemma tx_same_trans: "tx_same f c c' \<Longrightarrow> tx_same f c' c'' \<Longrightarrow> tx_same f c c''"
  by (auto simp: tx_same_def tx_frame_def)

lemma ack_transmitted_ok:
  assumes "tx_held f addrs others U M w req c" "U + n \<le> M"
  shows "\<exists>c'. ack_transmitted_chunks f n c = Some c' \<and> tx_held f addrs others (U + n) M w req c' \<and> tx_same f c c'"
  using assms
proof (induction n arbitrary: U c)
  case 0
  then show ?case by (simp add: tx_same_def)
next
  case (Suc n)
  obtain ch rest where h: "unacked_chunks (flows c f) = ch # rest"
    "tx_held f addrs others (Suc U) M w req (ack_head f ch rest c)" "tx_same f c (ack_head f ch rest c)"
    using ack_head_ok [OF Suc.prems(1)] Suc.prems(2) by auto
  from Suc.IH [OF h(2)] Suc.prems(2) obtain c' where
    "ack_transmitted_chunks f n (ack_head f ch rest c) = Some c'" "tx_held f addrs others (Suc U + n) M w req c'"
    "tx_same f (ack_head f ch rest c) c'" by auto
  then show ?case using h(1,3) tx_same_trans by auto
qed

section \<open>Retransmission\<close>

text \<open>What retransmission may change: the statistics, the timer of the flow, and what was retransmitted.\<close>

definition rtx_frame :: "nat set \<Rightarrow> nat \<Rightarrow> RDMAContext \<Rightarrow> RDMAContext \<Rightarrow> bool" where
  "rtx_frame X f c c' \<longleftrightarrow> tx_frame c c' \<and> wr_exs c' = wr_exs c \<and> wr_ex_pool c' = wr_ex_pool c \<and> ureqs c' = ureqs c \<and>
     data_posted c' = data_posted c \<and> engine_unacked_bytes c' = engine_unacked_bytes c \<and>
     (\<forall>g. g \<noteq> f \<longrightarrow> flows c' g = flows c g) \<and> fid (flows c' f) = fid (flows c f) \<and>
     unacked_chunks (flows c' f) = unacked_chunks (flows c f) \<and> unacked_bytes (flows c' f) = unacked_bytes (flows c f) \<and>
     tx_done (flows c' f) = tx_done (flows c f) \<and> snd_una (pcb (flows c' f)) = snd_una (pcb (flows c f)) \<and>
     snd_nxt (pcb (flows c' f)) = snd_nxt (pcb (flows c f)) \<and>
     tx_sack_bitmap (pcb (flows c' f)) = tx_sack_bitmap (pcb (flows c f)) \<and>
     tx_sack_bitmap_count (pcb (flows c' f)) = tx_sack_bitmap_count (pcb (flows c f)) \<and>
     tx_sack_bitmap_base (pcb (flows c' f)) = tx_sack_bitmap_base (pcb (flows c f)) \<and>
     (tms.consistent X (\<lambda>g. rto_armed (flows c g)) (rto c) \<longrightarrow> tms.consistent X (\<lambda>g. rto_armed (flows c' g)) (rto c')) \<and>
     (rto_armed (flows c f) \<longrightarrow> rto_armed (flows c' f))"

lemma rtx_frame_refl [simp]: "rtx_frame X f c c"
  by (simp add: rtx_frame_def)

lemma rtx_frame_trans: "rtx_frame X f c c' \<Longrightarrow> rtx_frame X f c' c'' \<Longrightarrow> rtx_frame X f c c''"
  unfolding rtx_frame_def by (auto intro: tx_frame_trans)

lemma rearm_rtx_frame:
  assumes "f \<notin> X"
  shows "rtx_frame X f c (rearm_timer_for_flow now f c)"
proof -
  have "tms.consistent X (\<lambda>g. rto_armed (flows (rearm_timer_for_flow now f c) g)) (rto (rearm_timer_for_flow now f c))"
    if "tms.consistent X (\<lambda>g. rto_armed (flows c g)) (rto c)"
    by (rule tx_timer_arm [OF that assms, where now = now]) auto
  then show ?thesis by (simp add: rtx_frame_def tx_frame_def)
qed

lemma flags_upd: "rto_armed s = rto_armed (flows c f) \<Longrightarrow> (\<lambda>g. rto_armed (((flows c)(f := s)) g)) = (\<lambda>g. rto_armed (flows c g))"
  by auto

lemma count_rtx_frame:
  "rtx_frame X f c (count_fast_rexmit f c)" "rtx_frame X f c (count_rexmit by_rto f c)"
  by (simp_all add: rtx_frame_def tx_frame_def count_fast_rexmit_def count_rexmit_def flags_upd del: fun_upd_apply)
    simp_all

definition rtx_of :: "RDMAContext \<Rightarrow> ChunkTrack \<Rightarrow> nat \<times> wr_ex" where
  "rtx_of c ch = (wx_qpidx (wr_exs c (ct_wr_ex ch)), wr_exs c (ct_wr_ex ch))"

lemma try_retransmit_ok:
  assumes "cc_kind c \<noteq> EQDSRDMAContext"
  shows "try_retransmit_chunk wnd f (ct_wr_ex ch) c = (True, c\<lparr>rtx_posted := rtx_posted c @ [rtx_of c ch]\<rparr>)"
    "rtx_frame X f c (c\<lparr>rtx_posted := rtx_posted c @ [rtx_of c ch]\<rparr>)"
  using assms by (cases "cc_kind c"; simp add: try_retransmit_chunk_def EventOnTxRTXData_def rtx_of_def rtx_frame_def tx_frame_def)+

lemma rtx_of_frame: "rtx_frame X f c c' \<Longrightarrow> rtx_of c' = rtx_of c"
  by (auto simp: rtx_of_def rtx_frame_def)

text \<open>The end of the walk over a bitmap: behind the last bit set.\<close>

definition sack_end :: "nat set \<Rightarrow> nat" where
  "sack_end S = (if S = {} then 0 else Suc (Max S))"

lemma sack_end_less: "finite S \<Longrightarrow> i \<in> S \<Longrightarrow> i < sack_end S"
  by (auto simp: sack_end_def less_Suc_eq_le)

lemma sack_end_le: "finite S \<Longrightarrow> S \<subseteq> {..<n} \<Longrightarrow> sack_end S \<le> n"
  by (auto simp: sack_end_def Suc_le_eq)

lemma sack_end_past:
  assumes "finite S" "card {i \<in> S. index \<le> i} = 0"
  shows "sack_end S \<le> index"
proof -
  have "{i \<in> S. index \<le> i} = {}" using assms by simp
  then have "S \<subseteq> {..<index}" by auto
  then show ?thesis by (rule sack_end_le [OF assms(1)])
qed

lemma UINT_CSN_of_nat: "UINT_CSN_of (of_nat i) = csn_of i"
  unfolding UINT_CSN_of_eq csn_of_def by transfer simp

lemma card_from_Suc:
  assumes "finite S" "index \<in> S"
  shows "card {i \<in> S. index \<le> i} = Suc (card {i \<in> S. Suc index \<le> i})"
proof -
  have "{i \<in> S. index \<le> i} = insert index {i \<in> S. Suc index \<le> i}" using assms(2) by auto
  then show ?thesis using assms(1) by simp
qed

lemma card_from_skip: "index \<notin> S \<Longrightarrow> {i \<in> S. index \<le> i} = {i \<in> S. Suc index \<le> i}"
  by (metis (no_types, opaque_lifting) Suc_le_eq order.order_iff_strict)

text \<open>
  The walk retransmits the chunks whose bit is not set up to the last bit set, each once and in
  order, and never reads behind the tracked chunks.
\<close>

lemma rexmit_holes_ok:
  assumes "cc_kind c \<noteq> EQDSRDMAContext" "f \<notin> X" "S = bitmap_set bm" "S \<subseteq> {..<length (unacked_chunks (flows c f))}"
    and "\<And>i. i < length (unacked_chunks (flows c f)) \<Longrightarrow> ct_csn (unacked_chunks (flows c f) ! i) = to_uint32 (csn_of (U + i))"
    and "cnt = card {i \<in> S. index \<le> i}"
  shows "\<exists>c'. rexmit_holes in_recovery env f (csn_of U) bm index cnt sent c =
      Some (sent \<or> filter (\<lambda>i. i \<notin> S) [index..<sack_end S] \<noteq> [], c') \<and> rtx_frame X f c c' \<and>
      rtx_posted c' = rtx_posted c @ map (\<lambda>i. rtx_of c (unacked_chunks (flows c f) ! i)) (filter (\<lambda>i. i \<notin> S) [index..<sack_end S])"
  using assms(1,4-)
proof (induction "128 - index" arbitrary: index cnt sent c rule: less_induct)
  case less
  have fin: "finite S" and S128: "S \<subseteq> {..<128}"
    using assms(3) bitmap_set_bounds [of bm] finite_subset [of S "{..<128}"] by auto
  show ?case
  proof (cases "cnt = 0")
    case True
    have "sack_end S \<le> index" using sack_end_past [OF fin] less.prems(4) True by simp
    then show ?thesis using True by (subst rexmit_holes.simps) simp
  next
    case False
    then have "{i \<in> S. index \<le> i} \<noteq> {}" using less.prems(4) by (metis card.empty)
    then obtain j where j: "j \<in> S" "index \<le> j" by blast
    then have idx: "index < 128" "index < sack_end S" "unacked_chunks (flows c f) \<noteq> []"
      using S128 sack_end_less [OF fin j(1)] less.prems(2) by auto
    note unfold = rexmit_holes.simps [of in_recovery env f "csn_of U" bm index cnt sent c, unfolded bitmap_bit_iff [OF idx(1)] assms(3) [symmetric]]
    have upt: "[index..<sack_end S] = index # [Suc index..<sack_end S]" by (rule upt_conv_Cons [OF idx(2)])
    show ?thesis
    proof (cases "index \<in> S")
      case True
      have "cnt - 1 = card {i \<in> S. Suc index \<le> i}" using less.prems(4) card_from_Suc [OF fin True] by simp
      from less.hyps [OF _ less.prems(1-3) this, of sent] idx(1) show ?thesis
        using True False idx by (simp add: unfold upt kSackBitmapSize_def)
    next
      case hole: False
      then have "index < j" using j by (metis le_neq_implies_less)
      then have len: "index < length (unacked_chunks (flows c f))" using j(1) less.prems(2) by auto
      let ?ch = "unacked_chunks (flows c f) ! index"
      let ?c1 = "c\<lparr>rtx_posted := rtx_posted c @ [rtx_of c ?ch]\<rparr>"
      define c2 where "c2 = (if in_recovery then rearm_timer_for_flow (env_now (env index)) f (count_fast_rexmit f ?c1) else ?c1)"
      have fr: "rtx_frame X f c c2"
        unfolding c2_def using rtx_frame_trans [OF try_retransmit_ok(2) [OF less.prems(1)]
            rtx_frame_trans [OF count_rtx_frame(1) rearm_rtx_frame [OF assms(2)]]] try_retransmit_ok(2) [OF less.prems(1)]
        by auto
      have post: "rtx_posted c2 = rtx_posted c @ [rtx_of c ?ch]" by (simp add: c2_def count_fast_rexmit_def)
      have same: "cc_kind c2 = cc_kind c" "unacked_chunks (flows c2 f) = unacked_chunks (flows c f)"
        using fr by (auto simp: rtx_frame_def tx_frame_def)
      have step: "rexmit_holes in_recovery env f (csn_of U) bm index cnt sent c =
          rexmit_holes in_recovery env f (csn_of U) bm (Suc index) cnt True c2"
        using False hole idx len less.prems(3) [OF len] try_retransmit_ok(1) [OF less.prems(1), of _ f ?ch]
        by (subst unfold) (simp add: kSackBitmapSize_def c2_def csn_of_add UINT_CSN_of_nat del: UINT_CSN_of_eq)
      have "cnt = card {i \<in> S. Suc index \<le> i}" using less.prems(4) card_from_skip [OF hole] by simp
      moreover have "128 - Suc index < 128 - index" using idx(1) by simp
      ultimately obtain c' where c': "rexmit_holes in_recovery env f (csn_of U) bm (Suc index) cnt True c2 = Some (True, c')"
        "rtx_frame X f c2 c'" "rtx_posted c' = rtx_posted c2 @
          map (\<lambda>i. rtx_of c2 (unacked_chunks (flows c2 f) ! i)) (filter (\<lambda>i. i \<notin> S) [Suc index..<sack_end S])"
        using less.hyps [of "Suc index" c2 cnt True] less.prems(1-3) by (auto simp: same)
      then show ?thesis unfolding step upt using hole rtx_frame_trans [OF fr] rtx_of_frame [OF fr] by (simp add: same post)
    qed
  qed
qed

text \<open>What a flow retransmits: its oldest chunk, or the holes below the last chunk known to have arrived.\<close>

definition missing :: "nat set \<Rightarrow> nat list" where
  "missing S = (if S = {} then [0] else filter (\<lambda>i. i \<notin> S) [0..<sack_end S])"

definition rtx_ready :: "nat \<Rightarrow> RDMAContext \<Rightarrow> bool" where
  "rtx_ready f c \<longleftrightarrow> (\<exists>U. sack_ok U (U + length (unacked_chunks (flows c f))) (pcb (flows c f)) \<and>
     (\<forall>i<length (unacked_chunks (flows c f)). ct_csn (unacked_chunks (flows c f) ! i) = to_uint32 (csn_of (U + i))))"

definition rtx_list :: "nat \<Rightarrow> RDMAContext \<Rightarrow> (nat \<times> wr_ex) list" where
  "rtx_list f c = (if unacked_chunks (flows c f) = [] then []
     else map (\<lambda>i. rtx_of c (unacked_chunks (flows c f) ! i)) (missing (bitmap_set (tx_sack_bitmap (pcb (flows c f))))))"

lemma retransmit_oldest:
  assumes cc: "cc_kind c \<noteq> EQDSRDMAContext" and X: "f \<notin> X"
    and chs: "unacked_chunks (flows c f) = ch # rest" and z: "tx_sack_bitmap_count (pcb (flows c f)) = 0"
  shows "\<exists>c'. retransmit_for_flow by_rto env f c = Some c' \<and> rtx_frame X f c c' \<and> rto_armed (flows c' f) \<and>
    rtx_posted c' = rtx_posted c @ [rtx_of c ch]"
proof -
  let ?c1 = "c\<lparr>rtx_posted := rtx_posted c @ [rtx_of c ch]\<rparr>"
  let ?c2 = "count_rexmit by_rto f (rearm_timer_for_flow (env_now (env kSackBitmapSize)) f ?c1)"
  have "retransmit_for_flow by_rto env f c = Some ?c2"
    using try_retransmit_ok(1) [OF cc] z chs by (simp add: retransmit_for_flow_def Let_def)
  moreover have "rtx_frame X f c ?c2"
    by (intro rtx_frame_trans [OF try_retransmit_ok(2) [OF cc] rtx_frame_trans [OF rearm_rtx_frame [OF X] count_rtx_frame(2)]])
  moreover have "rtx_posted ?c2 = rtx_posted c @ [rtx_of c ch]" "rto_armed (flows ?c2 f)"
    by (simp_all add: count_rexmit_def count_fast_rexmit_def)
  ultimately show ?thesis by blast
qed

lemma retransmit_holes:
  assumes cc: "cc_kind c \<noteq> EQDSRDMAContext" and X: "f \<notin> X"
    and S: "S = bitmap_set (tx_sack_bitmap (pcb (flows c f)))" "S \<subseteq> {..<length (unacked_chunks (flows c f))}"
    and csn: "\<And>i. i < length (unacked_chunks (flows c f)) \<Longrightarrow> ct_csn (unacked_chunks (flows c f) ! i) = to_uint32 (csn_of (U + i))"
    and cnt: "unat (tx_sack_bitmap_count (pcb (flows c f))) = card S" and base: "UINT_CSN_of (tx_sack_bitmap_base (pcb (flows c f))) = csn_of U"
    and chs: "unacked_chunks (flows c f) = ch # rest" and nz: "tx_sack_bitmap_count (pcb (flows c f)) \<noteq> 0"
  shows "\<exists>c'. retransmit_for_flow by_rto env f c = Some c' \<and> rtx_frame X f c c' \<and> rto_armed (flows c' f) \<and>
    rtx_posted c' = rtx_posted c @ map (\<lambda>i. rtx_of c (unacked_chunks (flows c f) ! i)) (filter (\<lambda>i. i \<notin> S) [0..<sack_end S])"
proof -
  let ?hs = "filter (\<lambda>i. i \<notin> S) [0..<sack_end S]"
  obtain c1 where c1: "rexmit_holes False env f (csn_of U) (tx_sack_bitmap (pcb (flows c f))) 0 (card S) False c =
      Some (?hs \<noteq> [], c1)" "rtx_frame X f c c1"
    "rtx_posted c1 = rtx_posted c @ map (\<lambda>i. rtx_of c (unacked_chunks (flows c f) ! i)) ?hs"
    using rexmit_holes_ok [OF cc X S csn, where index = 0 and cnt = "card S" and in_recovery = False and sent = False and env = env]
    by auto
  define c2 where "c2 = rearm_timer_for_flow (env_now (env kSackBitmapSize)) f c1"
  define c3 where "c3 = (if ?hs \<noteq> [] then count_rexmit by_rto f c2 else c2)"
  have "retransmit_for_flow by_rto env f c = Some c3"
    using nz c1(1) chs base unfolding retransmit_for_flow_def c3_def c2_def Let_def
    by (simp add: cnt del: UINT_CSN_of_eq)
  moreover have "rtx_frame X f c c3"
    using rtx_frame_trans [OF c1(2) rearm_rtx_frame [OF X]] rtx_frame_trans [OF _ count_rtx_frame(2)]
    unfolding c3_def c2_def by (simp split: if_split)
  moreover have "rtx_posted c3 = rtx_posted c1" "rto_armed (flows c3 f)"
    by (simp_all add: c3_def c2_def count_rexmit_def count_fast_rexmit_def)
  ultimately show ?thesis using c1(3) by auto
qed

lemma retransmit_for_flow_ok:
  assumes cc: "cc_kind c \<noteq> EQDSRDMAContext" and X: "f \<notin> X" and ready: "rtx_ready f c"
  shows "\<exists>c'. retransmit_for_flow by_rto env f c = Some c' \<and> rtx_frame X f c c' \<and>
    (unacked_chunks (flows c f) \<noteq> [] \<longrightarrow> rto_armed (flows c' f)) \<and> rtx_posted c' = rtx_posted c @ rtx_list f c"
proof (cases "unacked_chunks (flows c f)")
  case Nil
  then show ?thesis by (simp add: retransmit_for_flow_def rtx_list_def)
next
  case (Cons ch rest)
  define S where "S = bitmap_set (tx_sack_bitmap (pcb (flows c f)))"
  obtain U where U: "sack_ok U (U + length (unacked_chunks (flows c f))) (pcb (flows c f))"
    "\<And>i. i < length (unacked_chunks (flows c f)) \<Longrightarrow> ct_csn (unacked_chunks (flows c f) ! i) = to_uint32 (csn_of (U + i))"
    using ready by (auto simp: rtx_ready_def)
  have sub: "S \<subseteq> {..<length (unacked_chunks (flows c f))}" and cnt: "unat (tx_sack_bitmap_count (pcb (flows c f))) = card S"
    and base: "UINT_CSN_of (tx_sack_bitmap_base (pcb (flows c f))) = csn_of U"
    using U(1) by (auto simp: sack_ok_def S_def)
  have fin: "finite S" using bitmap_set_bounds finite_subset unfolding S_def by blast
  show ?thesis
  proof (cases "S = {}")
    case True
    then have "tx_sack_bitmap_count (pcb (flows c f)) = 0" using cnt by (simp add: unat_eq_0)
    from retransmit_oldest [OF cc X Cons this] show ?thesis
      using True Cons by (simp add: rtx_list_def missing_def S_def [symmetric])
  next
    case False
    then have "tx_sack_bitmap_count (pcb (flows c f)) \<noteq> 0" using cnt fin by (metis card_eq_0_iff unsigned_0)
    from retransmit_holes [OF cc X S_def sub U(2) cnt base Cons this] show ?thesis
      using False Cons by (simp add: rtx_list_def missing_def S_def [symmetric])
  qed
qed

end
