(* ===== verification/RdmaTxAck.thy ===== *)
theory RdmaTxAck
  imports RdmaTxInv
begin

text \<open>
  The handlers of the send path that react: acknowledgements, with the duplicates that lead to fast
  retransmission and recovery, and the retransmission time-out. Both are shown to keep the relation
  of a flow to its unbounded sender, and to retransmit exactly the chunks that the last SACK bitmap
  leaves open.
\<close>

section \<open>Keeping the relation\<close>

lemma tx_rel_rtx_frame:
  assumes "tx_rel f addrs others U M w req c" "rtx_frame {} f c c'"
  shows "tx_rel f addrs others U M w req c'"
  using assms unfolding tx_rel_def rtx_frame_def Let_def
  by (auto simp: tx_mode_def tx_frame_def tx_timer_def sack_ok_def)

lemma tx_rel_ready:
  assumes "tx_rel f addrs others U M w req c"
  shows "rtx_ready f c"
proof -
  have tr: "tracked U M w req (unacked_chunks (flows c f)) (wr_exs c)" and UM: "U \<le> M" "sack_ok U M (pcb (flows c f))"
    using assms by (auto simp: tx_rel_def Let_def)
  have "M = U + length (unacked_chunks (flows c f))" using tracked_length [OF tr] UM(1) by simp
  then show ?thesis unfolding rtx_ready_def
    using UM tracked_nth(1) [OF tr] tracked_length [OF tr] by (intro exI [of _ U]) simp
qed

text \<open>The chunks of a flow as the abstract sender numbers them.\<close>

lemma tx_rel_rtx_of:
  assumes "tx_rel f addrs others U M w req c" "i < M - U"
  shows "rtx_of c (unacked_chunks (flows c f) ! i) = (wx_qpidx (w (U + i)), w (U + i))"
proof -
  have "tracked U M w req (unacked_chunks (flows c f)) (wr_exs c)" using assms(1) by (auto simp: tx_rel_def Let_def)
  from tracked_nth(2) [OF this assms(2)] show ?thesis by (simp add: rtx_of_def)
qed

text \<open>A header that tells about a receiver which misses chunk \<open>A\<close> and holds none from \<open>M\<close> on.\<close>

definition sack_hdr :: "nat \<Rightarrow> nat \<Rightarrow> nat \<Rightarrow> UcclSackHdr \<Rightarrow> bool" where
  "sack_hdr f A M h \<longleftrightarrow> sh_fid h = f \<and> UINT_CSN_of (ucast (sh_ackno h)) = csn_of A \<and> bitmap_ok (sh_sack_bitmap h) \<and>
     bitmap_set (sh_sack_bitmap h) \<subseteq> {i. A + i < M} \<and>
     unat (sh_sack_bitmap_count h) = card (bitmap_set (sh_sack_bitmap h))"

lemma card_bitmap: "card (bitmap_set bm) \<le> 128"
  using card_mono [OF _ bitmap_set_bounds, of bm] by simp

lemma sack_hdr_store:
  assumes "sack_hdr f A M h"
  shows "sack_ok A M (store_sack h p)"
proof -
  have "unat (sh_sack_bitmap_count h) \<le> 128" using assms card_bitmap by (simp add: sack_hdr_def)
  then have "unat (ucast (sh_sack_bitmap_count h) :: u8) = unat (sh_sack_bitmap_count h)"
    by (simp add: unsigned_ucast_eq take_bit_nat_eq_self)
  then show ?thesis using assms by (simp add: sack_ok_def sack_hdr_def store_sack_def)
qed

lemma tx_rel_store:
  assumes "tx_rel f addrs others U M w req c" "sack_hdr f U M h"
  shows "tx_rel f addrs others U M w req (upd_flow f (upd_pcb (store_sack h)) c)"
proof -
  have flags_eq: "(\<lambda>g. rto_armed (flows (upd_flow f (upd_pcb (store_sack h)) c) g)) = (\<lambda>g. rto_armed (flows c g))"
    by auto
  show ?thesis using assms sack_hdr_store [OF assms(2)] unfolding tx_rel_def tx_timer_def Let_def flags_eq
    by (simp add: tx_mode_def store_sack_def)
qed

section \<open>Acknowledgements\<close>

lemma rtx_list_sub:
  assumes "tx_rel f addrs others U M w req c" "S \<subseteq> {i. U + i < M}" "finite S" "U < M" "set js \<subseteq> {..<max 1 (sack_end S)}"
  shows "\<exists>ns. set ns \<subseteq> {U..<M} \<and> map (\<lambda>i. rtx_of c (unacked_chunks (flows c f) ! i)) js = map (\<lambda>k. (wx_qpidx (w k), w k)) ns"
proof -
  have "sack_end S \<le> M - U" using assms(2) by (intro sack_end_le [OF assms(3)]) auto
  then have lt: "i < M - U" if "i \<in> set js" for i using that assms(4,5) by fastforce
  show ?thesis
  proof (intro exI conjI)
    show "set (map ((+) U) js) \<subseteq> {U..<M}" using lt by fastforce
    show "map (\<lambda>i. rtx_of c (unacked_chunks (flows c f) ! i)) js = map (\<lambda>k. (wx_qpidx (w k), w k)) (map ((+) U) js)"
      using tx_rel_rtx_of [OF assms(1) lt] by simp
  qed
qed

text \<open>A retransmission of outstanding chunks that keeps the relation.\<close>

definition rexmits ::
  "nat \<Rightarrow> nat list \<Rightarrow> nat multiset \<Rightarrow> nat \<Rightarrow> nat \<Rightarrow> (nat \<Rightarrow> wr_ex) \<Rightarrow> (nat \<Rightarrow> nat) \<Rightarrow> RDMAContext \<Rightarrow> RDMAContext \<Rightarrow> bool" where
  "rexmits f addrs others U M w req c c' \<longleftrightarrow> tx_rel f addrs others U M w req c' \<and>
     data_posted c' = data_posted c \<and> ureqs c' = ureqs c \<and> tx_frame c c' \<and>
     (\<forall>g. g \<noteq> f \<longrightarrow> flows c' g = flows c g) \<and>
     (\<exists>ns. set ns \<subseteq> {U..<M} \<and> rtx_posted c' = rtx_posted c @ map (\<lambda>k. (wx_qpidx (w k), w k)) ns)"

lemma rexmits_frame:
  assumes "tx_rel f addrs others U M w req c" "rtx_frame {} f c c'"
    and "set ns \<subseteq> {U..<M}" "rtx_posted c' = rtx_posted c @ map (\<lambda>k. (wx_qpidx (w k), w k)) ns"
  shows "rexmits f addrs others U M w req c c'"
  unfolding rexmits_def using assms(2-) tx_rel_rtx_frame [OF assms(1,2)]
  by (intro conjI exI [of _ ns]) (simp_all add: rtx_frame_def)

lemma rexmits_none:
  assumes "tx_rel f addrs others U M w req c" "rtx_frame {} f c c'" "rtx_posted c' = rtx_posted c"
  shows "rexmits f addrs others U M w req c c'"
  by (rule rexmits_frame [OF assms(1,2), of "[]"]) (use assms(3) in simp_all)

lemma rexmits_pre:
  assumes "rexmits f addrs others U M w req c1 c'" "rtx_frame {} f c c1" "rtx_posted c1 = rtx_posted c"
  shows "rexmits f addrs others U M w req c c'"
  using assms tx_frame_trans [of c c1 c'] by (auto simp: rexmits_def rtx_frame_def)

lemma rtx_list_ns:
  assumes rel: "tx_rel f addrs others U M w req c"
  shows "\<exists>ns. set ns \<subseteq> {U..<M} \<and> rtx_list f c = map (\<lambda>k. (wx_qpidx (w k), w k)) ns"
proof (cases "unacked_chunks (flows c f) = []")
  case False
  have R: "sack_ok U M (pcb (flows c f))" "U \<le> M" "tracked U M w req (unacked_chunks (flows c f)) (wr_exs c)"
    using rel by (auto simp: tx_rel_def Let_def)
  define S where "S = bitmap_set (tx_sack_bitmap (pcb (flows c f)))"
  have S: "S \<subseteq> {i. U + i < M}" "finite S"
    using R(1) bitmap_set_bounds finite_subset unfolding S_def sack_ok_def by blast+
  have "U < M" using tracked_length [OF R(3)] R(2) False by (cases "U = M") auto
  moreover have "set (missing S) \<subseteq> {..<max 1 (sack_end S)}" by (auto simp: missing_def)
  ultimately show ?thesis using rtx_list_sub [OF rel S] False by (simp add: rtx_list_def S_def)
qed (auto simp: rtx_list_def intro: exI [of _ "[]"])

lemma fast_retransmit_ok:
  assumes rel: "tx_rel f addrs others U M w req c"
  shows "\<exists>c'. fast_retransmit_for_flow env f c = Some c' \<and> rexmits f addrs others U M w req c c'"
proof (cases "is_roce c")
  case True
  have cc: "cc_kind c \<noteq> EQDSRDMAContext" using rel by (auto simp: tx_rel_def tx_mode_def Let_def)
  obtain c' where c': "retransmit_for_flow False env f c = Some c'" "rtx_frame {} f c c'"
    "rtx_posted c' = rtx_posted c @ rtx_list f c"
    using retransmit_for_flow_ok [OF cc _ tx_rel_ready [OF rel], of "{}" False env] by blast
  then show ?thesis using rtx_list_ns [OF rel] rexmits_frame [OF rel c'(2)] True by (auto simp: fast_retransmit_for_flow_def)
qed (use rexmits_none [OF rel rtx_frame_refl] in \<open>simp add: fast_retransmit_for_flow_def\<close>)

lemma recovery_ok:
  assumes rel: "tx_rel f addrs others U M w req c" and h: "sack_hdr f U M h"
  shows "\<exists>b c'. rexmit_holes True env f (csn_of U) (sh_sack_bitmap h) 0 (unat (sh_sack_bitmap_count h)) False c = Some (b, c') \<and>
    rexmits f addrs others U M w req c c'"
proof -
  have cc: "cc_kind c \<noteq> EQDSRDMAContext" and UM: "U \<le> M" and tr: "tracked U M w req (unacked_chunks (flows c f)) (wr_exs c)"
    using rel by (auto simp: tx_rel_def tx_mode_def Let_def)
  define S where "S = bitmap_set (sh_sack_bitmap h)"
  have S: "S \<subseteq> {i. U + i < M}" "finite S" "unat (sh_sack_bitmap_count h) = card S"
    using h bitmap_set_bounds finite_subset unfolding S_def sack_hdr_def by blast+
  have "S \<subseteq> {..<length (unacked_chunks (flows c f))}" using S(1) tracked_length [OF tr] by auto
  then obtain c' where c': "rexmit_holes True env f (csn_of U) (sh_sack_bitmap h) 0 (card S) False c =
      Some (filter (\<lambda>i. i \<notin> S) [0..<sack_end S] \<noteq> [], c')" "rtx_frame {} f c c'"
    "rtx_posted c' = rtx_posted c @ map (\<lambda>i. rtx_of c (unacked_chunks (flows c f) ! i)) (filter (\<lambda>i. i \<notin> S) [0..<sack_end S])"
    using rexmit_holes_ok [OF cc _ S_def, where X = "{}" and f = f and index = 0 and cnt = "card S" and U = U and env = env
        and in_recovery = True and sent = False] tracked_nth(1) [OF tr] tracked_length [OF tr] by auto
  have "\<exists>ns. set ns \<subseteq> {U..<M} \<and> map (\<lambda>i. rtx_of c (unacked_chunks (flows c f) ! i)) (filter (\<lambda>i. i \<notin> S) [0..<sack_end S]) =
      map (\<lambda>k. (wx_qpidx (w k), w k)) ns"
  proof (cases "S = {}")
    case False
    then have "U < M" using S(1) by auto
    then show ?thesis by (intro rtx_list_sub [OF rel S(1,2)]) auto
  qed (auto simp: sack_end_def intro: exI [of _ "[]"])
  then show ?thesis using c' rexmits_frame [OF rel c'(2)] S(3) by auto
qed


lemma duplicate_ack_ok:
  assumes rel: "tx_rel f addrs others U M w req c" and h: "sack_hdr f U M h"
  shows "\<exists>c'. rx_duplicate_ack env f h c = Some c' \<and> rexmits f addrs others U M w req c c'"
proof -
  define c1 where "c1 = upd_flow f (upd_pcb (\<lambda>p. p\<lparr>duplicate_acks := duplicate_acks p + 1,
    snd_ooo_acks := UINT_CSN_of (ucast (sh_sack_bitmap_count h))\<rparr>)) c"
  have fr: "rtx_frame {} f c c1" "rtx_posted c1 = rtx_posted c"
    unfolding c1_def by (simp_all add: rtx_frame_def tx_frame_def flags_upd del: fun_upd_apply) simp_all
  note rel1 = tx_rel_rtx_frame [OF rel fr(1)]
  have una: "snd_una (pcb (flows c1 f)) = csn_of U" using rel1 by (simp add: tx_rel_def Let_def)
  have "rexmits f addrs others U M w req c1 c1" by (rule rexmits_none [OF rel1]) simp_all
  then have "\<exists>c'. rx_duplicate_ack env f h c = Some c' \<and> rexmits f addrs others U M w req c1 c'"
    using fast_retransmit_ok [OF rel1, of env] recovery_ok [OF rel1 h, of env]
    unfolding rx_duplicate_ack_def c1_def [symmetric] Let_def una by (auto split: if_splits)
  then show ?thesis using rexmits_pre [OF _ fr] by blast
qed

text \<open>After an acknowledgement the timer runs exactly when chunks are outstanding.\<close>

definition settle_timer :: "nat \<Rightarrow> nat \<Rightarrow> RDMAContext \<Rightarrow> RDMAContext" where
  "settle_timer now f c = (if unacked_chunks (flows c f) \<noteq> [] then rearm_timer_for_flow now f c else disarm_timer_for_flow f c)"

lemma settle_timer_sel [simp]:
  "flows (settle_timer now f c) = (flows c)(f := (flows c f)\<lparr>rto_armed := (unacked_chunks (flows c f) \<noteq> [])\<rparr>)"
  "wr_exs (settle_timer now f c) = wr_exs c" "wr_ex_pool (settle_timer now f c) = wr_ex_pool c"
  "ureqs (settle_timer now f c) = ureqs c" "data_posted (settle_timer now f c) = data_posted c"
  "rtx_posted (settle_timer now f c) = rtx_posted c" "tx_frame c (settle_timer now f c)"
  by (simp_all add: settle_timer_def tx_frame_def)

lemma settle_timer_consistent:
  assumes "tms.consistent {} (\<lambda>g. rto_armed (flows c g)) (rto c)"
  shows "tms.consistent {} (\<lambda>g. rto_armed (flows (settle_timer now f c) g)) (rto (settle_timer now f c))"
proof (cases "unacked_chunks (flows c f) = []")
  case True
  have fl: "(\<lambda>g. rto_armed (flows (disarm_timer_for_flow f c) g)) = (\<lambda>g. rto_armed (flows c g))(f := False)" by auto
  have same: "\<not> rto_armed (flows c f) \<Longrightarrow> (\<lambda>g. rto_armed (flows c g))(f := False) = (\<lambda>g. rto_armed (flows c g))"
    by (intro fun_upd_idem) simp
  show ?thesis using tms.consistent_disarm [OF assms, of "flow_timer f"] assms same True
    unfolding settle_timer_def by (simp add: fl del: disarm_timer_for_flow_sel(3))
next
  case False
  then show ?thesis using rearm_rtx_frame [of f "{}" c now] assms by (simp add: settle_timer_def rtx_frame_def)
qed

lemma valid_ack_ok:
  assumes rel: "tx_rel f addrs others U M w req c" and A: "U < A" "A \<le> M" "M \<le> U + 127"
    and h: "sack_hdr f A M h"
  shows "\<exists>c'. rx_valid_ack env f h c = Some c' \<and>
    rexmits f addrs others A M w req c (upd_flow f (upd_pcb (store_sack h)) c')"
proof -
  note R = rel [unfolded tx_rel_def Let_def]
  have "tx_held f addrs others U M w req c" using R by (simp add: tx_held_def)
  then obtain c1 where c1: "ack_transmitted_chunks f (A - U) c = Some c1" "tx_held f addrs others A M w req c1" "tx_same f c c1"
    using ack_transmitted_ok [of f addrs others U M w req c "A - U"] A by auto
  define c2 where "c2 = c1\<lparr>engine_unacked_bytes := u32_sub (engine_unacked_bytes c1)
    (u32_sub (unacked_bytes (flows c f)) (unacked_bytes (flows c1 f)))\<rparr>"
  define c3 where "c3 = upd_flow f (upd_pcb (\<lambda>p. p\<lparr>snd_una := csn_of A, duplicate_acks := 0, snd_ooo_acks := 0,
    rto_rexmits_consectutive := 0\<rparr>)) c2"
  define c4 where "c4 = settle_timer (env_now (env 0)) f c3"
  have "EventOnRxACK f c = c" using R by (cases "cc_kind c") (simp_all add: EventOnRxACK_def tx_mode_def)
  moreover have "unat (csn_of A - csn_of U) = A - U" using A by (intro unat_csn_diff) auto
  ultimately have "rx_valid_ack env f h c = Some c4"
    using R h c1(1)
    by (simp add: rx_valid_ack_def sack_hdr_def Let_def c4_def settle_timer_def c3_def c2_def del: UINT_CSN_of_eq)
  moreover have "rexmits f addrs others A M w req c (upd_flow f (upd_pcb (store_sack h)) c4)"
  proof -
    define c5 where "c5 = upd_flow f (upd_pcb (store_sack h)) c4"
    have fr: "tx_frame c c5" using c1(3) by (simp add: c5_def c4_def c3_def c2_def tx_same_def tx_frame_def settle_timer_def)
    have flags3: "(\<lambda>g. rto_armed (flows c3 g)) = (\<lambda>g. rto_armed (flows c g))"
      using c1(3) by (auto simp: c3_def c2_def tx_same_def)
    have flags5: "(\<lambda>g. rto_armed (flows c5 g)) = (\<lambda>g. rto_armed (flows c4 g))" by (auto simp: c5_def)
    have "tms.consistent {} (\<lambda>g. rto_armed (flows c3 g)) (rto c3)"
      unfolding flags3 using R c1(3) by (simp add: tx_timer_def c3_def c2_def tx_same_def)
    from settle_timer_consistent [OF this, of "env_now (env 0)" f]
    have "tms.consistent {} (\<lambda>g. rto_armed (flows c5 g)) (rto c5)" unfolding flags5 by (simp add: c4_def c5_def)
    then have "tx_timer f c5" unfolding tx_timer_def by (rule conjI) (simp add: c5_def c4_def)
    moreover have "tx_mode c5" using R c1(3) fr
      by (simp add: tx_mode_def tx_frame_def c5_def c4_def c3_def c2_def tx_same_def)
    moreover have "sack_ok A M (pcb (flows c5 f))" using sack_hdr_store [OF h] by (simp add: c5_def)
    ultimately have "tx_rel f addrs others A M w req c5"
      using R c1(2,3) A unfolding tx_rel_def Let_def
      by (simp add: tx_held_def tx_same_def c5_def c4_def c3_def c2_def store_sack_def)
    then show ?thesis using c1(3) fr unfolding rexmits_def c5_def [symmetric]
      by (auto simp: c5_def c4_def c3_def c2_def tx_same_def intro: exI [of _ "[]"])
  qed
  ultimately show ?thesis by blast
qed

lemma uc_rx_ack_ok:
  assumes rel: "tx_rel f addrs others U M w req c" and h: "sack_hdr f A M h"
    and A: "A \<le> M" "M \<le> U + 127" "U < A + 128"
  shows "\<exists>c'. uc_rx_ack env h c = Some c' \<and> rexmits f addrs others (max U A) M w req c c'"
proof -
  have R: "snd_una (pcb (flows c f)) = csn_of U" "snd_nxt (pcb (flows c f)) = csn_of M" "U \<le> M"
    and H: "sh_fid h = f" "UINT_CSN_of (ucast (sh_ackno h)) = csn_of A"
    using rel h by (auto simp: tx_rel_def sack_hdr_def Let_def simp del: UINT_CSN_of_eq)
  have old: "seqno_lt (csn_of A) (csn_of U) \<longleftrightarrow> A < U" by (rule seqno_compare) (use A R(3) in auto)
  note ack = uc_rx_ack_def [of env h c, unfolded Let_def H R(1,2) old]
  consider "A < U" | "A = U" | "U < A" by linarith
  then show ?thesis
  proof cases
    case 1
    then show ?thesis using rexmits_none [OF rel rtx_frame_refl] by (simp add: ack)
  next
    case 2
    have new: "\<not> seqno_gt (csn_of A) (csn_of M)" using A R(3) 2 seqno_compare(5) [of A M] by auto
    obtain c1 where c1: "rx_duplicate_ack env f h c = Some c1" "rexmits f addrs others U M w req c c1"
      using duplicate_ack_ok [OF rel, of h env] h 2 by auto
    then have "tx_rel f addrs others U M w req (upd_flow f (upd_pcb (store_sack h)) c1)"
      using tx_rel_store h 2 by (simp add: rexmits_def)
    then have "rexmits f addrs others U M w req c (upd_flow f (upd_pcb (store_sack h)) c1)"
      using c1(2) by (simp add: rexmits_def tx_frame_def)
    then show ?thesis using 2 new c1(1) by (simp add: ack)
  next
    case 3
    have new: "\<not> seqno_gt (csn_of A) (csn_of M)" using A R(3) 3 seqno_compare(5) [of A M] by auto
    have "csn_of A \<noteq> csn_of U" using seqno_compare(3) [of A U] 3 A by auto
    then show ?thesis using 3 new valid_ack_ok [OF rel 3 A(1,2) h, of env] by (auto simp: ack)
  qed
qed

section \<open>Time-outs\<close>

lemma rtx_ready_cong: "flows c' f = flows c f \<Longrightarrow> rtx_ready f c' = rtx_ready f c"
  by (simp add: rtx_ready_def)

lemma rtx_list_cong: "flows c' f = flows c f \<Longrightarrow> wr_exs c' = wr_exs c \<Longrightarrow> rtx_list f c' = rtx_list f c"
  by (simp add: rtx_list_def rtx_of_def)

text \<open>
  A sender with several flows: the armed flags agree with the timers but for the flows \<open>X\<close> that have
  just expired, and every other flow with chunks outstanding has its timer armed.
\<close>

definition rto_ok :: "nat set \<Rightarrow> RDMAContext \<Rightarrow> bool" where
  "rto_ok X c \<longleftrightarrow> cc_kind c \<noteq> EQDSRDMAContext \<and> is_roce c \<and> (\<forall>f. rtx_ready f c) \<and>
     tms.consistent X (\<lambda>g. rto_armed (flows c g)) (rto c) \<and>
     (\<forall>f. f \<notin> X \<longrightarrow> unacked_chunks (flows c f) \<noteq> [] \<longrightarrow> rto_armed (flows c f))"

lemma rto_flow_step:
  assumes "rto_ok X c" "f \<in> X"
  obtains c' where "rto_retransmit_for_flow env f (mark_flow_timeout f c) = Some c'" "rto_ok (X - {f}) c'"
    "rtx_posted c' = rtx_posted c @ rtx_list f c" "\<And>g. g \<noteq> f \<Longrightarrow> flows c' g = flows c g" "wr_exs c' = wr_exs c"
    "data_posted c' = data_posted c" "ureqs c' = ureqs c" "rtx_frame (X - {f}) f (mark_flow_timeout f c) c'"
proof -
  define c1 where "c1 = mark_flow_timeout f c"
  have cons: "tms.consistent (X - {f}) (\<lambda>g. rto_armed (flows c1 g)) (rto c1)"
  proof -
    have "(\<lambda>g. rto_armed (flows c1 g)) = (\<lambda>g. rto_armed (flows c g))(f := False)" by (auto simp: c1_def)
    moreover have "f \<notin> dom (timers (rto c))" using assms unfolding rto_ok_def tms.consistent_def by blast
    ultimately show ?thesis using tms.consistent_mark [of X _ "rto c" f] assms(1) by (simp add: rto_ok_def c1_def)
  qed
  have "rtx_ready f c1" using assms(1) by (simp add: rto_ok_def rtx_ready_def c1_def)
  moreover have "rtx_list f c1 = rtx_list f c" by (simp add: c1_def rtx_list_def rtx_of_def)
  ultimately obtain c' where c': "retransmit_for_flow True env f c1 = Some c'" "rtx_frame (X - {f}) f c1 c'"
    "unacked_chunks (flows c1 f) \<noteq> [] \<longrightarrow> rto_armed (flows c' f)" "rtx_posted c' = rtx_posted c @ rtx_list f c"
    using retransmit_for_flow_ok [of c1 f "X - {f}" True env] assms(1) by (auto simp: rto_ok_def c1_def)
  note fr = c'(2) [unfolded rtx_frame_def tx_frame_def]
  have other: "flows c' g = flows c g" if "g \<noteq> f" for g using fr that by (simp add: c1_def)
  have ready: "rtx_ready g c'" for g
  proof (cases "g = f")
    case True
    then show ?thesis using fr \<open>rtx_ready f c1\<close> by (simp add: rtx_ready_def sack_ok_def)
  next
    case False
    then show ?thesis using rtx_ready_cong [OF other] assms(1) by (simp add: rto_ok_def)
  qed
  have armed: "rto_armed (flows c' g)" if "g \<notin> X - {f}" "unacked_chunks (flows c' g) \<noteq> []" for g
    using that c'(3) fr other [of g] assms(1) by (cases "g = f") (auto simp: rto_ok_def)
  have same: "cc_kind c' = cc_kind c" "is_roce c' = is_roce c" "wr_exs c' = wr_exs c" "data_posted c' = data_posted c" "ureqs c' = ureqs c"
    using fr by (simp_all add: c1_def)
  have "tms.consistent (X - {f}) (\<lambda>g. rto_armed (flows c' g)) (rto c')" using fr cons by blast
  then have ok: "rto_ok (X - {f}) c'" using assms(1) ready armed unfolding rto_ok_def same by blast
  have "rto_retransmit_for_flow env f (mark_flow_timeout f c) = Some c'"
    using c'(1) assms(1) by (simp add: rto_retransmit_for_flow_def rto_ok_def c1_def)
  then show thesis by (rule that [OF _ ok c'(4) other same(3-5) c'(2) [unfolded c1_def]])
qed

lemma rto_flows_ok:
  assumes "rto_ok (set (map td_flow ds)) c" "distinct (map td_flow ds)"
  shows "\<exists>c'. rto_flows envs ds c = Some c' \<and> rto_ok {} c' \<and> data_posted c' = data_posted c \<and> ureqs c' = ureqs c \<and>
    (\<forall>g. g \<notin> set (map td_flow ds) \<longrightarrow> flows c' g = flows c g) \<and> wr_exs c' = wr_exs c \<and>
    rtx_posted c' = rtx_posted c @ concat (map (\<lambda>d. rtx_list (td_flow d) c) ds)"
  using assms
proof (induction ds arbitrary: c)
  case (Cons d ds)
  let ?f = "td_flow d"
  obtain c1 where c1: "rto_retransmit_for_flow (envs ?f) ?f (mark_flow_timeout ?f c) = Some c1"
    "rto_ok (set (map td_flow (d # ds)) - {?f}) c1" "rtx_posted c1 = rtx_posted c @ rtx_list ?f c"
    "\<And>g. g \<noteq> ?f \<Longrightarrow> flows c1 g = flows c g" "wr_exs c1 = wr_exs c" "data_posted c1 = data_posted c" "ureqs c1 = ureqs c"
    using rto_flow_step [OF Cons.prems(1), of ?f "envs ?f"] by auto
  have "set (map td_flow (d # ds)) - {?f} = set (map td_flow ds)" using Cons.prems(2) by auto
  from Cons.IH [OF c1(2) [unfolded this]] Cons.prems(2) obtain c' where c': "rto_flows envs ds c1 = Some c'" "rto_ok {} c'"
    "data_posted c' = data_posted c1" "ureqs c' = ureqs c1" "\<forall>g. g \<notin> set (map td_flow ds) \<longrightarrow> flows c' g = flows c1 g"
    "wr_exs c' = wr_exs c1" "rtx_posted c' = rtx_posted c1 @ concat (map (\<lambda>d. rtx_list (td_flow d) c1) ds)" by auto
  have "map (\<lambda>d. rtx_list (td_flow d) c1) ds = map (\<lambda>d. rtx_list (td_flow d) c) ds"
  proof (intro map_cong refl rtx_list_cong c1(4,5))
    fix x assume "x \<in> set ds"
    then have "td_flow x \<in> td_flow ` set ds" by (rule imageI)
    then show "td_flow x \<noteq> ?f" using Cons.prems(2) by auto
  qed
  then show ?case using c1 c' by (auto simp del: map_eq_conv)
qed (use assms in auto)

lemma handle_rto_ok:
  assumes "rto_ok {} c"
  shows "\<exists>c'. handle_rto envs now c = Some c' \<and> rto_ok {} c' \<and> data_posted c' = data_posted c \<and> ureqs c' = ureqs c \<and>
    (\<forall>g. g \<notin> set (map td_flow (fst (check_expired now (rto c)))) \<longrightarrow> flows c' g = flows c g) \<and> wr_exs c' = wr_exs c \<and>
    rtx_posted c' = rtx_posted c @ concat (map (\<lambda>d. rtx_list (td_flow d) c) (fst (check_expired now (rto c))))"
proof -
  obtain ds tm where e: "check_expired now (rto c) = (ds, tm)" by (metis surj_pair)
  let ?c = "c\<lparr>rto := tm\<rparr>"
  have cons: "tms.consistent {} (\<lambda>g. rto_armed (flows c g)) (rto c)" using assms by (simp add: rto_ok_def)
  have "tm_ok (rto c)" using cons by (simp add: tms.consistent_def)
  then have dist: "distinct (map td_flow ds)" using tms.expired_ok [of "rto c" now] by (simp add: e)
  have "tms.consistent (set (map td_flow ds)) (\<lambda>g. rto_armed (flows ?c g)) (rto ?c)"
    using tms.consistent_expired [OF cons, of now] by (simp add: e)
  then have "rto_ok (set (map td_flow ds)) ?c" using assms by (simp add: rto_ok_def rtx_ready_def)
  from rto_flows_ok [OF this dist, of envs] have "\<exists>c'. rto_flows envs ds ?c = Some c' \<and> rto_ok {} c' \<and>
      data_posted c' = data_posted c \<and> ureqs c' = ureqs c \<and>
      (\<forall>g. g \<notin> set (map td_flow ds) \<longrightarrow> flows c' g = flows c g) \<and> wr_exs c' = wr_exs c \<and>
      rtx_posted c' = rtx_posted c @ concat (map (\<lambda>d. rtx_list (td_flow d) c) ds)"
    using rtx_list_cong [of ?c _ c] by simp
  then show ?thesis using assms by (simp add: handle_rto_def is_no_rto_def rto_ok_def e)
qed

section \<open>New contexts\<close>

lemma bp_all_less:
  assumes "b + n * s < 2 ^ 64" "a \<in> set (bp_all b n s)"
  shows "a < 2 ^ 64"
proof -
  obtain i where i: "i < n - 1" "a = b + i * s" using assms(2) by (auto simp: bp_all_def)
  then have "i * s \<le> n * s" by (intro mult_right_mono) simp_all
  then show ?thesis using i(2) assms(1) by linarith
qed

lemma pool_ok_new:
  assumes "base + kNumWr * kWrSize < 2 ^ 64"
  shows "pool_ok (bp_all base kNumWr kWrSize) {#} [] (BuffPool_new base kNumWr kWrSize)"
proof -
  have num: "kNumWr = 2 ^ 12" and sz: "0 < kWrSize" by (simp_all add: kNumWr_def kWrSize_def)
  note new = BuffPool_new_ok [OF num _ _ assms]
  have "length (bp_all base kNumWr kWrSize) + 1 = kNumWr" by (simp add: bp_all_def kNumWr_def)
  moreover have "base < 2 ^ 64" using assms by simp
  ultimately show ?thesis using new bp_all_distinct [OF sz] bp_all_less [OF assms] by (simp add: pool_ok_def)
qed

lemma sack_ok_new: "sack_ok 0 0 PCB_new"
  by (simp add: sack_ok_def PCB_new_def bitmap_consts numeral_2_eq_2 bitmap_ok_def bitmap_set_zero csn_of_def)

lemma consistent_new: "tms.consistent {} (\<lambda>g. False) (TimerManager_new t)"
  by (simp add: tms.consistent_def TimerManager_new_ok)

lemma tx_rel_new:
  assumes "cc \<noteq> EQDSRDMAContext" "base + kNumWr * kWrSize < 2 ^ 64"
  shows "tx_rel f (bp_all base kNumWr kWrSize) {#} 0 0 w req (RDMAContext_new cc False roce True chunk mtu t wh us base)"
    "roce \<Longrightarrow> rto_ok {} (RDMAContext_new cc False roce True chunk mtu t wh us base)"
proof -
  have fl: "rto_armed (SubUcclFlow_new g) = False" "unacked_chunks (SubUcclFlow_new g) = []" for g
    by (simp_all add: SubUcclFlow_new_def)
  have cons: "tms.consistent {} (\<lambda>g. rto_armed (SubUcclFlow_new g)) (TimerManager_new t)"
    unfolding fl by (rule consistent_new)
  show "tx_rel f (bp_all base kNumWr kWrSize) {#} 0 0 w req (RDMAContext_new cc False roce True chunk mtu t wh us base)"
    unfolding tx_rel_def Let_def tx_timer_def using assms(1) pool_ok_new [OF assms(2)] sack_ok_new cons
    by (simp add: RDMAContext_new_def tx_mode_def wr_ex_init_def fl tracked_def)
      (simp add: SubUcclFlow_new_def PCB_new_def csn_of_def u32_wrap_def)
  assume roce
  then show "rto_ok {} (RDMAContext_new cc False roce True chunk mtu t wh us base)"
    using assms(1) cons sack_ok_new unfolding rto_ok_def
    by (simp add: RDMAContext_new_def rtx_ready_def fl) (auto simp: SubUcclFlow_new_def)
qed

text \<open>A context in which flow \<open>f\<close> is the only one that sends.\<close>

definition only_sender :: "nat \<Rightarrow> RDMAContext \<Rightarrow> bool" where
  "only_sender f c \<longleftrightarrow> is_roce c \<and> (\<forall>g. g \<noteq> f \<longrightarrow> rtx_ready g c \<and> unacked_chunks (flows c g) = [] \<and> \<not> rto_armed (flows c g))"

lemma only_sender_rto_ok:
  assumes "tx_rel f addrs others U M w req c" "only_sender f c"
  shows "rto_ok {} c"
proof -
  have "rtx_ready g c" for g using tx_rel_ready [OF assms(1)] assms(2) by (cases "g = f") (auto simp: only_sender_def)
  moreover have "unacked_chunks (flows c g) \<noteq> [] \<longrightarrow> rto_armed (flows c g)" for g
    using assms by (cases "g = f") (auto simp: only_sender_def tx_rel_def Let_def tx_timer_def)
  ultimately show ?thesis using assms unfolding rto_ok_def by (auto simp: only_sender_def tx_rel_def Let_def tx_timer_def tx_mode_def)
qed

lemma only_sender_keep:
  assumes "only_sender f c" "tx_frame c c'" "\<And>g. g \<noteq> f \<Longrightarrow> flows c' g = flows c g"
  shows "only_sender f c'"
  using assms rtx_ready_cong [of c' _ c] by (simp add: only_sender_def tx_frame_def)

lemma only_sender_new: "only_sender f (RDMAContext_new cc False True True chunk mtu t wh us base)"
proof -
  have "rtx_ready g (RDMAContext_new cc False True True chunk mtu t wh us base)" for g
    using sack_ok_new by (auto simp: RDMAContext_new_def rtx_ready_def SubUcclFlow_new_def)
  then show ?thesis by (simp add: only_sender_def RDMAContext_new_def) (simp add: SubUcclFlow_new_def)
qed

lemma tx_message_ok:
  assumes "tx_rel f addrs others U M w req c" "sendable f addrs others U M r c" "ureq_type (ureqs c r) = ReqTx"
  shows "\<exists>b c' xs. tx_message env r c = Some (Some (b, c')) \<and> message_sent f addrs others U M w req r c b c' xs"
proof -
  have "tx_message env r c = senderCC_loop env (env_now (env 0)) 0 r c"
    using assms(2,3) by (simp add: tx_message_def sendable_def senderCC_tx_message_def)
  then show ?thesis using senderCC_loop_ok [OF assms(1,2), of env "env_now (env 0)" 0] by simp
qed

text \<open>A time-out of the only sender.\<close>

lemma tx_rel_rto:
  assumes rel: "tx_rel f addrs others U M w req c" and fr: "rtx_frame {} f c1 c'" and ok: "rto_ok {} c'"
    and c1: "flows c1 f = (flows c f)\<lparr>rto_armed := rto_armed (flows c1 f)\<rparr>" "wr_exs c1 = wr_exs c"
      "wr_ex_pool c1 = wr_ex_pool c" "tx_frame c c1"
  shows "tx_rel f addrs others U M w req c'"
proof -
  note F = fr [unfolded rtx_frame_def]
  have same: "fid (flows c1 f) = fid (flows c f)" "unacked_chunks (flows c1 f) = unacked_chunks (flows c f)"
    "unacked_bytes (flows c1 f) = unacked_bytes (flows c f)" "tx_done (flows c1 f) = tx_done (flows c f)"
    "pcb (flows c1 f) = pcb (flows c f)"
    by (subst c1(1), simp)+
  have "tx_timer f c'" using ok by (simp add: tx_timer_def rto_ok_def)
  moreover have "tx_mode c'" using rel F c1 by (auto simp: tx_rel_def Let_def tx_mode_def tx_frame_def)
  moreover have "sack_ok U M (pcb (flows c' f))" using rel F same by (simp add: tx_rel_def Let_def sack_ok_def)
  ultimately show ?thesis using rel F same c1(2,3) unfolding tx_rel_def Let_def by simp
qed

lemma rto_rexmits:
  assumes rel: "tx_rel f addrs others U M w req c" and only: "only_sender f c"
  shows "\<exists>c'. handle_rto envs now c = Some c' \<and> rexmits f addrs others U M w req c c'"
proof -
  obtain ds tm where e: "check_expired now (rto c) = (ds, tm)" by (metis surj_pair)
  note ok = only_sender_rto_ok [OF rel only]
  have cons: "tms.consistent {} (\<lambda>g. rto_armed (flows c g)) (rto c)" using ok by (simp add: rto_ok_def)
  then have "dom (timers (rto c)) \<subseteq> {f}" using only by (auto simp: only_sender_def tms.consistent_def)
  moreover have "tm_ok (rto c)" using cons by (simp add: tms.consistent_def)
  ultimately have ds: "set (map td_flow ds) \<subseteq> {f}" "distinct (map td_flow ds)"
    using tms.expired_ok [of "rto c" now] by (simp_all add: e) blast
  let ?c = "c\<lparr>rto := tm\<rparr>"
  have "tms.consistent (set (map td_flow ds)) (\<lambda>g. rto_armed (flows ?c g)) (rto ?c)"
    using tms.consistent_expired [OF cons, of now] by (simp add: e)
  then have okX: "rto_ok (set (map td_flow ds)) ?c" using ok by (simp add: rto_ok_def rtx_ready_def)
  have hr: "handle_rto envs now c = rto_flows envs ds ?c" using only by (simp add: handle_rto_def is_no_rto_def only_sender_def e)
  show ?thesis
  proof (cases ds)
    case Nil
    have "tx_rel f addrs others U M w req ?c"
      by (rule tx_rel_rto [OF rel rtx_frame_refl]) (use okX Nil in \<open>simp_all add: tx_frame_def\<close>)
    then have "rexmits f addrs others U M w req c ?c" by (auto simp: rexmits_def tx_frame_def intro: exI [of _ "[]"])
    then show ?thesis using hr Nil by simp
  next
    case (Cons d rest)
    then have d: "td_flow d = f" "rest = []" using ds by (cases rest; auto)+
    have X: "set (map td_flow ds) = {f}" using Cons d by simp
    obtain c' where c': "rto_retransmit_for_flow (envs f) f (mark_flow_timeout f ?c) = Some c'" "rto_ok ({f} - {f}) c'"
      "rtx_posted c' = rtx_posted ?c @ rtx_list f ?c" "\<And>g. g \<noteq> f \<Longrightarrow> flows c' g = flows ?c g" "wr_exs c' = wr_exs ?c"
      "data_posted c' = data_posted ?c" "ureqs c' = ureqs ?c" "rtx_frame ({f} - {f}) f (mark_flow_timeout f ?c) c'"
      using rto_flow_step [OF okX [unfolded X], of f "envs f"] by blast
    have fr: "rtx_frame {} f (mark_flow_timeout f ?c) c'" "rto_ok {} c'" using c'(2,8) by simp_all
    have "tx_rel f addrs others U M w req c'"
      by (rule tx_rel_rto [OF rel fr]) (simp_all add: tx_frame_def)
    moreover have "rtx_list f ?c = rtx_list f c" by (rule rtx_list_cong) simp_all
    moreover have "tx_frame c c'" using fr(1) by (simp add: rtx_frame_def tx_frame_def)
    ultimately have "rexmits f addrs others U M w req c c'" using c'(3-7) rtx_list_ns [OF rel] by (simp add: rexmits_def)
    then show ?thesis using hr Cons d c'(1) by simp
  qed
qed

section \<open>Properties\<close>

text \<open>A sender on RoCE with one message of 100000 bytes for flow 3.\<close>

definition tx_example :: RDMAContext where
  "tx_example = RDMAContext_new TimelyRDMAContext False True True 65536 4096 1000
     \<lparr>wslot_width_tsc = 1, horizon_tsc = 0, wheel = [], cur_wslot = 0, bkt_pool = cb_new 0 0, ready_entries = 0,
      ready_queue = []\<rparr>
     (\<lambda>_. \<lparr>ureq_type = ReqTx, ureq_flow = 3, data_len = 100000, inc_backlog = False, laddr = 4194304, raddr = 8388608,
           send_rid = 2, sent_offset = 0, acked_bytes = 0\<rparr>) 4096"

definition tx_pool :: "nat list" where
  "tx_pool = bp_all 4096 kNumWr kWrSize"

lemma tx_example_rel: "tx_rel 3 tx_pool {#} 0 0 w req tx_example" "only_sender 3 tx_example" "length tx_pool = 4095"
  unfolding tx_example_def tx_pool_def
  by (rule tx_rel_new(1), simp, simp add: kNumWr_def kWrSize_def, rule only_sender_new)
    (simp add: bp_all_def kNumWr_def)

lemma tx_example_sel:
  "cc_kind tx_example = TimelyRDMAContext" "chunk_size tx_example = 65536" "ureq_flow (ureqs tx_example r) = 3"
  "data_len (ureqs tx_example r) = 100000" "sent_offset (ureqs tx_example r) = 0" "ureq_type (ureqs tx_example r) = ReqTx"
  "send_rid (ureqs tx_example r) = 2" "rtx_posted tx_example = []" "data_posted tx_example = []"
  by (simp_all add: tx_example_def RDMAContext_new_def)

lemma tx_example_sendable: "sendable 3 tx_pool {#} 0 0 r tx_example"
  by (simp add: sendable_def chunks_left_def tx_example_sel tx_example_rel(3))

text \<open>The same sender with its first chunk of 65536 bytes outstanding.\<close>

lemma tx_example_sent:
  obtains c x where "tx_rel 3 tx_pool {#} 0 1 ((\<lambda>_. wr_ex_init)(0 := x)) (\<lambda>_. 0) c" "only_sender 3 c" "rtx_posted c = []"
    "wx_length x = 65536"
proof -
  let ?env = "\<lparr>env_now = 0, env_pot = 0, env_wnd = 0, env_sum_tsc = 0\<rparr>"
  obtain c x where c: "send_bypassing ?env 0 3 0 65536 tx_example = Some (Some c)" "next_wr 3 0 65536 0 tx_example x"
    "tx_rel 3 tx_pool {#} 0 (Suc 0) ((\<lambda>_. wr_ex_init)(0 := x)) ((\<lambda>_. 0)(0 := 0)) c"
    "rtx_posted c = rtx_posted tx_example" "tx_frame tx_example c" "\<And>g. g \<noteq> 3 \<Longrightarrow> flows c g = flows tx_example g"
    by (rule send_step [OF tx_example_rel(1) [where w = "\<lambda>_. wr_ex_init" and req = "\<lambda>_. 0"], where n = 65536
          and env = ?env and now = 0 and r = 0]) (use tx_example_rel(3) in auto)
  moreover have "(\<lambda>_. 0)(0 := 0) = (\<lambda>_ :: nat. 0 :: nat)" by auto
  ultimately show thesis
    using that only_sender_keep [OF tx_example_rel(2) c(5,6)] by (simp add: tx_example_sel next_wr_def)
qed



text \<open>
  C32: an acknowledgement releases exactly the chunks it covers. For a flow with chunks \<open>U\<close> to \<open>M\<close>
  outstanding (at most 127) and a header whose number stands for chunk \<open>A\<close> and whose bitmap names
  only chunks sent, the handler returns; afterwards exactly the chunks from the larger of \<open>U\<close> and \<open>A\<close>
  on are tracked, the senders woken so far are those of the last-chunks below it, in order, and
  only chunks still outstanding were retransmitted.
\<close>

theorem tx_ack_releases:
  assumes "tx_rel f addrs others U M w req c" "sack_hdr f A M h" "A \<le> M" "M \<le> U + 127" "U < A + 128"
  shows "\<exists>c'. uc_rx_ack env h c = Some c' \<and> tx_rel f addrs others (max U A) M w req c' \<and>
    length (unacked_chunks (flows c' f)) = M - max U A \<and>
    tx_done (flows c' f) = map req (filter (\<lambda>k. last_of (w k)) [0..<max U A]) \<and>
    (\<exists>ns. set ns \<subseteq> {max U A..<M} \<and> rtx_posted c' = rtx_posted c @ map (\<lambda>k. (wx_qpidx (w k), w k)) ns)"
proof -
  obtain c' where c': "uc_rx_ack env h c = Some c'" "rexmits f addrs others (max U A) M w req c c'"
    using uc_rx_ack_ok [OF assms] by blast
  then have rel: "tx_rel f addrs others (max U A) M w req c'" by (simp add: rexmits_def)
  then have "tracked (max U A) M w req (unacked_chunks (flows c' f)) (wr_exs c')"
    "tx_done (flows c' f) = map req (filter (\<lambda>k. last_of (w k)) [0..<max U A])"
    unfolding tx_rel_def Let_def by blast+
  then show ?thesis using c' rel tracked_length by (intro exI [of _ c']) (auto simp: rexmits_def)
qed

theorem tx_ack_releases_witness:
  "\<exists>c c' w. tx_rel 3 tx_pool {#} 0 1 w (\<lambda>_. 0) c \<and>
     uc_rx_ack (\<lambda>_ :: nat. \<lparr>env_now = 5, env_pot = 1, env_wnd = 0, env_sum_tsc = 0\<rparr>)
       \<lparr>sh_fid = 3, sh_path = 0, sh_ackno = 1, sh_sack_bitmap_count = 0, sh_remote_queueing = 0, sh_sack_bitmap = [0, 0]\<rparr> c = Some c' \<and>
     unacked_chunks (flows c' 3) = []"
proof -
  let ?h = "\<lparr>sh_fid = 3, sh_path = 0, sh_ackno = 1, sh_sack_bitmap_count = 0, sh_remote_queueing = 0, sh_sack_bitmap = [0, 0]\<rparr>"
  obtain c x where c: "tx_rel 3 tx_pool {#} 0 1 ((\<lambda>_. wr_ex_init)(0 := x)) (\<lambda>_. 0) c" using tx_example_sent by blast
  have "sack_hdr 3 1 1 ?h" by (simp add: sack_hdr_def bitmap_ok_def bitmap_set_zero csn_of_def)
  from tx_ack_releases [OF c this, where env = "\<lambda>_. \<lparr>env_now = 5, env_pot = 1, env_wnd = 0, env_sum_tsc = 0\<rparr>"]
  obtain c' where "uc_rx_ack (\<lambda>_. \<lparr>env_now = 5, env_pot = 1, env_wnd = 0, env_sum_tsc = 0\<rparr>) ?h c = Some c'"
    "unacked_chunks (flows c' 3) = []" by auto
  with c show ?thesis by blast
qed



end
