(* ===== verification/RdmaLink.thy ===== *)
theory RdmaLink
  imports RdmaRx RdmaTxAck
begin

text \<open>
  Sender and receiver of one flow joined by a network. The data queue pairs deliver in order but lose
  packets; a retransmission goes out on the queue pair of the original. Acknowledgements are lost,
  delayed and duplicated at will. The steps are the handlers of both sides; the step relation
  carries the unbounded numbers of the protocol as ghosts: \<open>U\<close> chunks are acknowledged at the
  sender, the receiver has delivered \<open>N\<close> in order, and the sender has posted \<open>length (data_posted cs)\<close>.

  The lemmas show that these numbers never cross, that each side's view of the other is true, and
  that no check of either side fails.
\<close>

section \<open>The headers of a receiver\<close>

definition hdrs :: "RDMAContext \<Rightarrow> UcclSackHdr list" where
  "hdrs c = acks_posted c @ concat (tx_ack_wrs c)"

lemma hdrs_ops [simp]:
  "hdrs (flush_acks c) = hdrs c" "hdrs (try_post_acks acks force c) = hdrs c @ acks"
  "hdrs (upd_flow f g c) = hdrs c" "hdrs (add_to_ack_list f c) = hdrs c" "hdrs (c\<lparr>ack_list := l\<rparr>) = hdrs c"
  by (simp_all add: hdrs_def flush_acks_def try_post_acks_def add_to_ack_list_def Let_def)

lemma hdrs_events [simp]: "hdrs (EventOnRxData f imm c) = hdrs c" "hdrs (EventOnRxRTXData f imm c) = hdrs c"
proof -
  show d: "hdrs (EventOnRxData f imm c) = hdrs c" for c
    by (auto simp: EventOnRxData_def hdrs_def Let_def split: cc_kind.split prod.split)
  show "hdrs (EventOnRxRTXData f imm c) = hdrs c" by (auto simp: EventOnRxRTXData_def d split: cc_kind.split)
qed

lemma fid_try_update [simp]: "fid (try_update_csn rc sf) = fid sf"
proof (induction rc sf rule: try_update_csn.induct)
  case (1 rc sf)
  have "fid (deliver_head rc req rest sf) = fid sf" for req rest
    by (simp add: deliver_head_def complete_req_def free_recvreq_def Let_def)
  then show ?case using 1 by (subst try_update_csn.simps) (auto split: list.split)
qed

lemma fid_events:
  "fid (flows (EventOnRxData f imm c) g) = fid (flows c g)" "fid (flows (EventOnRxRTXData f imm c) g) = fid (flows c g)"
proof -
  show d: "fid (flows (EventOnRxData f imm c) g) = fid (flows c g)" for c
    by (auto simp: EventOnRxData_def Let_def split: cc_kind.split prod.split)
  show "fid (flows (EventOnRxRTXData f imm c) g) = fid (flows c g)" by (auto simp: EventOnRxRTXData_def d split: cc_kind.split)
qed

lemma sack_bit_set_frame: "sack_bitmap_bit_set i p = Some p' \<Longrightarrow> p' = p\<lparr>sack_bitmap := sack_bitmap p', sack_bitmap_count := sack_bitmap_count p'\<rparr>"
  by (auto simp: sack_bitmap_bit_set_def split: if_splits)

text \<open>A header of flow \<open>g\<close> shows what the receiver of the flow knows.\<close>

definition shows_flow :: "SubUcclFlow \<Rightarrow> UcclSackHdr \<Rightarrow> bool" where
  "shows_flow sf h \<longleftrightarrow> sh_ackno h = ucast (to_uint32 (rcv_nxt (pcb sf))) \<and> sh_sack_bitmap h = sack_bitmap (pcb sf) \<and>
     sh_sack_bitmap_count h = ucast (sack_bitmap_count (pcb sf))"

lemma craft_ack_shows: "rx_view sf = rx_view sf' \<Longrightarrow> shows_flow sf' (craft_ack q sf)"
  by (simp add: shows_flow_def craft_ack_def ackno_def rx_view_def)

definition acks_true :: "RDMAContext \<Rightarrow> RDMAContext \<Rightarrow> bool" where
  "acks_true c c' \<longleftrightarrow> (\<exists>new. hdrs c' = hdrs c @ new \<and> (\<forall>h\<in>set new. shows_flow (flows c' (sh_fid h)) h)) \<and>
     (\<forall>g. fid (flows c' g) = fid (flows c g))"

lemma acks_true_none: "hdrs c' = hdrs c \<Longrightarrow> (\<And>g. fid (flows c' g) = fid (flows c g)) \<Longrightarrow> acks_true c c'"
  by (simp add: acks_true_def)

lemma acks_true_drop: "(\<And>s. fid (h s) = fid s) \<Longrightarrow> acks_true c (upd_flow f h c)"
  by (rule acks_true_none) simp_all

text \<open>The end of the data handler, once the flow is updated.\<close>

lemma acks_true_imm:
  assumes "fid sf = f" "fid (flows c f) = f"
  shows "acks_true c (EventOnRxData f imm
    (if need_imm_ack (rxtracking sf)
     then let c' = upd_flow f (\<lambda>s. s\<lparr>rxtracking := clear_imm_ack (rxtracking s)\<rparr>)
                (try_post_acks [craft_ack queueing sf] True (add_to_ack_list f (upd_flow f (\<lambda>_. sf) c)))
          in c'\<lparr>ack_list := remove1 f (ack_list c')\<rparr>
     else add_to_ack_list f (upd_flow f (\<lambda>_. sf) c)))"
proof (cases "need_imm_ack (rxtracking sf)")
  case True
  let ?c = "upd_flow f (\<lambda>s. s\<lparr>rxtracking := clear_imm_ack (rxtracking s)\<rparr>)
    (try_post_acks [craft_ack queueing sf] True (add_to_ack_list f (upd_flow f (\<lambda>_. sf) c)))"
  let ?c' = "EventOnRxData f imm (?c\<lparr>ack_list := remove1 f (ack_list ?c)\<rparr>)"
  have "hdrs ?c' = hdrs c @ [craft_ack queueing sf]" by simp
  moreover have "rx_view (flows ?c' f) = rx_view sf" by (simp add: EventOnRxData_frame)
  then have "shows_flow (flows ?c' (sh_fid (craft_ack queueing sf))) (craft_ack queueing sf)"
    using assms(1) by (intro craft_ack_shows) (simp add: craft_ack_def)
  moreover have "fid (flows ?c' g) = fid (flows c g)" for g using assms by (simp add: fid_events)
  ultimately show ?thesis unfolding acks_true_def Let_def if_P [OF True]
    by (intro conjI exI [of _ "[craft_ack queueing sf]"]) simp_all
next
  case False
  then show ?thesis using assms by (intro acks_true_none) (simp_all add: fid_events)
qed

lemma if_SomeE:
  assumes "(if P then Some a else e) = Some b" "P \<Longrightarrow> a = b \<Longrightarrow> Q" "e = Some b \<Longrightarrow> Q"
  shows Q
  using assms by (auto split: if_splits)

lemma if_NoneE:
  assumes "(if P then None else e) = Some b" "e = Some b \<Longrightarrow> Q"
  shows Q
  using assms by (auto split: if_splits)

lemma case_SomeE:
  assumes "(case x of None \<Rightarrow> None | Some p \<Rightarrow> Some (g p)) = Some b" "\<And>p. x = Some p \<Longrightarrow> g p = b \<Longrightarrow> Q"
  shows Q
  using assms by (auto split: option.splits)

lemma fid_rx_ops:
  "fid (add_received rid n sf) = fid sf" "fid (mark_ready csn req sf) = fid sf" "fid (upd_pcb h sf) = fid sf"
  by (simp_all add: add_received_def mark_ready_def)

lemma rx_handle_acks:
  assumes "rx_handle e c = Some c'" "\<And>g. fid (flows c g) = g"
  shows "acks_true c c'"
proof (cases e)
  case (DataChunk byte_len imm qpidx now queueing)
  then have r: "uc_rx_chunk byte_len imm qpidx now queueing c = Some c'" using assms(1) by simp
  show ?thesis using r unfolding uc_rx_chunk_def Let_def
    by (elim if_SomeE if_NoneE case_SomeE; hypsubst; intro acks_true_drop acks_true_imm [unfolded Let_def])
      (simp_all add: assms(2) fid_rx_ops)
next
  case (RtxChunk byte_len imm)
  then have "uc_rx_rtx_chunk byte_len imm c = Some c'" using assms(1) by simp
  then show ?thesis unfolding uc_rx_rtx_chunk_def Let_def
    by (elim if_SomeE if_NoneE case_SomeE; hypsubst; intro acks_true_none) (simp_all add: assms(2) fid_events fid_rx_ops)
next
  case (SupplyRx g)
  then show ?thesis using assms(1) by (auto simp: supply_rx_buff_def split: option.splits intro!: acks_true_none)
next
  case (PostAcks queueing)
  then have c': "c' = uc_post_acks queueing c" using assms(1) by simp
  let ?new = "map (\<lambda>f. craft_ack (queueing f) (flows c f)) (ack_list c)"
  have fl: "flows c' = flows c" "hdrs c' = hdrs c @ ?new" by (simp_all add: c' uc_post_acks_def Let_def)
  have "shows_flow (flows c' (sh_fid h)) h" if "h \<in> set ?new" for h
    using that assms(2) by (auto simp: fl craft_ack_def shows_flow_def ackno_def)
  then show ?thesis unfolding acks_true_def using fl by (intro conjI exI [of _ ?new]) simp_all
qed

section \<open>The link\<close>

text \<open>
  A packet is a chunk number with a flag for retransmissions. \<open>l_pkts\<close> holds the packets in the order
  they were posted and \<open>l_got\<close> the positions of those that arrived. \<open>l_tags\<close> gives for each header
  the receiver crafted the number of chunks it had delivered then.
\<close>

record Link =
  l_tx :: RDMAContext
  l_rx :: RDMAContext
  l_una :: nat
  l_nxt :: nat
  l_pkts :: "(bool \<times> nat) list"
  l_got :: "nat set"
  l_tags :: "nat list"

definition pkt_qp :: "RDMAContext \<Rightarrow> bool \<times> nat \<Rightarrow> nat" where
  "pkt_qp cs p = fst (data_posted cs ! snd p)"

definition pkt_event :: "RDMAContext \<Rightarrow> bool \<times> nat \<Rightarrow> u16 \<Rightarrow> nat \<Rightarrow> nat \<Rightarrow> rx_event" where
  "pkt_event cs p qpidx now queueing =
     (let x = snd (data_posted cs ! snd p)
      in if fst p then RtxChunk (wx_length x + retr_chunk_hdr_size) (wx_imm x)
         else DataChunk (wx_length x) (wx_imm x) qpidx now queueing)"

text \<open>A queue pair delivers in the order of posting; what is passed over is lost.\<close>

definition may_arrive :: "Link \<Rightarrow> nat \<Rightarrow> bool" where
  "may_arrive l i \<longleftrightarrow> i < length (l_pkts l) \<and> i \<notin> l_got l \<and>
     (\<forall>j\<in>l_got l. pkt_qp (l_tx l) (l_pkts l ! j) = pkt_qp (l_tx l) (l_pkts l ! i) \<longrightarrow> j < i)"

text \<open>
  What 8-bit sequence numbers need: a retransmission arrives before the receiver is 128 chunks
  further, and an acknowledgement before the sender is.
\<close>

definition fresh_pkt :: "Link \<Rightarrow> nat \<Rightarrow> bool" where
  "fresh_pkt l i \<longleftrightarrow> (fst (l_pkts l ! i) \<longrightarrow> l_nxt l \<le> snd (l_pkts l ! i) + 128)"

definition rx_step :: "Link \<Rightarrow> nat \<Rightarrow> RDMAContext \<Rightarrow> Link" where
  "rx_step l f cr = (let n = l_nxt l + unat (rcv_nxt (pcb (flows cr f)) - rcv_nxt (pcb (flows (l_rx l) f)))
     in l\<lparr>l_rx := cr, l_nxt := n, l_tags := l_tags l @ replicate (length (hdrs cr) - length (hdrs (l_rx l))) n\<rparr>)"

inductive link_reach :: "nat \<Rightarrow> Link \<Rightarrow> bool" for f where
  link_start: "f < 2048 \<Longrightarrow> 0 < chunk \<Longrightarrow> base + kNumWr * kWrSize < 2 ^ 64 \<Longrightarrow> link_reach f
     \<lparr>l_tx = RDMAContext_new TimelyRDMAContext False True True chunk mtu t wh us base,
      l_rx = RDMAContext_new TimelyRDMAContext False True True chunk mtu t' wh' us' base',
      l_una = 0, l_nxt = 0, l_pkts = [], l_got = {}, l_tags = []\<rparr>"
| link_request: "link_reach f l \<Longrightarrow> link_reach f (l\<lparr>l_tx := (l_tx l)\<lparr>ureqs := us\<rparr>\<rparr>)"
| link_send: "link_reach f l \<Longrightarrow> u = ureqs (l_tx l) r \<Longrightarrow> ureq_type u = ReqTx \<Longrightarrow> ureq_flow u = f \<Longrightarrow> send_rid u < 16 \<Longrightarrow>
     0 < data_len u \<Longrightarrow> data_len u < 2 ^ 32 \<Longrightarrow> sent_offset u \<le> data_len u \<Longrightarrow> chunks_left r (l_tx l) \<le> 3968 \<Longrightarrow>
     tx_message env r (l_tx l) = Some (Some (b, cs)) \<Longrightarrow> length (data_posted cs) \<le> l_una l + 127 \<Longrightarrow>
     link_reach f (l\<lparr>l_tx := cs,
       l_pkts := l_pkts l @ map (Pair False) [length (data_posted (l_tx l))..<length (data_posted cs)]\<rparr>)"
| link_deliver: "link_reach f l \<Longrightarrow> may_arrive l i \<Longrightarrow> fresh_pkt l i \<Longrightarrow>
     rx_handle (pkt_event (l_tx l) (l_pkts l ! i) qpidx now queueing) (l_rx l) = Some cr \<Longrightarrow>
     link_reach f ((rx_step l f cr)\<lparr>l_got := insert i (l_got l)\<rparr>)"
| link_receiver: "link_reach f l \<Longrightarrow> rx_imm e = None \<Longrightarrow> rx_handle e (l_rx l) = Some cr \<Longrightarrow> link_reach f (rx_step l f cr)"
| link_ack: "link_reach f l \<Longrightarrow> j < length (acks_posted (l_rx l)) \<Longrightarrow> h = acks_posted (l_rx l) ! j \<Longrightarrow> sh_fid h = f \<Longrightarrow>
     l_una l < l_tags l ! j + 128 \<Longrightarrow> uc_rx_ack env h (l_tx l) = Some cs \<Longrightarrow>
     U = l_una l + unat (snd_una (pcb (flows cs f)) - snd_una (pcb (flows (l_tx l) f))) \<Longrightarrow>
     set ns \<subseteq> {U..<length (data_posted (l_tx l))} \<Longrightarrow>
     rtx_posted cs = rtx_posted (l_tx l) @ map (\<lambda>k. data_posted (l_tx l) ! k) ns \<Longrightarrow>
     link_reach f (l\<lparr>l_tx := cs, l_una := U, l_pkts := l_pkts l @ map (Pair True) ns\<rparr>)"
| link_rto: "link_reach f l \<Longrightarrow> handle_rto envs now (l_tx l) = Some cs \<Longrightarrow>
     set ns \<subseteq> {l_una l..<length (data_posted (l_tx l))} \<Longrightarrow>
     rtx_posted cs = rtx_posted (l_tx l) @ map (\<lambda>k. data_posted (l_tx l) ! k) ns \<Longrightarrow>
     link_reach f (l\<lparr>l_tx := cs, l_pkts := l_pkts l @ map (Pair True) ns\<rparr>)"

section \<open>The invariant\<close>

text \<open>The data packet of a chunk comes before its retransmissions.\<close>

definition pkts_ok :: "nat \<Rightarrow> (bool \<times> nat) list \<Rightarrow> bool" where
  "pkts_ok M ps \<longleftrightarrow> (\<forall>i<length ps. snd (ps ! i) < M) \<and>
     (\<forall>i<length ps. \<forall>j<length ps. \<not> fst (ps ! i) \<longrightarrow> snd (ps ! j) = snd (ps ! i) \<longrightarrow> i \<le> j)"

definition tag_ok :: "nat \<Rightarrow> nat set \<Rightarrow> nat \<Rightarrow> UcclSackHdr \<Rightarrow> bool" where
  "tag_ok N R A h \<longleftrightarrow> A \<le> N \<and> UINT_CSN_of (ucast (sh_ackno h)) = csn_of A \<and> bitmap_ok (sh_sack_bitmap h) \<and>
     (\<lambda>i. A + i) ` bitmap_set (sh_sack_bitmap h) \<subseteq> R \<and>
     unat (sh_sack_bitmap_count h) = card (bitmap_set (sh_sack_bitmap h))"

definition chunks_ok :: "nat \<Rightarrow> (nat \<Rightarrow> wr_ex) \<Rightarrow> (nat \<times> wr_ex) list \<Rightarrow> bool" where
  "chunks_ok f w ps \<longleftrightarrow> (\<forall>k<length ps. ps ! k = (wx_qpidx (w k), w k) \<and> unat (GetFID (wx_imm (w k))) = f \<and>
     UINT_CSN_of (GetCSN (wx_imm (w k))) = csn_of k)"

definition link_inv ::
  "nat \<Rightarrow> nat list \<Rightarrow> (nat \<Rightarrow> wr_ex) \<Rightarrow> (nat \<Rightarrow> nat) \<Rightarrow> nat set \<Rightarrow> (nat \<Rightarrow> nat) \<Rightarrow> Link \<Rightarrow> bool" where
  "link_inv f addrs w req R ptr l \<longleftrightarrow>
     (let cs = l_tx l; cr = l_rx l; U = l_una l; N = l_nxt l; M = length (data_posted cs)
      in length addrs = 4095 \<and> f < 2048 \<and> tx_rel f addrs {#} U M w req cs \<and> only_sender f cs \<and> cc_kind cs = TimelyRDMAContext \<and>
         0 < chunk_size cs \<and> M \<le> U + 127 \<and> chunks_ok f w (data_posted cs) \<and>
         rx_rel N R ptr (flows cr f) \<and> \<not> rc_mode cr \<and> (\<forall>g. fid (flows cr g) = g) \<and>
         U \<le> N \<and> R \<subseteq> {..<M} \<and> (\<forall>k\<in>R. ptr k = imm_ptr (wx_imm (w k))) \<and>
         pkts_ok M (l_pkts l) \<and> l_got l \<subseteq> {..<length (l_pkts l)} \<and> R \<subseteq> (\<lambda>i. snd (l_pkts l ! i)) ` l_got l \<and>
         length (l_tags l) = length (hdrs cr) \<and>
         (\<forall>j<length (hdrs cr). sh_fid (hdrs cr ! j) = f \<longrightarrow> tag_ok N R (l_tags l ! j) (hdrs cr ! j)))"

section \<open>Steps of the sender\<close>

lemma pkts_ok_data:
  assumes "pkts_ok M ps" "M \<le> M'"
  shows "pkts_ok M' (ps @ map (Pair False) [M..<M'])"
proof -
  have old: "snd (ps ! i) < M" if "i < length ps" for i using assms(1) that by (simp add: pkts_ok_def)
  let ?ps = "ps @ map (Pair False) [M..<M']"
  have new: "snd (?ps ! i) = M + (i - length ps)" if "length ps \<le> i" "i < length ?ps" for i
    using that by (simp add: nth_append)
  have "snd (?ps ! i) < M'" if "i < length ?ps" for i
    using that old [of i] new [of i] assms(2) by (cases "i < length ps") (auto simp: nth_append)
  moreover have "i \<le> j" if ij: "i < length ?ps" "j < length ?ps" "\<not> fst (?ps ! i)" "snd (?ps ! j) = snd (?ps ! i)" for i j
  proof (cases "j < length ps")
    case True
    show ?thesis
    proof (cases "i < length ps")
      case i: True
      then show ?thesis using ij True assms(1) by (auto simp: pkts_ok_def nth_append)
    next
      case i: False
      then show ?thesis using ij True old [OF True] new [of i] by (simp add: nth_append)
    qed
  next
    case False
    then show ?thesis using ij new [of j] new [of i] by (cases "i < length ps") auto
  qed
  ultimately show ?thesis unfolding pkts_ok_def by blast
qed

lemma pkts_ok_rtx:
  assumes "pkts_ok M ps" "set ns \<subseteq> {..<M}"
  shows "pkts_ok M (ps @ map (Pair True) ns)"
proof -
  let ?ps = "ps @ map (Pair True) ns"
  have "snd (?ps ! i) < M" if i: "i < length ?ps" for i
  proof (cases "i < length ps")
    case False
    then have "?ps ! i = (True, ns ! (i - length ps))" "ns ! (i - length ps) \<in> set ns"
      using i by (auto simp: nth_append)
    then show ?thesis using assms(2) by auto
  qed (use assms(1) in \<open>simp add: pkts_ok_def nth_append\<close>)
  moreover have "i \<le> j" if ij: "i < length ?ps" "j < length ?ps" "\<not> fst (?ps ! i)" "snd (?ps ! j) = snd (?ps ! i)" for i j
  proof -
    have "i < length ps" using ij(1,3) by (auto simp: nth_append split: if_splits)
    then show ?thesis using ij assms(1) by (cases "j < length ps") (auto simp: pkts_ok_def nth_append)
  qed
  ultimately show ?thesis unfolding pkts_ok_def by blast
qed

text \<open>A step of the sender that posts only retransmissions.\<close>

lemma link_inv_rexmits:
  assumes inv: "link_inv f addrs w req R ptr l"
    and re: "rexmits f addrs {#} U (length (data_posted (l_tx l))) w req (l_tx l) cs" and U: "l_una l \<le> U" "U \<le> l_nxt l"
    and ns: "set ns \<subseteq> {..<length (data_posted (l_tx l))}"
  shows "link_inv f addrs w req R ptr (l\<lparr>l_tx := cs, l_una := U, l_pkts := l_pkts l @ map (Pair True) ns\<rparr>)"
proof -
  note I = inv [unfolded link_inv_def Let_def]
  have fr: "data_posted cs = data_posted (l_tx l)" "tx_frame (l_tx l) cs" "\<And>g. g \<noteq> f \<Longrightarrow> flows cs g = flows (l_tx l) g"
    using re by (auto simp: rexmits_def)
  have "only_sender f cs" using I only_sender_keep [OF _ fr(2,3)] by blast
  moreover have "(\<lambda>i. snd ((l_pkts l @ map (Pair True) ns) ! i)) ` l_got l = (\<lambda>i. snd (l_pkts l ! i)) ` l_got l"
    using I by (intro image_cong refl) (auto simp: nth_append)
  moreover have "l_got l \<subseteq> {..<length (l_pkts l @ map (Pair True) ns)}" using I by auto
  ultimately show ?thesis using I U re fr pkts_ok_rtx [OF _ ns, of "l_pkts l"]
    unfolding link_inv_def Let_def by (simp add: rexmits_def tx_frame_def)
qed

lemma tx_rel_ureqs: "tx_rel f addrs others U M w req (c\<lparr>ureqs := us\<rparr>) = tx_rel f addrs others U M w req c"
  by (simp add: tx_rel_def Let_def tx_mode_def tx_timer_def)

lemma link_inv_request:
  assumes "link_inv f addrs w req R ptr l"
  shows "link_inv f addrs w req R ptr (l\<lparr>l_tx := (l_tx l)\<lparr>ureqs := us\<rparr>\<rparr>)"
proof -
  have "only_sender f ((l_tx l)\<lparr>ureqs := us\<rparr>)"
    by (rule only_sender_keep [of f "l_tx l"]) (use assms in \<open>simp_all add: link_inv_def Let_def tx_frame_def\<close>)
  then show ?thesis using assms by (simp add: link_inv_def Let_def tx_rel_ureqs)
qed

lemma msg_posts_nth:
  assumes "msg_posts f u off M xs" "i < length xs" "f < 2048"
  shows "unat (GetFID (wx_imm (xs ! i))) = f \<and> UINT_CSN_of (GetCSN (wx_imm (xs ! i))) = csn_of (M + i)"
  using assms
proof (induction xs arbitrary: off M i)
  case (Cons x xs)
  have "unat (of_nat f :: u32) = f" using Cons.prems(3) by (simp add: unat_of_nat)
  then have "unat (of_nat f AND mask 11 :: u32) = f" using Cons.prems(3) by (simp only: unat_mask) simp
  then show ?case using Cons
    by (cases i) (auto simp: imm_of_chunk_fields simp del: UINT_CSN_of_eq csn_of_Suc)
qed simp

lemma link_inv_send:
  assumes inv: "link_inv f addrs w req R ptr l" and snd: "tx_message env r (l_tx l) = Some (Some (b, cs))"
    and u: "ureq_type (ureqs (l_tx l) r) = ReqTx" "ureq_flow (ureqs (l_tx l) r) = f" "0 < data_len (ureqs (l_tx l) r)"
      "data_len (ureqs (l_tx l) r) < 2 ^ 32" "sent_offset (ureqs (l_tx l) r) \<le> data_len (ureqs (l_tx l) r)"
      "chunks_left r (l_tx l) \<le> 3968"
    and win: "length (data_posted cs) \<le> l_una l + 127"
  shows "\<exists>w' req'. link_inv f addrs w' req' R ptr
    (l\<lparr>l_tx := cs, l_pkts := l_pkts l @ map (Pair False) [length (data_posted (l_tx l))..<length (data_posted cs)]\<rparr>)"
proof -
  note I = inv [unfolded link_inv_def Let_def]
  define M where "M = length (data_posted (l_tx l))"
  have rel: "tx_rel f addrs {#} (l_una l) M w req (l_tx l)" and f: "f < 2048" using I by (simp_all add: M_def)
  have "M \<le> l_una l + 127" using I by (simp add: M_def)
  then have "M - l_una l + chunks_left r (l_tx l) \<le> 4095" using u(6) by linarith
  then have "sendable f addrs {#} (l_una l) M r (l_tx l)" using I u by (simp add: sendable_def)
  then obtain xs where m: "message_sent f addrs {#} (l_una l) M w req r (l_tx l) b cs xs"
    using tx_message_ok [OF rel _ u(1), of env] snd by auto
  then obtain w' req' where w': "tx_rel f addrs {#} (l_una l) (M + length xs) w' req' cs"
    "\<And>k. k < M \<Longrightarrow> w' k = w k" "\<And>i. i < length xs \<Longrightarrow> w' (M + i) = xs ! i"
    unfolding message_sent_def by blast
  have post: "data_posted cs = data_posted (l_tx l) @ map (\<lambda>x. (wx_qpidx x, x)) xs" and fr: "tx_frame (l_tx l) cs"
    and other: "\<And>g. g \<noteq> f \<Longrightarrow> flows cs g = flows (l_tx l) g"
    and mp: "msg_posts f (ureqs (l_tx l) r) (sent_offset (ureqs (l_tx l) r)) M xs"
    using m by (simp_all add: message_sent_def)
  have M': "length (data_posted cs) = M + length xs" by (simp add: post M_def)
  have ck: "chunks_ok f w' (data_posted cs)" unfolding chunks_ok_def
  proof (intro allI impI)
    fix k assume k: "k < length (data_posted cs)"
    show "data_posted cs ! k = (wx_qpidx (w' k), w' k) \<and> unat (GetFID (wx_imm (w' k))) = f \<and>
        UINT_CSN_of (GetCSN (wx_imm (w' k))) = csn_of k"
    proof (cases "k < M")
      case True
      then show ?thesis using I w'(2) by (simp add: chunks_ok_def post nth_append M_def)
    next
      case False
      then have i: "k - M < length xs" "M + (k - M) = k" using k M' by auto
      then show ?thesis using msg_posts_nth [OF mp i(1) f] w'(3) [OF i(1)] False
        by (simp add: post nth_append M_def del: UINT_CSN_of_eq)
    qed
  qed
  have got: "(\<lambda>i. snd ((l_pkts l @ map (Pair False) [M..<M + length xs]) ! i)) ` l_got l = (\<lambda>i. snd (l_pkts l ! i)) ` l_got l"
    using I by (intro image_cong refl) (auto simp: nth_append)
  have "\<forall>k\<in>R. ptr k = imm_ptr (wx_imm (w' k))" "R \<subseteq> {..<M + length xs}" using I w'(2) by (auto simp: M_def)
  moreover have "pkts_ok (M + length xs) (l_pkts l @ map (Pair False) [M..<M + length xs])"
    using I by (intro pkts_ok_data) (simp_all add: M_def)
  moreover have "only_sender f cs" using I only_sender_keep [OF _ fr other] by blast
  moreover have "l_got l \<subseteq> {..<length (l_pkts l @ map (Pair False) [M..<M + length xs])}" using I by auto
  ultimately have "link_inv f addrs w' req' R ptr (l\<lparr>l_tx := cs, l_pkts := l_pkts l @ map (Pair False) [M..<M + length xs]\<rparr>)"
    using I w'(1) ck win fr got unfolding link_inv_def Let_def by (simp add: tx_frame_def M')
  then show ?thesis unfolding M' M_def [symmetric] by blast
qed

lemma link_inv_bounds:
  assumes "link_inv f addrs w req R ptr l"
  shows "{..<l_nxt l} \<subseteq> R" "R \<subseteq> {..<length (data_posted (l_tx l))}" "l_una l \<le> l_nxt l"
    "l_nxt l \<le> length (data_posted (l_tx l))" "length (data_posted (l_tx l)) \<le> l_una l + 127"
proof -
  show 1: "{..<l_nxt l} \<subseteq> R" and 2: "R \<subseteq> {..<length (data_posted (l_tx l))}" and "l_una l \<le> l_nxt l"
    and "length (data_posted (l_tx l)) \<le> l_una l + 127"
    using assms by (simp_all add: link_inv_def Let_def rx_rel_def rx_pre_def)
  show "l_nxt l \<le> length (data_posted (l_tx l))" using order_trans [OF 1 2] by simp
qed

text \<open>The header of an acknowledgement that the sender handles tells the truth.\<close>

lemma link_hdr:
  assumes inv: "link_inv f addrs w req R ptr l" and j: "j < length (acks_posted (l_rx l))" "sh_fid (acks_posted (l_rx l) ! j) = f"
  shows "sack_hdr f (l_tags l ! j) (length (data_posted (l_tx l))) (acks_posted (l_rx l) ! j) \<and> l_tags l ! j \<le> l_nxt l \<and>
    l_nxt l \<le> length (data_posted (l_tx l))"
proof -
  note I = inv [unfolded link_inv_def Let_def]
  have "hdrs (l_rx l) ! j = acks_posted (l_rx l) ! j" "j < length (hdrs (l_rx l))" using j(1) by (auto simp: hdrs_def nth_append)
  then have t: "tag_ok (l_nxt l) R (l_tags l ! j) (acks_posted (l_rx l) ! j)" using I j(2) by metis
  then have "bitmap_set (sh_sack_bitmap (acks_posted (l_rx l) ! j)) \<subseteq> {i. l_tags l ! j + i < length (data_posted (l_tx l))}"
    using link_inv_bounds(2) [OF inv] by (auto simp: tag_ok_def)
  then show ?thesis using t j(2) link_inv_bounds(4) [OF inv] by (simp add: sack_hdr_def tag_ok_def del: UINT_CSN_of_eq)
qed

lemma link_ack_ok:
  assumes inv: "link_inv f addrs w req R ptr l" and j: "j < length (acks_posted (l_rx l))" "sh_fid (acks_posted (l_rx l) ! j) = f"
    and fresh: "l_una l < l_tags l ! j + 128"
  obtains cs where "uc_rx_ack env (acks_posted (l_rx l) ! j) (l_tx l) = Some cs"
    "rexmits f addrs {#} (max (l_una l) (l_tags l ! j)) (length (data_posted (l_tx l))) w req (l_tx l) cs"
    "l_una l + unat (snd_una (pcb (flows cs f)) - snd_una (pcb (flows (l_tx l) f))) = max (l_una l) (l_tags l ! j)"
proof -
  note I = inv [unfolded link_inv_def Let_def]
  define M where "M = length (data_posted (l_tx l))"
  define A where "A = l_tags l ! j"
  note h = link_hdr [OF inv j, folded M_def A_def]
  have rel: "tx_rel f addrs {#} (l_una l) M w req (l_tx l)" and M: "M \<le> l_una l + 127" using I by (simp_all add: M_def)
  obtain cs where cs: "uc_rx_ack env (acks_posted (l_rx l) ! j) (l_tx l) = Some cs"
    "rexmits f addrs {#} (max (l_una l) A) M w req (l_tx l) cs"
    using uc_rx_ack_ok [OF rel, of A] h M fresh by (auto simp: A_def)
  have "snd_una (pcb (flows cs f)) = csn_of (max (l_una l) A)" "snd_una (pcb (flows (l_tx l) f)) = csn_of (l_una l)"
    using cs(2) rel by (auto simp: rexmits_def tx_rel_def Let_def)
  moreover have "unat (csn_of (max (l_una l) A) - csn_of (l_una l)) = max (l_una l) A - l_una l"
    using h M by (intro unat_csn_diff) auto
  ultimately show thesis using that cs unfolding A_def M_def by simp
qed

section \<open>Steps of the receiver\<close>

lemma tag_ok_mono: "tag_ok N R A h \<Longrightarrow> N \<le> N' \<Longrightarrow> R \<subseteq> R' \<Longrightarrow> tag_ok N' R' A h"
  by (auto simp: tag_ok_def)

lemma tag_ok_new:
  assumes rel: "rx_rel N R ptr sf" and h: "shows_flow sf h"
  shows "tag_ok N R N h"
proof -
  note P = rel [unfolded rx_rel_def rx_pre_def]
  have b: "bitmap_ok (sack_bitmap (pcb sf))" "bitmap_set (sack_bitmap (pcb sf)) = {i. N + i \<in> R}" using P by auto
  have "R \<subseteq> {..<N + 128}" using P by simp
  then have "{i. N + i \<in> R} \<subseteq> {..<128}" by auto
  then have "card {i. N + i \<in> R} \<le> 128" by (metis card_lessThan card_mono finite_lessThan)
  then have "unat (ucast (of_nat (card {i. N + i \<in> R}) :: u8) :: u16) = card {i. N + i \<in> R}"
    by (simp add: unsigned_ucast_eq take_bit_nat_eq_self unat_of_nat)
  then have "unat (sh_sack_bitmap_count h) = card (bitmap_set (sh_sack_bitmap h))" using h P by (simp add: shows_flow_def)
  moreover have "ucast (ucast (ucast (ucast (x :: u8) :: u32) :: u16) :: u32) = x" for x
    by (rule bit_word_eqI) (auto simp: bit_simps)
  then have "UINT_CSN_of (ucast (sh_ackno h)) = csn_of N" using h P by (simp add: shows_flow_def to_uint32_def)
  ultimately show ?thesis using h b by (auto simp: tag_ok_def shows_flow_def)
qed

lemma link_inv_rx:
  assumes inv: "link_inv f addrs w req R ptr l" and rx: "rx_handle e (l_rx l) = Some cr" "\<not> rc_mode cr"
    and rel: "rx_rel N' R' ptr' (flows cr f)" "l_nxt l \<le> N'" "N' \<le> l_nxt l + 128"
    and R': "R \<subseteq> R'" "R' \<subseteq> {..<length (data_posted (l_tx l))}" "\<forall>k\<in>R'. ptr' k = imm_ptr (wx_imm (w k))"
    and G: "R' \<subseteq> (\<lambda>i. snd (l_pkts l ! i)) ` G" "G \<subseteq> {..<length (l_pkts l)}"
  shows "link_inv f addrs w req R' ptr' ((rx_step l f cr)\<lparr>l_got := G\<rparr>)"
proof -
  note I = inv [unfolded link_inv_def Let_def]
  have fid: "\<And>g. fid (flows (l_rx l) g) = g" using I by blast
  obtain new where new: "hdrs cr = hdrs (l_rx l) @ new" "\<And>h. h \<in> set new \<Longrightarrow> shows_flow (flows cr (sh_fid h)) h"
    and fid': "\<And>g. fid (flows cr g) = g"
    using rx_handle_acks [OF rx(1) fid] fid unfolding acks_true_def by auto
  have "rcv_nxt (pcb (flows cr f)) = csn_of N'" "rcv_nxt (pcb (flows (l_rx l) f)) = csn_of (l_nxt l)"
    using rel(1) I by (simp_all add: rx_rel_def rx_pre_def)
  moreover have "unat (csn_of N' - csn_of (l_nxt l)) = N' - l_nxt l" using rel(2,3) by (intro unat_csn_diff) auto
  ultimately have st: "rx_step l f cr = l\<lparr>l_rx := cr, l_nxt := N', l_tags := l_tags l @ replicate (length new) N'\<rparr>"
    using rel(2) by (simp add: rx_step_def new(1))
  have len: "length (l_tags l) = length (hdrs (l_rx l))" using I by blast
  have tags: "tag_ok N' R' ((l_tags l @ replicate (length new) N') ! j) (hdrs cr ! j)"
    if j: "j < length (hdrs cr)" "sh_fid (hdrs cr ! j) = f" for j
  proof (cases "j < length (hdrs (l_rx l))")
    case True
    then have "tag_ok (l_nxt l) R (l_tags l ! j) (hdrs (l_rx l) ! j)" using I j(2) by (simp add: new(1) nth_append)
    from tag_ok_mono [OF this rel(2) R'(1)] show ?thesis using True len by (simp add: new(1) nth_append)
  next
    case False
    then have "hdrs cr ! j \<in> set new" using j(1) by (simp add: new(1) nth_append)
    then have "tag_ok N' R' N' (hdrs cr ! j)" using tag_ok_new [OF rel(1)] new(2) j(2) by blast
    then show ?thesis using False j(1) len by (simp add: new(1) nth_append)
  qed
  show ?thesis using I rel rx(2) R' G tags fid' len unfolding st link_inv_def Let_def by (simp add: new(1))
qed

text \<open>A data chunk that arrives was not accepted before.\<close>

lemma link_arrival:
  assumes inv: "link_inv f addrs w req R ptr l" and arr: "may_arrive l i" "fresh_pkt l i" and k: "k = snd (l_pkts l ! i)"
  shows "k < length (data_posted (l_tx l))" "k < l_nxt l + 128" "l_nxt l \<le> k + 128" "\<not> fst (l_pkts l ! i) \<Longrightarrow> k \<notin> R"
proof -
  note I = inv [unfolded link_inv_def Let_def] and B = link_inv_bounds [OF inv]
  have pk: "pkts_ok (length (data_posted (l_tx l))) (l_pkts l)" and i: "i < length (l_pkts l)"
    using I arr(1) by (simp_all add: may_arrive_def)
  show M: "k < length (data_posted (l_tx l))" using pk i k by (simp add: pkts_ok_def)
  then show "k < l_nxt l + 128" using B(3,5) by linarith
  show fresh: "k \<notin> R" if data: "\<not> fst (l_pkts l ! i)"
  proof
    assume "k \<in> R"
    then obtain j where j: "j \<in> l_got l" "snd (l_pkts l ! j) = k" using I by blast
    then have "j < length (l_pkts l)" using I by blast
    then have "i \<le> j" using pk i data j(2) k by (simp add: pkts_ok_def)
    moreover have "j < i" using arr(1) j k by (auto simp: may_arrive_def pkt_qp_def)
    ultimately show False by simp
  qed
  show "l_nxt l \<le> k + 128"
  proof (cases "fst (l_pkts l ! i)")
    case False
    then have "k \<notin> {..<l_nxt l}" using fresh B(1) by blast
    then show ?thesis by simp
  qed (use arr(2) k in \<open>simp add: fresh_pkt_def\<close>)
qed

lemma link_inv_imm:
  assumes inv: "link_inv f addrs w req R ptr l" and k: "k < length (data_posted (l_tx l))" "k = snd (l_pkts l ! i)"
  shows "rx_imm (pkt_event (l_tx l) (l_pkts l ! i) qpidx now queueing) = Some (wx_imm (w k))"
    "unat (GetFID (wx_imm (w k))) = f" "UINT_CSN_of (GetCSN (wx_imm (w k))) = csn_of k"
  using inv k by (auto simp: link_inv_def Let_def chunks_ok_def pkt_event_def simp del: UINT_CSN_of_eq)

lemma link_deliver_ok:
  assumes inv: "link_inv f addrs w req R ptr l" and arr: "may_arrive l i" "fresh_pkt l i"
  shows "rx_handle (pkt_event (l_tx l) (l_pkts l ! i) qpidx now queueing) (l_rx l) \<noteq> None"
proof -
  let ?e = "pkt_event (l_tx l) (l_pkts l ! i) qpidx now queueing"
  define k where "k = snd (l_pkts l ! i)"
  note a = link_arrival [OF inv arr k_def]
  note m = link_inv_imm(1) [OF inv a(1) k_def, where qpidx = qpidx and now = now and queueing = queueing]
    link_inv_imm(2,3) [OF inv a(1) k_def]
  have rel: "rx_rel (l_nxt l) R ptr (flows (l_rx l) f)" "\<not> rc_mode (l_rx l)" using inv by (simp_all add: link_inv_def Let_def)
  have w: "k < l_nxt l + 256" using a(2) by simp
  consider (drop) "\<not> rx_valid f (unat (GetRID (wx_imm (w k)))) (flows (l_rx l) f) \<or> k < l_nxt l \<or> l_nxt l + 128 \<le> k"
    | (dup) "rx_valid f (unat (GetRID (wx_imm (w k)))) (flows (l_rx l) f)" "l_nxt l \<le> k" "k < l_nxt l + 128" "k \<in> R"
    | (new) "rx_valid f (unat (GetRID (wx_imm (w k)))) (flows (l_rx l) f)" "l_nxt l \<le> k" "k < l_nxt l + 128" "k \<notin> R" by linarith
  then show ?thesis
  proof cases
    case drop
    then show ?thesis using uc_rx_chunk_drop [OF drop rel(1) a(3) w m(2,3)] m(1) by (cases ?e) auto
  next
    case dup
    then have "fst (l_pkts l ! i)" using a(4) by blast
    then show ?thesis using uc_rx_chunk_duplicate(2) [OF dup rel(1) m(2,3)] m(1) by (cases ?e) (auto simp: pkt_event_def Let_def)
  next
    case new
    note acc = uc_rx_chunk_accept [OF new rel m(2,3) refl]
    then show ?thesis using m(1) by (cases ?e) fastforce+
  qed
qed

lemma link_inv_deliver:
  assumes inv: "link_inv f addrs w req R ptr l" and arr: "may_arrive l i" "fresh_pkt l i"
    and rx: "rx_handle (pkt_event (l_tx l) (l_pkts l ! i) qpidx now queueing) (l_rx l) = Some cr"
  shows "\<exists>R' ptr'. link_inv f addrs w req R' ptr' ((rx_step l f cr)\<lparr>l_got := insert i (l_got l)\<rparr>)"
proof -
  define k where "k = snd (l_pkts l ! i)"
  note a = link_arrival [OF inv arr k_def]
  note m = link_inv_imm(1) [OF inv a(1) k_def, where qpidx = qpidx and now = now and queueing = queueing]
    link_inv_imm(2,3) [OF inv a(1) k_def] and I = inv [unfolded link_inv_def Let_def]
  have rel: "rx_rel (l_nxt l) R ptr (flows (l_rx l) f)" "\<not> rc_mode (l_rx l)" using I by auto
  have w: "k < l_nxt l + 256" using a(2) by simp
  have rc: "\<not> rc_mode cr" using rx rel(2) m(1) rx_chunk_frame(1,2)
    by (cases "pkt_event (l_tx l) (l_pkts l ! i) qpidx now queueing") auto
  have G: "insert i (l_got l) \<subseteq> {..<length (l_pkts l)}" using I arr(1) by (simp add: may_arrive_def)
  have R: "R \<subseteq> (\<lambda>i. snd (l_pkts l ! i)) ` l_got l" "R \<subseteq> {..<length (data_posted (l_tx l))}"
    "\<forall>k\<in>R. ptr k = imm_ptr (wx_imm (w k))" using I by auto
  from rx_handle_chunk [OF rel rx m a(3) w] show ?thesis
  proof
    assume r: "rx_rel (l_nxt l) R ptr (flows cr f)"
    show ?thesis by (intro exI, rule link_inv_rx [OF inv rx rc r]) (use R G in auto)
  next
    assume "\<exists>N. l_nxt l \<le> N \<and> N \<le> l_nxt l + 128 \<and> rx_rel N (insert k R) (ptr(k := imm_ptr (wx_imm (w k)))) (flows cr f)"
    then obtain N where N: "rx_rel N (insert k R) (ptr(k := imm_ptr (wx_imm (w k)))) (flows cr f)" "l_nxt l \<le> N" "N \<le> l_nxt l + 128"
      by blast
    show ?thesis by (intro exI, rule link_inv_rx [OF inv rx rc N]) (use R G a(1) k_def in auto)
  qed
qed

lemma link_inv_receiver:
  assumes inv: "link_inv f addrs w req R ptr l" and rx: "rx_imm e = None" "rx_handle e (l_rx l) = Some cr"
  shows "link_inv f addrs w req R ptr (rx_step l f cr)"
proof -
  note I = inv [unfolded link_inv_def Let_def]
  have fr: "rc_mode cr = rc_mode (l_rx l)" "rx_view (flows cr f) = rx_view (flows (l_rx l) f)"
    using rx_handle_other [OF rx(2), of f] rx(1) by auto
  have rc: "\<not> rc_mode cr" and r: "rx_rel (l_nxt l) R ptr (flows cr f)" using I fr(1) rx_rel_view [OF fr(2)] by auto
  have "link_inv f addrs w req R ptr ((rx_step l f cr)\<lparr>l_got := l_got l\<rparr>)"
    by (rule link_inv_rx [OF inv rx(2) rc r]) (use I in auto)
  moreover have "(rx_step l f cr)\<lparr>l_got := l_got l\<rparr> = rx_step l f cr" by (simp add: rx_step_def Let_def)
  ultimately show ?thesis by simp
qed

section \<open>Every reachable link\<close>

lemma link_inv_start:
  assumes "f < 2048" "0 < chunk" "base + kNumWr * kWrSize < 2 ^ 64"
  shows "link_inv f (bp_all base kNumWr kWrSize) (\<lambda>_. wr_ex_init) (\<lambda>_. 0) {} (\<lambda>_. 0)
     \<lparr>l_tx = RDMAContext_new TimelyRDMAContext False True True chunk mtu t wh us base,
      l_rx = RDMAContext_new TimelyRDMAContext False True True chunk mtu t' wh' us' base',
      l_una = 0, l_nxt = 0, l_pkts = [], l_got = {}, l_tags = []\<rparr>"
proof -
  let ?c = "\<lambda>t wh us base. RDMAContext_new TimelyRDMAContext False True True chunk mtu t wh us base"
  have "data_posted (?c t wh us base) = []" "cc_kind (?c t wh us base) = TimelyRDMAContext" "chunk_size (?c t wh us base) = chunk"
    "flows (?c t wh us base) = SubUcclFlow_new" "\<not> rc_mode (?c t wh us base)" "hdrs (?c t wh us base) = []"
    "\<And>g. fid (SubUcclFlow_new g) = g" for t wh us base
    by (simp_all add: RDMAContext_new_def hdrs_def SubUcclFlow_new_def)
  moreover have "length (bp_all base kNumWr kWrSize) = 4095" by (simp add: bp_all_def kNumWr_def)
  ultimately show ?thesis using assms rx_rel_new only_sender_new tx_rel_new(1) [OF _ assms(3)]
    unfolding link_inv_def Let_def by (simp add: pkts_ok_def chunks_ok_def)
qed

lemma link_rexmits_ns:
  assumes inv: "link_inv f addrs w req R ptr l"
    and re: "rexmits f addrs {#} U (length (data_posted (l_tx l))) w req (l_tx l) cs"
  obtains ns where "set ns \<subseteq> {U..<length (data_posted (l_tx l))}"
    "rtx_posted cs = rtx_posted (l_tx l) @ map (\<lambda>k. data_posted (l_tx l) ! k) ns"
proof -
  obtain ns where ns: "set ns \<subseteq> {U..<length (data_posted (l_tx l))}"
    "rtx_posted cs = rtx_posted (l_tx l) @ map (\<lambda>k. (wx_qpidx (w k), w k)) ns" using re by (auto simp: rexmits_def)
  moreover have "chunks_ok f w (data_posted (l_tx l))" using inv by (simp add: link_inv_def Let_def)
  then have "map (\<lambda>k. (wx_qpidx (w k), w k)) ns = map (\<lambda>k. data_posted (l_tx l) ! k) ns"
    using ns(1) by (intro map_cong refl) (auto simp: chunks_ok_def)
  ultimately show thesis using that by simp
qed

lemma link_rto_ok:
  assumes inv: "link_inv f addrs w req R ptr l"
  obtains cs where "handle_rto envs now (l_tx l) = Some cs"
    "rexmits f addrs {#} (l_una l) (length (data_posted (l_tx l))) w req (l_tx l) cs"
  using inv rto_rexmits [of f addrs "{#}" "l_una l" "length (data_posted (l_tx l))" w req "l_tx l" envs now]
  by (auto simp: link_inv_def Let_def)

lemma link_reach_inv:
  assumes "link_reach f l"
  shows "\<exists>addrs w req R ptr. link_inv f addrs w req R ptr l"
  using assms
proof induction
  case (link_start chunk base mtu t wh us t' wh' us' base')
  then show ?case using link_inv_start by blast
next
  case (link_request l us)
  then show ?case using link_inv_request by blast
next
  case (link_send l u r env b cs)
  then obtain addrs w req R ptr where inv: "link_inv f addrs w req R ptr l" by blast
  note u = link_send.hyps(3,4,6-8) [unfolded link_send.hyps(2)]
  show ?case using link_inv_send [OF inv link_send.hyps(10) u link_send.hyps(9,11)] by blast
next
  case (link_deliver l i qpidx now queueing cr)
  then obtain addrs w req R ptr where inv: "link_inv f addrs w req R ptr l" by blast
  show ?case using link_inv_deliver [OF inv link_deliver.hyps(2-4)] by blast
next
  case (link_receiver l e cr)
  then obtain addrs w req R ptr where inv: "link_inv f addrs w req R ptr l" by blast
  show ?case using link_inv_receiver [OF inv link_receiver.hyps(2,3)] by blast
next
  case (link_ack l j h env cs U ns)
  then obtain addrs w req R ptr where inv: "link_inv f addrs w req R ptr l" by blast
  have j: "j < length (acks_posted (l_rx l))" "sh_fid (acks_posted (l_rx l) ! j) = f" using link_ack.hyps by auto
  from link_ack_ok [OF inv j link_ack.hyps(5), of env] link_ack.hyps(3,6)
  have re: "rexmits f addrs {#} (max (l_una l) (l_tags l ! j)) (length (data_posted (l_tx l))) w req (l_tx l) cs"
    and U: "U = max (l_una l) (l_tags l ! j)" unfolding link_ack.hyps(7) by auto
  have "l_una l \<le> U" "U \<le> l_nxt l" using link_hdr [OF inv j] link_inv_bounds(3) [OF inv] by (auto simp: U)
  moreover have "set ns \<subseteq> {..<length (data_posted (l_tx l))}" using link_ack.hyps(8) by auto
  ultimately show ?case using link_inv_rexmits [OF inv re [folded U]] by blast
next
  case (link_rto l envs now cs ns)
  then obtain addrs w req R ptr where inv: "link_inv f addrs w req R ptr l" by blast
  from link_rto_ok [OF inv, of envs now] link_rto.hyps(2)
  have re: "rexmits f addrs {#} (l_una l) (length (data_posted (l_tx l))) w req (l_tx l) cs" by auto
  have "set ns \<subseteq> {..<length (data_posted (l_tx l))}" using link_rto.hyps(3) by auto
  from link_inv_rexmits [OF inv re _ _ this] link_inv_bounds(3) [OF inv]
  have "link_inv f addrs w req R ptr (l\<lparr>l_tx := cs, l_una := l_una l, l_pkts := l_pkts l @ map (Pair True) ns\<rparr>)" by simp
  moreover have "l\<lparr>l_tx := cs, l_una := l_una l, l_pkts := ps\<rparr> = l\<lparr>l_tx := cs, l_pkts := ps\<rparr>" for ps by simp
  ultimately show ?case by metis
qed

text \<open>The messages that the first \<open>n\<close> chunks complete, by the request ids in their immediates.\<close>

definition ends_message :: "nat \<times> wr_ex \<Rightarrow> bool" where
  "ends_message p \<longleftrightarrow> GetHINT (wx_imm (snd p)) \<noteq> 0"

definition completed :: "nat \<Rightarrow> RDMAContext \<Rightarrow> nat list" where
  "completed n cs = map (\<lambda>p. unat (GetRID (wx_imm (snd p)))) (filter ends_message (take n (data_posted cs)))"

lemma take_conv_map_nth: "n \<le> length xs \<Longrightarrow> take n xs = map (\<lambda>k. xs ! k) [0..<n]"
  by (rule nth_equalityI) auto

lemma completed_conv:
  assumes "chunks_ok f w (data_posted cs)" "n \<le> length (data_posted cs)"
  shows "completed n cs = map (\<lambda>k. unat (GetRID (wx_imm (w k)))) (filter (\<lambda>k. last_of (w k)) [0..<n])"
proof -
  have "take n (data_posted cs) = map (\<lambda>k. (wx_qpidx (w k), w k)) [0..<n]"
    using assms unfolding take_conv_map_nth [OF assms(2)] by (intro map_cong refl) (auto simp: chunks_ok_def)
  then show ?thesis by (simp add: completed_def filter_map comp_def ends_message_def last_of_def)
qed

lemma link_completed:
  assumes inv: "link_inv f addrs w req R ptr l"
  shows "map fst (rx_done (flows (l_rx l) f)) = completed (l_nxt l) (l_tx l)"
    "length (tx_done (flows (l_tx l) f)) = length (completed (l_una l) (l_tx l))"
    "length (unacked_chunks (flows (l_tx l) f)) = length (data_posted (l_tx l)) - l_una l"
proof -
  note B = link_inv_bounds [OF inv]
  have ck: "chunks_ok f w (data_posted (l_tx l))" and ptr: "\<forall>k\<in>R. ptr k = imm_ptr (wx_imm (w k))"
    and rel: "tx_rel f addrs {#} (l_una l) (length (data_posted (l_tx l))) w req (l_tx l)"
    and dn: "map fst (rx_done (flows (l_rx l) f)) = map (\<lambda>k. ptr k - 1) (filter (\<lambda>k. ptr k \<noteq> 0) [0..<l_nxt l])"
    using inv by (simp_all add: link_inv_def Let_def rx_rel_def rx_pre_def)
  have p: "ptr k = imm_ptr (wx_imm (w k))" if "k < l_nxt l" for k using that B(1) ptr by blast
  have "filter (\<lambda>k. ptr k \<noteq> 0) [0..<l_nxt l] = filter (\<lambda>k. last_of (w k)) [0..<l_nxt l]"
    by (rule filter_cong) (auto simp: p imm_ptr_def last_of_def)
  moreover have "map (\<lambda>k. ptr k - 1) (filter (\<lambda>k. last_of (w k)) [0..<l_nxt l]) =
      map (\<lambda>k. unat (GetRID (wx_imm (w k)))) (filter (\<lambda>k. last_of (w k)) [0..<l_nxt l])"
    by (rule map_cong) (auto simp: p imm_ptr_def last_of_def)
  ultimately show "map fst (rx_done (flows (l_rx l) f)) = completed (l_nxt l) (l_tx l)"
    using dn completed_conv [OF ck B(4)] by simp
  show "length (tx_done (flows (l_tx l) f)) = length (completed (l_una l) (l_tx l))"
    using rel completed_conv [OF ck, of "l_una l"] B(3,4) by (simp add: tx_rel_def Let_def)
  show "length (unacked_chunks (flows (l_tx l) f)) = length (data_posted (l_tx l)) - l_una l"
    using rel tracked_length by (auto simp: tx_rel_def Let_def)
qed

lemma completed_mono: "m \<le> n \<Longrightarrow> length (completed m cs) \<le> length (completed n cs)"
  unfolding completed_def by (metis (no_types, lifting) length_map filter_append le_add1 length_append append_take_drop_id min.absorb1 take_take)

end
