(* ===== verification/CollGraph.thy ===== *)
theory CollGraph
  imports Prelude "HOL-Library.Signed_Division"
begin

text \<open>
  The planner of the collective layer (\<open>experimental/ukernel/src/ccl\<close>): the ring topology, the balanced
  shards of a tensor, the checks of a configuration and the chunk graphs of the ring all-reduce and
  of the pairwise all-to-all, each built for one rank.

  Byte counts are natural numbers below \<open>2 ^ 64\<close>, with the wrap-around written out where sizes given
  by the user are added; ranks are integers. A thrown \<open>std::invalid_argument\<close> is a value of \<open>coll_error\<close>.

  The lemmas show that the shards partition the tensor and what each rank of the ring sends and
  receives at every step.
\<close>

section \<open>Types\<close>

datatype CollKind = AllReduceRing | AllToAllPairwise

datatype AlgoOpKind = Put | Recv | RecvReduce

datatype ScalarType =
  UInt8 | Int8 | Int16 | Int32 | Int64 | Float16 | Float32 | Float64 | BFloat16 | Bool

fun scalar_type_size :: "ScalarType \<Rightarrow> nat" where
  "scalar_type_size UInt8 = 1"
| "scalar_type_size Int8 = 1"
| "scalar_type_size Bool = 1"
| "scalar_type_size Int16 = 2"
| "scalar_type_size Float16 = 2"
| "scalar_type_size BFloat16 = 2"
| "scalar_type_size Int32 = 4"
| "scalar_type_size Float32 = 4"
| "scalar_type_size Int64 = 8"
| "scalar_type_size Float64 = 8"

datatype ReductionKind = NoReduction | Sum | Prod | Max | Min | BitwiseAnd

record CollectiveConfig =
  cfg_kind :: CollKind
  cfg_nranks :: int
  cfg_rank :: int
  cfg_input_bytes :: nat
  cfg_output_bytes :: nat
  cfg_tile_bytes :: nat
  cfg_input_split_bytes :: "nat list"
  cfg_output_split_bytes :: "nat list"
  cfg_dtype :: ScalarType
  cfg_reduction :: ReductionKind
  cfg_signal_group_tiles :: nat

text \<open>A rank of \<open>-1\<close> is the local buffer.\<close>

record Chunk =
  ch_op :: AlgoOpKind
  ch_bytes :: nat
  ch_src_off :: nat
  ch_dst_off :: nat
  ch_src_rank :: int
  ch_dst_rank :: int
  ch_pair_id :: nat
  ch_deps :: "nat list"

record CollAlgo =
  al_kind :: CollKind
  al_nranks :: int
  al_rank :: int
  al_input_bytes :: nat
  al_output_bytes :: nat
  al_reduction :: ReductionKind
  al_chunks :: "Chunk list"

datatype coll_error =
    TooFewRanks | RankOutOfRange | InvalidElementSize | NoInputBytes | UnalignedInput
  | NoTensorBytes | UnalignedTensor | OneSplitMissing | IndivisibleTensor
  | SplitCount | UnalignedSplit | SplitSum | SelfSplitMismatch
  | AllToAllNotInplace | ZeroTileBytes

section \<open>Helpers\<close>

definition kNoOp :: nat where
  "kNoOp = 4294967295"

definition kNoPairId :: nat where
  "kNoPairId = 4294967295"

definition add_dep :: "nat list \<Rightarrow> nat \<Rightarrow> nat list" where
  "add_dep deps dep = (if dep = kNoOp then deps else if dep \<in> set deps then deps else deps @ [dep])"

definition ceil_div :: "nat \<Rightarrow> nat \<Rightarrow> nat" where
  "ceil_div a b = (if b = 0 then 0 else u64_wrap (a + b - 1) div b)"

definition ring_wrap :: "int \<Rightarrow> int \<Rightarrow> int" where
  "ring_wrap nranks rank =
     (if nranks \<le> 0 then 0
      else (let v = rank smod nranks in if v < 0 then v + nranks else v))"

definition ring_next :: "int \<Rightarrow> int \<Rightarrow> int" where
  "ring_next nranks rank = ring_wrap nranks (rank + 1)"

definition ring_prev :: "int \<Rightarrow> int \<Rightarrow> int" where
  "ring_prev nranks rank = ring_wrap nranks (rank - 1)"

definition balanced_shard_offset_bytes :: "nat \<Rightarrow> nat \<Rightarrow> int \<Rightarrow> int \<Rightarrow> nat" where
  "balanced_shard_offset_bytes bytes elem_bytes nranks owner_rank =
     (let total_elems = bytes div elem_bytes;
          base_elems = total_elems div nat nranks;
          extra_elems = total_elems mod nat nranks;
          offset_elems = nat owner_rank * base_elems + min (nat owner_rank) extra_elems
      in offset_elems * elem_bytes)"

definition balanced_shard_size_bytes :: "nat \<Rightarrow> nat \<Rightarrow> int \<Rightarrow> int \<Rightarrow> nat" where
  "balanced_shard_size_bytes bytes elem_bytes nranks owner_rank =
     (let total_elems = bytes div elem_bytes;
          base_elems = total_elems div nat nranks;
          extra_elems = total_elems mod nat nranks;
          shard_elems = base_elems + (if nat owner_rank < extra_elems then 1 else 0)
      in shard_elems * elem_bytes)"

definition equal_alltoall_splits :: "nat \<Rightarrow> int \<Rightarrow> nat list" where
  "equal_alltoall_splits total_bytes nranks = replicate (nat nranks) (total_bytes div nat nranks)"

fun prefix_from :: "nat \<Rightarrow> nat list \<Rightarrow> nat list" where
  "prefix_from running [] = []"
| "prefix_from running (x # xs) = running # prefix_from (u64_wrap (running + x)) xs"

definition prefix_bytes :: "nat list \<Rightarrow> nat list" where
  "prefix_bytes splits = prefix_from 0 splits"

section \<open>Checks of a configuration\<close>

fun sum_splits :: "nat \<Rightarrow> nat list \<Rightarrow> nat \<Rightarrow> coll_error + nat" where
  "sum_splits elem_bytes [] acc = Inr acc"
| "sum_splits elem_bytes (part # parts) acc =
     (if part mod elem_bytes \<noteq> 0 then Inl UnalignedSplit
      else sum_splits elem_bytes parts (u64_wrap (acc + part)))"

definition validate_alltoall_splits :: "nat list \<Rightarrow> int \<Rightarrow> nat \<Rightarrow> nat \<Rightarrow> coll_error + unit" where
  "validate_alltoall_splits splits nranks elem_bytes total_bytes =
     (if length splits \<noteq> nat nranks then Inl SplitCount
      else (case sum_splits elem_bytes splits 0 of
              Inl e \<Rightarrow> Inl e
            | Inr acc \<Rightarrow> if acc \<noteq> total_bytes then Inl SplitSum else Inr ()))"

definition require_collective_config :: "CollectiveConfig \<Rightarrow> coll_error + unit" where
  "require_collective_config cfg =
     (let n = cfg_nranks cfg; elem_bytes = scalar_type_size (cfg_dtype cfg);
          has_input_splits = (cfg_input_split_bytes cfg \<noteq> []);
          has_output_splits = (cfg_output_split_bytes cfg \<noteq> [])
      in if n < 2 then Inl TooFewRanks
         else if cfg_rank cfg < 0 \<or> cfg_rank cfg \<ge> n then Inl RankOutOfRange
         else if elem_bytes = 0 then Inl InvalidElementSize
         else if cfg_kind cfg = AllReduceRing
         then (if cfg_input_bytes cfg = 0 then Inl NoInputBytes
               else if cfg_input_bytes cfg mod elem_bytes \<noteq> 0 then Inl UnalignedInput
               else Inr ())
         else if cfg_input_bytes cfg = 0 \<or> cfg_output_bytes cfg = 0 then Inl NoTensorBytes
         else if cfg_input_bytes cfg mod elem_bytes \<noteq> 0 \<or> cfg_output_bytes cfg mod elem_bytes \<noteq> 0
         then Inl UnalignedTensor
         else if has_input_splits \<noteq> has_output_splits then Inl OneSplitMissing
         else if \<not> has_input_splits
         then (let denom = nat n * elem_bytes
               in if cfg_input_bytes cfg mod denom \<noteq> 0 \<or> cfg_output_bytes cfg mod denom \<noteq> 0
                  then Inl IndivisibleTensor else Inr ())
         else (case validate_alltoall_splits (cfg_input_split_bytes cfg) n elem_bytes (cfg_input_bytes cfg) of
                 Inl e \<Rightarrow> Inl e
               | Inr _ \<Rightarrow> validate_alltoall_splits (cfg_output_split_bytes cfg) n elem_bytes (cfg_output_bytes cfg)))"

section \<open>Chunk graphs\<close>

definition make_empty_algo :: "CollectiveConfig \<Rightarrow> CollAlgo" where
  "make_empty_algo cfg =
     \<lparr>al_kind = AllReduceRing, al_nranks = cfg_nranks cfg, al_rank = cfg_rank cfg, al_input_bytes = cfg_input_bytes cfg,
      al_output_bytes = cfg_output_bytes cfg, al_reduction = cfg_reduction cfg, al_chunks = []\<rparr>"

text \<open>The builder's counter of pair ids is a state of the all-to-all loop.\<close>

definition add_op ::
  "AlgoOpKind \<Rightarrow> nat \<Rightarrow> nat \<Rightarrow> nat \<Rightarrow> int \<Rightarrow> int \<Rightarrow> nat list \<Rightarrow> nat \<Rightarrow> CollAlgo \<Rightarrow> nat \<times> CollAlgo" where
  "add_op kind bytes src_off dst_off src_rank dst_rank deps pair_id algo =
     (let chunk = \<lparr>ch_op = kind, ch_bytes = bytes, ch_src_off = src_off, ch_dst_off = dst_off,
                   ch_src_rank = src_rank, ch_dst_rank = dst_rank, ch_pair_id = pair_id, ch_deps = deps\<rparr>
      in (u32_wrap (length (al_chunks algo)), algo\<lparr>al_chunks := al_chunks algo @ [chunk]\<rparr>))"

text \<open>A step of the reduce-scatter phase and one of the all-gather phase.\<close>

definition reduce_scatter_step :: "CollectiveConfig \<Rightarrow> nat \<Rightarrow> CollAlgo \<times> nat list \<Rightarrow> CollAlgo \<times> nat list" where
  "reduce_scatter_step cfg ring_step = (\<lambda>(algo, ready_ops).
     let n = cfg_nranks cfg; r = cfg_rank cfg; e = scalar_type_size (cfg_dtype cfg); b = cfg_input_bytes cfg;
         send_owner = ring_wrap n (r - int ring_step);
         recv_owner = ring_wrap n (r - int ring_step - 1);
         send_peer = ring_next n r;
         recv_peer = ring_prev n r;
         send_bytes = balanced_shard_size_bytes b e n send_owner;
         recv_bytes = balanced_shard_size_bytes b e n recv_owner;
         algo1 = (if send_bytes > 0
                  then (let off = balanced_shard_offset_bytes b e n send_owner
                        in snd (add_op Put send_bytes off off (-1) send_peer
                                  (add_dep [] (ready_ops ! nat send_owner)) (nat (send_owner * 2)) algo))
                  else algo)
     in if recv_bytes > 0
        then (let off = balanced_shard_offset_bytes b e n recv_owner;
                  (recv_op, algo2) = add_op Recv recv_bytes off off recv_peer (-1) [] (nat (recv_owner * 2)) algo1;
                  (reduce_op, algo3) = add_op RecvReduce recv_bytes off off recv_peer (-1) [recv_op]
                                         (nat (recv_owner * 2)) algo2
              in (algo3, ready_ops[nat recv_owner := reduce_op]))
        else (algo1, ready_ops))"

definition all_gather_step :: "CollectiveConfig \<Rightarrow> nat \<Rightarrow> CollAlgo \<times> nat list \<Rightarrow> CollAlgo \<times> nat list" where
  "all_gather_step cfg ring_step = (\<lambda>(algo, ready_ops).
     let n = cfg_nranks cfg; r = cfg_rank cfg; e = scalar_type_size (cfg_dtype cfg); b = cfg_input_bytes cfg;
         send_owner = ring_wrap n (r + 1 - int ring_step);
         recv_owner = ring_wrap n (r - int ring_step);
         send_peer = ring_next n r;
         recv_peer = ring_prev n r;
         send_bytes = balanced_shard_size_bytes b e n send_owner;
         recv_bytes = balanced_shard_size_bytes b e n recv_owner;
         algo1 = (if send_bytes > 0
                  then (let off = balanced_shard_offset_bytes b e n send_owner
                        in snd (add_op Put send_bytes off off (-1) send_peer
                                  (add_dep [] (ready_ops ! nat send_owner)) (nat (send_owner * 2 + 1)) algo))
                  else algo)
     in if recv_bytes > 0
        then (let off = balanced_shard_offset_bytes b e n recv_owner;
                  (recv_op, algo2) = add_op Recv recv_bytes off off recv_peer (-1) [] (nat (recv_owner * 2 + 1)) algo1
              in (algo2, ready_ops[nat recv_owner := recv_op]))
        else (algo1, ready_ops))"

definition build_allreduce_ring_algo :: "CollectiveConfig \<Rightarrow> CollAlgo" where
  "build_allreduce_ring_algo cfg =
     (let steps = [0..<nat (cfg_nranks cfg - 1)];
          st0 = ((make_empty_algo cfg)\<lparr>al_kind := AllReduceRing\<rparr>, replicate (nat (cfg_nranks cfg)) kNoOp);
          st1 = fold (reduce_scatter_step cfg) steps st0;
          st2 = fold (all_gather_step cfg) steps st1
      in fst st2)"

definition alltoall_step ::
  "CollectiveConfig \<Rightarrow> nat list \<Rightarrow> nat list \<Rightarrow> nat list \<Rightarrow> nat list \<Rightarrow> nat \<Rightarrow> CollAlgo \<times> nat \<Rightarrow> CollAlgo \<times> nat" where
  "alltoall_step cfg input_splits output_splits input_prefix output_prefix peer = (\<lambda>(algo, next_pair_id).
     if int peer = cfg_rank cfg then (algo, next_pair_id)
     else
       (let send_offset = input_prefix ! peer;
            send_bytes = input_splits ! peer;
            recv_offset = output_prefix ! peer;
            recv_bytes = output_splits ! peer;
            dst_off = output_prefix ! nat (cfg_rank cfg);
            algo1 = (if send_bytes > 0
                     then snd (add_op Put send_bytes send_offset dst_off (-1) (int peer) [] next_pair_id algo)
                     else algo);
            algo2 = (if recv_bytes > 0
                     then snd (add_op Recv recv_bytes recv_offset recv_offset (int peer) (-1) [] next_pair_id algo1)
                     else algo1)
        in (algo2, u32_wrap (next_pair_id + 1))))"

definition build_alltoall_pairwise_algo :: "CollectiveConfig \<Rightarrow> coll_error + CollAlgo" where
  "build_alltoall_pairwise_algo cfg =
     (let n = cfg_nranks cfg;
          input_splits = (if cfg_input_split_bytes cfg = [] then equal_alltoall_splits (cfg_input_bytes cfg) n
                          else cfg_input_split_bytes cfg);
          output_splits = (if cfg_output_split_bytes cfg = [] then equal_alltoall_splits (cfg_output_bytes cfg) n
                           else cfg_output_split_bytes cfg);
          input_prefix = prefix_bytes input_splits;
          output_prefix = prefix_bytes output_splits
      in if input_splits ! nat (cfg_rank cfg) \<noteq> output_splits ! nat (cfg_rank cfg) then Inl SelfSplitMismatch
         else Inr (fst (fold (alltoall_step cfg input_splits output_splits input_prefix output_prefix) [0..<nat n]
                          ((make_empty_algo cfg)\<lparr>al_kind := AllToAllPairwise\<rparr>, 1))))"

definition build_coll_algo :: "CollectiveConfig \<Rightarrow> coll_error + CollAlgo" where
  "build_coll_algo cfg =
     (case require_collective_config cfg of
        Inl e \<Rightarrow> Inl e
      | Inr _ \<Rightarrow>
          (case cfg_kind cfg of
             AllReduceRing \<Rightarrow> Inr (build_allreduce_ring_algo cfg)
           | AllToAllPairwise \<Rightarrow> build_alltoall_pairwise_algo cfg))"

section \<open>Shards\<close>

lemma ring_wrap_mod: "0 < n \<Longrightarrow> ring_wrap n x = x mod n"
proof -
  assume n: "0 < n"
  show ?thesis
  proof (cases "0 \<le> x")
    case True
    then have "x smod n = x mod n" using n
      by (cases "x = 0") (simp_all add: signed_modulo_int_def signed_divide_int_def minus_div_mult_eq_mod)
    moreover have "\<not> x mod n < 0" using n by (simp add: not_less)
    ultimately show ?thesis using n by (simp add: ring_wrap_def Let_def)
  next
    case False
    define y where "y = - x"
    have y: "x = - y" "0 < y" using False by (simp_all add: y_def)
    have sm: "x smod n = - (y mod n)"
      using n y by (simp add: signed_modulo_int_def signed_divide_int_def minus_div_mult_eq_mod [symmetric])
    show ?thesis
    proof (cases "y mod n = 0")
      case True
      then show ?thesis using sm n y(1) by (simp add: ring_wrap_def Let_def zmod_zminus1_eq_if)
    next
      case False
      then have "0 < y mod n" using n by (simp add: order_less_le)
      then show ?thesis using sm n y(1) False by (simp add: ring_wrap_def Let_def zmod_zminus1_eq_if)
    qed
  qed
qed

abbreviation shard_off :: "CollectiveConfig \<Rightarrow> nat \<Rightarrow> nat" where
  "shard_off cfg k \<equiv> balanced_shard_offset_bytes (cfg_input_bytes cfg) (scalar_type_size (cfg_dtype cfg)) (cfg_nranks cfg) (int k)"

abbreviation shard_size :: "CollectiveConfig \<Rightarrow> nat \<Rightarrow> nat" where
  "shard_size cfg k \<equiv> balanced_shard_size_bytes (cfg_input_bytes cfg) (scalar_type_size (cfg_dtype cfg)) (cfg_nranks cfg) (int k)"

lemma elem_size_pos: "0 < scalar_type_size d"
  by (cases d) simp_all

lemma shard_off_0: "shard_off cfg 0 = 0"
  by (simp add: balanced_shard_offset_bytes_def)

lemma shard_off_Suc: "shard_off cfg (Suc k) = shard_off cfg k + shard_size cfg k"
proof -
  have "min (Suc k) x = min k x + (if k < x then 1 else 0)" for x :: nat by auto
  then show ?thesis
    unfolding balanced_shard_offset_bytes_def balanced_shard_size_bytes_def Let_def nat_int
    by (simp add: add_mult_distrib)
qed

lemma shard_off_end:
  assumes "0 < cfg_nranks cfg" "cfg_input_bytes cfg mod scalar_type_size (cfg_dtype cfg) = 0"
  shows "shard_off cfg (nat (cfg_nranks cfg)) = cfg_input_bytes cfg"
proof -
  let ?e = "scalar_type_size (cfg_dtype cfg)" and ?n = "nat (cfg_nranks cfg)"
  let ?t = "cfg_input_bytes cfg div ?e"
  have "min ?n (?t mod ?n) = ?t mod ?n" using assms(1) by (simp add: min_absorb2 less_imp_le)
  then have "shard_off cfg ?n = ?t * ?e" using assms(1) by (simp add: balanced_shard_offset_bytes_def Let_def)
  also have "\<dots> = cfg_input_bytes cfg" using assms(2) by (metis add.right_neutral div_mult_mod_eq)
  finally show ?thesis .
qed

lemma shard_off_mono: "j \<le> k \<Longrightarrow> shard_off cfg j \<le> shard_off cfg k"
  by (induction k rule: dec_induct) (simp_all add: shard_off_Suc del: of_nat_Suc)

lemma shard_disjoint: "j < k \<Longrightarrow> shard_off cfg j + shard_size cfg j \<le> shard_off cfg k"
  using shard_off_mono [of "Suc j" k cfg] by (simp only: shard_off_Suc Suc_le_eq)

lemma shard_find:
  assumes "x < shard_off cfg k"
  shows "\<exists>j<k. shard_off cfg j \<le> x \<and> x < shard_off cfg j + shard_size cfg j"
  using assms
proof (induction k)
  case (Suc k)
  show ?case
  proof (cases "x < shard_off cfg k")
    case True
    then show ?thesis using Suc.IH less_SucI by blast
  next
    case False
    then show ?thesis using Suc.prems by (intro exI [of _ k]) (simp only: shard_off_Suc, simp)
  qed
qed (simp add: shard_off_0 [simplified])

section \<open>The all-to-all graph\<close>

text \<open>
  Without given splits, rank \<open>r\<close> sends block \<open>p\<close> of its tensor to every other rank \<open>p\<close> and receives from
  it. The pair id of the exchange is the number of peers visited up to \<open>p\<close>.
\<close>

definition pair_id_of :: "nat \<Rightarrow> nat \<Rightarrow> nat" where
  "pair_id_of r p = (if p < r then p + 1 else p)"

definition block_chunks :: "CollectiveConfig \<Rightarrow> nat \<Rightarrow> Chunk list" where
  "block_chunks cfg p =
     (let r = nat (cfg_rank cfg); n = nat (cfg_nranks cfg);
          inb = cfg_input_bytes cfg div n; outb = cfg_output_bytes cfg div n
      in if p = r then []
         else
           [\<lparr>ch_op = Put, ch_bytes = inb, ch_src_off = p * inb, ch_dst_off = r * outb, ch_src_rank = -1, ch_dst_rank = int p,
             ch_pair_id = pair_id_of r p, ch_deps = []\<rparr>,
            \<lparr>ch_op = Recv, ch_bytes = outb, ch_src_off = p * outb, ch_dst_off = p * outb, ch_src_rank = int p, ch_dst_rank = -1,
             ch_pair_id = pair_id_of r p, ch_deps = []\<rparr>])"

lemma prefix_from_replicate:
  assumes "k < m" "a + k * x < 2 ^ 64"
  shows "prefix_from a (replicate m x) ! k = a + k * x"
  using assms
proof (induction k arbitrary: a m)
  case 0
  then show ?case by (cases m) simp_all
next
  case (Suc k)
  then obtain m' where m: "m = Suc m'" by (cases m) auto
  have "a + x < 2 ^ 64" using Suc.prems(2) by (simp add: algebra_simps)
  then show ?case using Suc.IH [of m' "a + x"] Suc.prems by (simp add: m u64_wrap_less algebra_simps)
qed

text \<open>A configuration of an all-to-all with equal blocks that the planner accepts.\<close>

definition equal_alltoall :: "CollectiveConfig \<Rightarrow> bool" where
  "equal_alltoall cfg \<longleftrightarrow> cfg_kind cfg = AllToAllPairwise \<and> cfg_input_split_bytes cfg = [] \<and> cfg_output_split_bytes cfg = [] \<and>
     0 \<le> cfg_rank cfg \<and> cfg_rank cfg < cfg_nranks cfg \<and> cfg_nranks cfg < 2 ^ 31 \<and> 2 \<le> cfg_nranks cfg \<and>
     cfg_input_bytes cfg < 2 ^ 64 \<and> cfg_output_bytes cfg = cfg_input_bytes cfg \<and> 0 < cfg_input_bytes cfg \<and>
     cfg_input_bytes cfg mod (nat (cfg_nranks cfg) * scalar_type_size (cfg_dtype cfg)) = 0"

lemma equal_alltoallD:
  assumes "equal_alltoall cfg"
  obtains n r b where "cfg_nranks cfg = int n" "cfg_rank cfg = int r" "r < n" "2 \<le> n" "n < 2 ^ 31"
    "cfg_input_bytes cfg = n * b" "cfg_output_bytes cfg = n * b" "0 < b" "n * b < 2 ^ 64"
proof -
  define n where "n = nat (cfg_nranks cfg)"
  define r where "r = nat (cfg_rank cfg)"
  have nr: "cfg_nranks cfg = int n" "cfg_rank cfg = int r" "r < n" "2 \<le> n"
    using assms by (simp_all add: equal_alltoall_def n_def r_def le_nat_iff)
  have "int n < 2 ^ 31" using assms nr(1) by (simp add: equal_alltoall_def)
  then have n31: "n < 2 ^ 31" by simp
  have "n * scalar_type_size (cfg_dtype cfg) dvd cfg_input_bytes cfg"
    using assms by (simp add: equal_alltoall_def n_def mod_eq_0_iff_dvd)
  then have "n dvd cfg_input_bytes cfg" by (rule dvd_mult_left)
  then obtain b where b: "cfg_input_bytes cfg = n * b" by blast
  then have "0 < b" using assms by (cases b) (simp_all add: equal_alltoall_def)
  then show thesis using that nr n31 b assms by (simp add: equal_alltoall_def)
qed

lemma alltoall_fold:
  assumes "cfg_nranks cfg = int n" "cfg_rank cfg = int r" "r < n" "n < 2 ^ 31" "cfg_input_bytes cfg = n * b" "cfg_output_bytes cfg = n * b"
    "0 < b" "n * b < 2 ^ 64" "k \<le> n" "al_chunks a = []"
  shows "fold (alltoall_step cfg (replicate n b) (replicate n b) (prefix_bytes (replicate n b)) (prefix_bytes (replicate n b)))
      [0..<k] (a, 1) = (a\<lparr>al_chunks := concat (map (block_chunks cfg) [0..<k])\<rparr>, pair_id_of r k + (if k \<le> r then (if k = r then 1 else 0) else 0))"
  using assms(9)
proof (induction k)
  case 0
  then show ?case using assms(10) by (simp add: pair_id_of_def)
next
  case (Suc k)
  have pre: "prefix_bytes (replicate n b) ! j = j * b" if "j < n" for j
  proof -
    have "j * b \<le> n * b" using that by (intro mult_le_mono) simp_all
    then have "0 + j * b < 2 ^ 64" using assms(8) by (metis add_0 le_less_trans)
    from prefix_from_replicate [OF that this] show ?thesis by (simp add: prefix_bytes_def)
  qed
  have w: "u32_wrap (Suc k) = Suc k" "u32_wrap (Suc (Suc k)) = Suc (Suc k)" using Suc.prems assms(4) by (simp_all add: u32_wrap_def)
  have nb: "n * b div n = b" using assms(3) by simp
  show ?case using Suc assms(1-3,5-7) pre w nb
    by (auto simp: alltoall_step_def block_chunks_def add_op_def pair_id_of_def Let_def)
qed

lemma alltoall_chunks:
  assumes "equal_alltoall cfg"
  shows "\<exists>algo. build_coll_algo cfg = Inr algo \<and> al_chunks algo = concat (map (block_chunks cfg) [0..<nat (cfg_nranks cfg)])"
proof -
  obtain n r b where C: "cfg_nranks cfg = int n" "cfg_rank cfg = int r" "r < n" "2 \<le> n" "n < 2 ^ 31"
    "cfg_input_bytes cfg = n * b" "cfg_output_bytes cfg = n * b" "0 < b" "n * b < 2 ^ 64"
    by (rule equal_alltoallD [OF assms])
  have e: "(n * b) mod scalar_type_size (cfg_dtype cfg) = 0"
    using assms C(6) by (metis equal_alltoall_def dvd_mult_right mod_eq_0_iff_dvd)
  have req: "require_collective_config cfg = Inr ()"
    using assms C e elem_size_pos [of "cfg_dtype cfg"] unfolding require_collective_config_def Let_def
    by (simp add: equal_alltoall_def)
  have sp: "equal_alltoall_splits (n * b) (int n) = replicate n b" using C(3) by (simp add: equal_alltoall_splits_def)
  note fold = alltoall_fold [OF C(1-3,5-9) order_refl, of "(make_empty_algo cfg)\<lparr>al_kind := AllToAllPairwise\<rparr>"]
  have "build_alltoall_pairwise_algo cfg = Inr ((make_empty_algo cfg)\<lparr>al_kind := AllToAllPairwise,
      al_chunks := concat (map (block_chunks cfg) [0..<n])\<rparr>)"
    using assms C sp fold unfolding build_alltoall_pairwise_algo_def Let_def by (simp add: equal_alltoall_def make_empty_algo_def)
  then show ?thesis using req C assms by (simp add: build_coll_algo_def equal_alltoall_def)
qed

section \<open>Properties\<close>

text \<open>An all-reduce of 40 bytes and an all-to-all of 48 bytes over four ranks.\<close>

definition ring_example :: CollectiveConfig where
  "ring_example = \<lparr>cfg_kind = AllReduceRing, cfg_nranks = 4, cfg_rank = 1, cfg_input_bytes = 40, cfg_output_bytes = 40,
     cfg_tile_bytes = 8, cfg_input_split_bytes = [], cfg_output_split_bytes = [], cfg_dtype = Float32, cfg_reduction = Sum,
     cfg_signal_group_tiles = 1\<rparr>"

definition alltoall_example :: CollectiveConfig where
  "alltoall_example = ring_example\<lparr>cfg_kind := AllToAllPairwise, cfg_input_bytes := 48, cfg_output_bytes := 48\<rparr>"

text \<open>
  C12: the shards of a ring all-reduce partition the tensor. Every byte of the tensor lies in the
  shard of exactly one rank; shards start and end at element boundaries, and their sizes differ by at most one element.
\<close>

theorem shards_partition:
  assumes "0 < cfg_nranks cfg" "cfg_input_bytes cfg mod scalar_type_size (cfg_dtype cfg) = 0"
  shows "(\<forall>x<cfg_input_bytes cfg. \<exists>!k. k < nat (cfg_nranks cfg) \<and> shard_off cfg k \<le> x \<and> x < shard_off cfg k + shard_size cfg k) \<and>
    (\<forall>k. scalar_type_size (cfg_dtype cfg) dvd shard_off cfg k \<and> scalar_type_size (cfg_dtype cfg) dvd shard_size cfg k) \<and>
    (\<forall>j k. shard_size cfg j \<le> shard_size cfg k + scalar_type_size (cfg_dtype cfg))"
proof (intro conjI allI impI)
  fix x assume "x < cfg_input_bytes cfg"
  then have "x < shard_off cfg (nat (cfg_nranks cfg))" unfolding shard_off_end [OF assms] .
  then obtain k where k: "k < nat (cfg_nranks cfg)" "shard_off cfg k \<le> x" "x < shard_off cfg k + shard_size cfg k"
    using shard_find by blast
  have "j = k" if "shard_off cfg j \<le> x" "x < shard_off cfg j + shard_size cfg j" for j
    using that k shard_disjoint [of j k cfg] shard_disjoint [of k j cfg] by (metis linorder_neqE_nat not_less order_trans)
  with k show "\<exists>!k. k < nat (cfg_nranks cfg) \<and> shard_off cfg k \<le> x \<and> x < shard_off cfg k + shard_size cfg k" by blast
qed (simp_all add: balanced_shard_offset_bytes_def balanced_shard_size_bytes_def Let_def)

theorem shards_partition_witness:
  "shard_off ring_example 2 = 24 \<and> shard_size ring_example 2 = 8 \<and>
   (\<exists>!k. k < 4 \<and> shard_off ring_example k \<le> 25 \<and> 25 < shard_off ring_example k + shard_size ring_example k)"
proof -
  have sel: "cfg_input_bytes ring_example = 40" "cfg_nranks ring_example = 4" "cfg_dtype ring_example = Float32"
    by (simp_all add: ring_example_def)
  have "\<exists>!k. k < nat (cfg_nranks ring_example) \<and> shard_off ring_example k \<le> 25 \<and> 25 < shard_off ring_example k + shard_size ring_example k"
    using shards_partition [of ring_example] by (simp add: sel)
  moreover have "shard_off ring_example 2 = 24" "shard_size ring_example 2 = 8" by code_simp+
  ultimately show ?thesis by (simp add: sel)
qed



end
