(* ===== verification/CollRing.thy ===== *)
theory CollRing
  imports CollGraph
begin

text \<open>
  The chunk graph of the ring all-reduce in closed form. Every chunk of a rank has a label, which
  names the phase, the step and the kind of the chunk; the graph is the list of labels whose shard
  is not empty, each dependency being the position of a label.
\<close>

section \<open>Positions in a list\<close>

definition ix :: "'a list \<Rightarrow> 'a \<Rightarrow> nat" where
  "ix xs x = length (takeWhile (\<lambda>y. y \<noteq> x) xs)"

lemma ix_less: "x \<in> set xs \<Longrightarrow> ix xs x < length xs"
  by (induction xs) (auto simp: ix_def)

lemma nth_ix: "x \<in> set xs \<Longrightarrow> xs ! ix xs x = x"
  by (induction xs) (auto simp: ix_def)

lemma ix_append: "x \<in> set xs \<Longrightarrow> ix (xs @ ys) x = ix xs x"
  by (induction xs) (auto simp: ix_def)

lemma ix_Cons_mid: "x \<notin> set xs \<Longrightarrow> ix (xs @ x # ys) x = length xs"
  by (induction xs) (auto simp: ix_def)

lemma ix_nth: "distinct xs \<Longrightarrow> i < length xs \<Longrightarrow> ix xs (xs ! i) = i"
  by (metis id_take_nth_drop ix_Cons_mid distinct_append distinct.simps(2) length_take min.absorb4
      distinct_take not_distinct_conv_prefix nth_append_length take_Suc_conv_app_nth)

lemma ix_inj: "x \<in> set xs \<Longrightarrow> y \<in> set xs \<Longrightarrow> ix xs x = ix xs y \<longleftrightarrow> x = y"
  by (metis nth_ix)

section \<open>Labels\<close>

datatype ring_op = RsPut nat | RsRecv nat | RsReduce nat | AgPut nat | AgRecv nat

text \<open>The shard a chunk of rank \<open>r\<close> is about, and the chunk of the same rank that it waits for.\<close>

fun owner :: "nat \<Rightarrow> nat \<Rightarrow> ring_op \<Rightarrow> nat" where
  "owner n r (RsPut s) = (r + n - s) mod n"
| "owner n r (RsRecv s) = (r + n - s - 1) mod n"
| "owner n r (RsReduce s) = (r + n - s - 1) mod n"
| "owner n r (AgPut s) = (r + 1 + n - s) mod n"
| "owner n r (AgRecv s) = (r + n - s) mod n"

fun waits_for :: "nat \<Rightarrow> ring_op \<Rightarrow> ring_op option" where
  "waits_for n (RsPut s) = (if s = 0 then None else Some (RsReduce (s - 1)))"
| "waits_for n (RsRecv s) = None"
| "waits_for n (RsReduce s) = Some (RsRecv s)"
| "waits_for n (AgPut s) = (if s = 0 then Some (RsReduce (n - 2)) else Some (AgRecv (s - 1)))"
| "waits_for n (AgRecv s) = None"

fun step_of :: "ring_op \<Rightarrow> nat" where
  "step_of (RsPut s) = s"
| "step_of (RsRecv s) = s"
| "step_of (RsReduce s) = s"
| "step_of (AgPut s) = s"
| "step_of (AgRecv s) = s"

definition rs_labels :: "nat \<Rightarrow> ring_op list" where
  "rs_labels k = concat (map (\<lambda>s. [RsPut s, RsRecv s, RsReduce s]) [0..<k])"

definition ag_labels :: "nat \<Rightarrow> ring_op list" where
  "ag_labels k = concat (map (\<lambda>s. [AgPut s, AgRecv s]) [0..<k])"

definition all_labels :: "nat \<Rightarrow> ring_op list" where
  "all_labels n = rs_labels (n - 1) @ ag_labels (n - 1)"

definition cfg_n :: "CollectiveConfig \<Rightarrow> nat" where
  "cfg_n cfg = nat (cfg_nranks cfg)"

definition cfg_r :: "CollectiveConfig \<Rightarrow> nat" where
  "cfg_r cfg = nat (cfg_rank cfg)"

definition live :: "CollectiveConfig \<Rightarrow> ring_op \<Rightarrow> bool" where
  "live cfg l \<longleftrightarrow> 0 < shard_size cfg (owner (cfg_n cfg) (cfg_r cfg) l)"

definition labels :: "CollectiveConfig \<Rightarrow> ring_op list" where
  "labels cfg = filter (live cfg) (all_labels (cfg_n cfg))"

fun kind_of :: "ring_op \<Rightarrow> AlgoOpKind" where
  "kind_of (RsPut s) = Put"
| "kind_of (RsRecv s) = Recv"
| "kind_of (RsReduce s) = RecvReduce"
| "kind_of (AgPut s) = Put"
| "kind_of (AgRecv s) = Recv"

fun gathers :: "ring_op \<Rightarrow> nat" where
  "gathers (AgPut s) = 1"
| "gathers (AgRecv s) = 1"
| "gathers _ = 0"

definition chunk_of :: "CollectiveConfig \<Rightarrow> ring_op \<Rightarrow> Chunk" where
  "chunk_of cfg l =
     (let n = cfg_n cfg; r = cfg_r cfg; k = owner n r l
      in \<lparr>ch_op = kind_of l, ch_bytes = shard_size cfg k, ch_src_off = shard_off cfg k, ch_dst_off = shard_off cfg k,
          ch_src_rank = (if kind_of l = Put then -1 else int ((r + n - 1) mod n)),
          ch_dst_rank = (if kind_of l = Put then int ((r + 1) mod n) else -1),
          ch_pair_id = k * 2 + gathers l,
          ch_deps = (case waits_for n l of None \<Rightarrow> [] | Some l' \<Rightarrow> [ix (labels cfg) l'])\<rparr>)"

lemma rs_labels_Suc: "rs_labels (Suc k) = rs_labels k @ [RsPut k, RsRecv k, RsReduce k]"
  by (simp add: rs_labels_def)

lemma ag_labels_Suc: "ag_labels (Suc k) = ag_labels k @ [AgPut k, AgRecv k]"
  by (simp add: ag_labels_def)

lemma set_rs_labels: "l \<in> set (rs_labels k) \<longleftrightarrow> step_of l < k \<and> gathers l = 0"
  by (cases l) (auto simp: rs_labels_def)

lemma set_ag_labels: "l \<in> set (ag_labels k) \<longleftrightarrow> step_of l < k \<and> gathers l = 1"
  by (cases l) (auto simp: ag_labels_def)

lemma distinct_all_labels: "distinct (all_labels n)"
proof -
  have "distinct (rs_labels k)" for k
    by (induction k) (auto simp: rs_labels_Suc set_rs_labels rs_labels_def [of 0])
  moreover have "distinct (ag_labels k)" for k
    by (induction k) (auto simp: ag_labels_Suc set_ag_labels ag_labels_def [of 0])
  ultimately show ?thesis by (auto simp: all_labels_def set_rs_labels set_ag_labels)
qed

lemma length_all_labels: "length (all_labels n) = 5 * (n - 1)"
proof -
  have "length (rs_labels k) = 3 * k" for k by (induction k) (simp_all add: rs_labels_Suc rs_labels_def [of 0])
  moreover have "length (ag_labels k) = 2 * k" for k by (induction k) (simp_all add: ag_labels_Suc ag_labels_def [of 0])
  ultimately show ?thesis by (simp add: all_labels_def)
qed

lemma set_labels: "l \<in> set (labels cfg) \<longleftrightarrow> step_of l < cfg_n cfg - 1 \<and> live cfg l"
  by (cases l) (auto simp: labels_def all_labels_def set_rs_labels set_ag_labels)

lemma Suc_add_mod: "Suc (n + r) mod n = Suc r mod n" "Suc (r + n) mod n = Suc r mod n"
  using mod_add_self1 [of n "Suc r"] mod_add_self2 [of "Suc r" n] by (simp_all del: mod_add_self1 mod_add_self2)

text \<open>What a chunk waits for is about the same shard.\<close>

lemma owner_waits_for:
  assumes "waits_for n l = Some l'" "step_of l < n - 1" "r < n"
  shows "owner n r l' = owner n r l" "step_of l' < n - 1"
proof -
  show "step_of l' < n - 1" using assms by (cases l) (auto split: if_splits)
  show "owner n r l' = owner n r l"
  proof (cases l)
    case (AgPut s)
    show ?thesis
    proof (cases "s = 0")
      case True
      have e: "r + n - (n - 2) - 1 = r + 1" using assms by linarith
      then show ?thesis using assms(1) AgPut True by (auto simp: Suc_add_mod)
    qed (use assms AgPut in auto)
  qed (use assms in \<open>auto split: if_splits\<close>)
qed

text \<open>The ranks and owners of the code are those of the labels.\<close>

definition ring_ok :: "CollectiveConfig \<Rightarrow> bool" where
  "ring_ok cfg \<longleftrightarrow> 2 \<le> cfg_nranks cfg \<and> cfg_nranks cfg \<le> 2 ^ 29 \<and> 0 \<le> cfg_rank cfg \<and> cfg_rank cfg < cfg_nranks cfg"

lemma ring_okD:
  assumes "ring_ok cfg"
  shows "cfg_nranks cfg = int (cfg_n cfg)" "cfg_rank cfg = int (cfg_r cfg)" "cfg_r cfg < cfg_n cfg" "2 \<le> cfg_n cfg"
    "cfg_n cfg \<le> 2 ^ 29"
proof -
  show "cfg_nranks cfg = int (cfg_n cfg)" "cfg_rank cfg = int (cfg_r cfg)" "cfg_r cfg < cfg_n cfg" "2 \<le> cfg_n cfg"
    using assms by (simp_all add: ring_ok_def cfg_n_def cfg_r_def le_nat_iff)
  have "nat (cfg_nranks cfg) \<le> nat (2 ^ 29)" using assms unfolding ring_ok_def by (intro nat_mono) blast
  then show "cfg_n cfg \<le> 2 ^ 29" by (simp add: cfg_n_def)
qed

lemma ring_wrap_nat: "0 < n \<Longrightarrow> j \<le> m + n \<Longrightarrow> ring_wrap (int n) (int m - int j) = int ((m + n - j) mod n)"
proof -
  assume n: "0 < n" and j: "j \<le> m + n"
  have "int ((m + n - j) mod n) = (int m + int n - int j) mod int n" using j by (simp add: zmod_int of_nat_diff)
  also have "\<dots> = (int m - int j + int n) mod int n" by (simp add: algebra_simps)
  also have "\<dots> = (int m - int j) mod int n" by simp
  finally show ?thesis using n by (simp add: ring_wrap_mod)
qed

section \<open>The graph\<close>

text \<open>Adding the chunk of the next label.\<close>

lemma add_op_label:
  assumes L: "labels cfg = ls @ l # rest" and small: "length (labels cfg) < 2 ^ 32" and a: "al_chunks a = map (chunk_of cfg) ls"
    and c: "chunk_of cfg l = \<lparr>ch_op = k, ch_bytes = b, ch_src_off = so, ch_dst_off = d, ch_src_rank = sr, ch_dst_rank = dr,
      ch_pair_id = pid, ch_deps = deps\<rparr>"
  shows "add_op k b so d sr dr deps pid a = (ix (labels cfg) l, a\<lparr>al_chunks := map (chunk_of cfg) (ls @ [l])\<rparr>)"
proof -
  have "distinct (labels cfg)" by (simp add: labels_def distinct_all_labels)
  then have "ix (labels cfg) l = length ls" unfolding L by (intro ix_Cons_mid) auto
  then show ?thesis using small L a c by (simp add: add_op_def u32_wrap_less)
qed

lemma labels_small: "ring_ok cfg \<Longrightarrow> length (labels cfg) < kNoOp"
proof -
  assume "ring_ok cfg"
  then have "5 * (cfg_n cfg - 1) < kNoOp" using ring_okD(5) [of cfg] by (simp add: kNoOp_def)
  then show ?thesis
    using length_filter_le [of "live cfg" "all_labels (cfg_n cfg)"] by (simp add: labels_def length_all_labels)
qed

text \<open>The ready table: the chunk that last wrote the shard.\<close>

lemma add_dep_label: "ring_ok cfg \<Longrightarrow> l \<in> set (labels cfg) \<Longrightarrow> add_dep [] (ix (labels cfg) l) = [ix (labels cfg) l]"
  using labels_small [of cfg] ix_less [of l "labels cfg"] by (simp add: add_dep_def)

lemma ring_peers:
  assumes ok: "ring_ok cfg" and s: "s < cfg_n cfg - 1"
  shows "ring_wrap (cfg_nranks cfg) (cfg_rank cfg - int s) = int (owner (cfg_n cfg) (cfg_r cfg) (RsPut s))"
    "ring_wrap (cfg_nranks cfg) (cfg_rank cfg - int s - 1) = int (owner (cfg_n cfg) (cfg_r cfg) (RsRecv s))"
    "ring_wrap (cfg_nranks cfg) (cfg_rank cfg + 1 - int s) = int (owner (cfg_n cfg) (cfg_r cfg) (AgPut s))"
    "ring_next (cfg_nranks cfg) (cfg_rank cfg) = int ((cfg_r cfg + 1) mod cfg_n cfg)"
    "ring_prev (cfg_nranks cfg) (cfg_rank cfg) = int ((cfg_r cfg + cfg_n cfg - 1) mod cfg_n cfg)"
  using ring_okD [OF ok] s ring_wrap_nat [of "cfg_n cfg" s "cfg_r cfg"] ring_wrap_nat [of "cfg_n cfg" "Suc s" "cfg_r cfg"]
    ring_wrap_nat [of "cfg_n cfg" 1 "cfg_r cfg"] ring_wrap_nat [of "cfg_n cfg" 0 "cfg_r cfg + 1"]
    ring_wrap_nat [of "cfg_n cfg" s "cfg_r cfg + 1"]
  by (simp_all add: algebra_simps Suc_add_mod ring_next_def ring_prev_def)

text \<open>A put whose shard is not empty waits for the chunk named in the ready table.\<close>

lemma put_label:
  assumes ok: "ring_ok cfg" and l: "kind_of l = Put" "step_of l < cfg_n cfg - 1" and k: "k = owner (cfg_n cfg) (cfg_r cfg) l"
    and L: "labels cfg = ls @ filter (live cfg) [l] @ rest" and a: "al_chunks a = map (chunk_of cfg) ls"
    and ready: "live cfg l \<Longrightarrow> ready ! k = (case waits_for (cfg_n cfg) l of None \<Rightarrow> kNoOp | Some l' \<Rightarrow> ix (labels cfg) l')"
  shows "(if 0 < shard_size cfg k
      then snd (add_op Put (shard_size cfg k) (shard_off cfg k) (shard_off cfg k) (- 1) (int ((cfg_r cfg + 1) mod cfg_n cfg))
        (add_dep [] (ready ! k)) (k * 2 + gathers l) a) else a) = a\<lparr>al_chunks := map (chunk_of cfg) (ls @ filter (live cfg) [l])\<rparr>"
proof (cases "live cfg l")
  case True
  have small: "length (labels cfg) < 2 ^ 32" using labels_small [OF ok] by (simp add: kNoOp_def)
  have L': "labels cfg = ls @ l # rest" using L True by simp
  have "add_dep [] (ready ! k) = (case waits_for (cfg_n cfg) l of None \<Rightarrow> [] | Some l' \<Rightarrow> [ix (labels cfg) l'])"
  proof (cases "waits_for (cfg_n cfg) l")
    case (Some l')
    have "l' \<in> set (labels cfg)"
      using True owner_waits_for [OF Some l(2) ring_okD(3) [OF ok]] by (simp add: set_labels live_def)
    then show ?thesis using ready [OF True] Some add_dep_label [OF ok] by simp
  qed (use ready [OF True] in \<open>simp add: add_dep_def\<close>)
  then have "chunk_of cfg l = \<lparr>ch_op = Put, ch_bytes = shard_size cfg k, ch_src_off = shard_off cfg k, ch_dst_off = shard_off cfg k,
      ch_src_rank = - 1, ch_dst_rank = int ((cfg_r cfg + 1) mod cfg_n cfg), ch_pair_id = k * 2 + gathers l,
      ch_deps = add_dep [] (ready ! k)\<rparr>"
    using l k by (simp add: chunk_of_def Let_def)
  from add_op_label [OF L' small a this] show ?thesis using True k by (simp add: live_def)
qed (use k a in \<open>simp add: live_def\<close>)

lemma recv_label:
  assumes ok: "ring_ok cfg" and l: "kind_of l \<noteq> Put" "live cfg l" and k: "k = owner (cfg_n cfg) (cfg_r cfg) l"
    and L: "labels cfg = ls @ l # rest" and a: "al_chunks a = map (chunk_of cfg) ls"
    and deps: "deps = (case waits_for (cfg_n cfg) l of None \<Rightarrow> [] | Some l' \<Rightarrow> [ix (labels cfg) l'])"
  shows "add_op (kind_of l) (shard_size cfg k) (shard_off cfg k) (shard_off cfg k) (int ((cfg_r cfg + cfg_n cfg - 1) mod cfg_n cfg)) (- 1)
      deps (k * 2 + gathers l) a = (ix (labels cfg) l, a\<lparr>al_chunks := map (chunk_of cfg) (ls @ [l])\<rparr>)"
proof -
  have "length (labels cfg) < 2 ^ 32" using labels_small [OF ok] by (simp add: kNoOp_def)
  from add_op_label [OF L this a] show ?thesis using l k deps by (simp add: chunk_of_def Let_def)
qed

lemma rs_step_label:
  assumes ok: "ring_ok cfg" and s: "s < cfg_n cfg - 1"
    and L: "labels cfg = ls @ filter (live cfg) [RsPut s, RsRecv s, RsReduce s] @ rest"
    and a: "al_chunks a = map (chunk_of cfg) ls"
    and ready: "live cfg (RsPut s) \<Longrightarrow> ready ! owner (cfg_n cfg) (cfg_r cfg) (RsPut s) =
        (if s = 0 then kNoOp else ix (labels cfg) (RsReduce (s - 1)))"
  shows "reduce_scatter_step cfg s (a, ready) =
    (a\<lparr>al_chunks := map (chunk_of cfg) (ls @ filter (live cfg) [RsPut s, RsRecv s, RsReduce s])\<rparr>,
     if live cfg (RsRecv s) then ready[owner (cfg_n cfg) (cfg_r cfg) (RsRecv s) := ix (labels cfg) (RsReduce s)] else ready)"
proof -
  define ks where "ks = owner (cfg_n cfg) (cfg_r cfg) (RsPut s)"
  define kr where "kr = owner (cfg_n cfg) (cfg_r cfg) (RsRecv s)"
  note w = ring_peers [OF ok s, folded ks_def kr_def]
  let ?ls = "ls @ filter (live cfg) [RsPut s]"
  let ?a1 = "a\<lparr>al_chunks := map (chunk_of cfg) ?ls\<rparr>"
  have "labels cfg = ls @ filter (live cfg) [RsPut s] @ filter (live cfg) [RsRecv s, RsReduce s] @ rest" using L by simp
  note put = put_label [OF ok _ _ ks_def this a, of ready, simplified gathers.simps add_0_right]
  have put: "(if 0 < shard_size cfg ks then snd (add_op Put (shard_size cfg ks) (shard_off cfg ks) (shard_off cfg ks) (- 1)
      (int ((cfg_r cfg + 1) mod cfg_n cfg)) (add_dep [] (ready ! ks)) (ks * 2) a) else a) = ?a1"
    by (rule put) (use s ready ks_def in auto)
  have live: "live cfg (RsReduce s) = live cfg (RsRecv s)" "live cfg (RsRecv s) \<longleftrightarrow> 0 < shard_size cfg kr"
    by (simp_all add: live_def kr_def)
  have kr: "kr = owner (cfg_n cfg) (cfg_r cfg) (RsReduce s)" by (simp add: kr_def)
  have nat2: "nat (int k * 2) = k * 2" for k by simp
  show ?thesis
  proof (cases "live cfg (RsRecv s)")
    case True
    have L1: "labels cfg = ?ls @ RsRecv s # RsReduce s # rest" "labels cfg = (?ls @ [RsRecv s]) @ RsReduce s # rest"
      using L True live by simp_all
    have o1: "add_op Recv (shard_size cfg kr) (shard_off cfg kr) (shard_off cfg kr) (int ((cfg_r cfg + cfg_n cfg - 1) mod cfg_n cfg)) (- 1)
        [] (kr * 2) ?a1 = (ix (labels cfg) (RsRecv s), a\<lparr>al_chunks := map (chunk_of cfg) (?ls @ [RsRecv s])\<rparr>)"
      using recv_label [OF ok _ True kr_def L1(1), of ?a1 "[]"] by simp
    have o2: "add_op RecvReduce (shard_size cfg kr) (shard_off cfg kr) (shard_off cfg kr) (int ((cfg_r cfg + cfg_n cfg - 1) mod cfg_n cfg)) (- 1)
        [ix (labels cfg) (RsRecv s)] (kr * 2) (a\<lparr>al_chunks := map (chunk_of cfg) (?ls @ [RsRecv s])\<rparr>) =
        (ix (labels cfg) (RsReduce s), a\<lparr>al_chunks := map (chunk_of cfg) (?ls @ [RsRecv s] @ [RsReduce s])\<rparr>)"
      using recv_label [OF ok _ _ kr L1(2), of "a\<lparr>al_chunks := map (chunk_of cfg) (?ls @ [RsRecv s])\<rparr>"] True live by simp
    show ?thesis unfolding reduce_scatter_step_def Let_def split w nat_int nat2 put o1 o2 kr_def [symmetric]
      using True live by simp
  next
    case False
    then show ?thesis unfolding reduce_scatter_step_def Let_def split w nat_int nat2 put using live by simp
  qed
qed

lemma ag_step_label:
  assumes ok: "ring_ok cfg" and s: "s < cfg_n cfg - 1"
    and L: "labels cfg = ls @ filter (live cfg) [AgPut s, AgRecv s] @ rest"
    and a: "al_chunks a = map (chunk_of cfg) ls"
    and ready: "live cfg (AgPut s) \<Longrightarrow> ready ! owner (cfg_n cfg) (cfg_r cfg) (AgPut s) =
        ix (labels cfg) (if s = 0 then RsReduce (cfg_n cfg - 2) else AgRecv (s - 1))"
  shows "all_gather_step cfg s (a, ready) =
    (a\<lparr>al_chunks := map (chunk_of cfg) (ls @ filter (live cfg) [AgPut s, AgRecv s])\<rparr>,
     if live cfg (AgRecv s) then ready[owner (cfg_n cfg) (cfg_r cfg) (AgRecv s) := ix (labels cfg) (AgRecv s)] else ready)"
proof -
  define ks where "ks = owner (cfg_n cfg) (cfg_r cfg) (AgPut s)"
  define kr where "kr = owner (cfg_n cfg) (cfg_r cfg) (AgRecv s)"
  have kr: "owner (cfg_n cfg) (cfg_r cfg) (RsPut s) = kr" by (simp add: kr_def)
  note w = ring_peers [OF ok s, folded ks_def, unfolded kr]
  let ?ls = "ls @ filter (live cfg) [AgPut s]"
  let ?a1 = "a\<lparr>al_chunks := map (chunk_of cfg) ?ls\<rparr>"
  have "labels cfg = ls @ filter (live cfg) [AgPut s] @ filter (live cfg) [AgRecv s] @ rest" using L by simp
  note put = put_label [OF ok _ _ ks_def this a, of ready]
  have put: "(if 0 < shard_size cfg ks then snd (add_op Put (shard_size cfg ks) (shard_off cfg ks) (shard_off cfg ks) (- 1)
      (int ((cfg_r cfg + 1) mod cfg_n cfg)) (add_dep [] (ready ! ks)) (ks * 2 + 1) a) else a) = ?a1"
    using put s ready ks_def by fastforce
  have live: "live cfg (AgRecv s) \<longleftrightarrow> 0 < shard_size cfg kr" by (simp add: live_def kr_def)
  have nat2: "nat (int k * 2 + 1) = k * 2 + 1" for k by simp
  show ?thesis
  proof (cases "live cfg (AgRecv s)")
    case True
    have L1: "labels cfg = ?ls @ AgRecv s # rest" using L True by simp
    have o1: "add_op Recv (shard_size cfg kr) (shard_off cfg kr) (shard_off cfg kr) (int ((cfg_r cfg + cfg_n cfg - 1) mod cfg_n cfg)) (- 1)
        [] (kr * 2 + 1) ?a1 = (ix (labels cfg) (AgRecv s), a\<lparr>al_chunks := map (chunk_of cfg) (?ls @ [AgRecv s])\<rparr>)"
      using recv_label [OF ok _ True kr_def L1, of ?a1 "[]"] by simp
    show ?thesis unfolding all_gather_step_def Let_def split w nat_int nat2 put o1 kr_def [symmetric]
      using True live by simp
  next
    case False
    then show ?thesis unfolding all_gather_step_def Let_def split w nat_int nat2 put using live by simp
  qed
qed

text \<open>The steps of a phase work on different shards.\<close>

lemma sub_mod_inj:
  assumes "s < n" "s' < n" "n \<le> m" "(m - s) mod n = (m - s') mod n"
  shows "s = (s' :: nat)"
proof -
  have "a = b" if "a \<le> b" "b < n" "(m - a) mod n = (m - b) mod n" for a b
  proof -
    have "n dvd (m - a) - (m - b)" using that(1,3) by (intro mod_eq_dvd_iff_nat [THEN iffD1]) (simp_all add: diff_le_mono2)
    moreover have "(m - a) - (m - b) = b - a" using that assms(3) by linarith
    ultimately show ?thesis using that by (metis diff_is_0_eq dvd_imp_le le_antisym less_imp_diff_less linorder_not_le not_gr_zero)
  qed
  then show ?thesis using assms by (metis linorder_le_cases)
qed

lemma owner_inj:
  assumes "r < n" "s < n - 1" "s' < n - 1"
  shows "owner n r (RsRecv s) = owner n r (RsRecv s') \<longleftrightarrow> s = s'" "owner n r (AgRecv s) = owner n r (AgRecv s') \<longleftrightarrow> s = s'"
  using sub_mod_inj [of "Suc s" n "Suc s'" "r + n"] sub_mod_inj [of s n s' "r + n"] assms by auto

lemma filter_upto_Suc: "m < k \<Longrightarrow> [0..<k] = [0..<m] @ m # [Suc m..<k]"
  by (metis less_imp_le_nat upt_add_eq_append upt_conv_Cons le_add_diff_inverse zero_le add_0)

lemma labels_split:
  assumes "s < cfg_n cfg - 1"
  shows "\<exists>rest. labels cfg = filter (live cfg) (rs_labels s) @ filter (live cfg) [RsPut s, RsRecv s, RsReduce s] @ rest"
    "\<exists>rest. labels cfg = (filter (live cfg) (rs_labels (cfg_n cfg - 1)) @ filter (live cfg) (ag_labels s)) @
       filter (live cfg) [AgPut s, AgRecv s] @ rest"
proof -
  have "\<exists>rest. rs_labels (cfg_n cfg - 1) = rs_labels s @ [RsPut s, RsRecv s, RsReduce s] @ rest"
    unfolding rs_labels_def filter_upto_Suc [OF assms] by auto
  then show "\<exists>rest. labels cfg = filter (live cfg) (rs_labels s) @ filter (live cfg) [RsPut s, RsRecv s, RsReduce s] @ rest"
    unfolding labels_def all_labels_def by (metis (no_types) append_assoc filter_append)
  have "\<exists>rest. ag_labels (cfg_n cfg - 1) = ag_labels s @ [AgPut s, AgRecv s] @ rest"
    unfolding ag_labels_def filter_upto_Suc [OF assms] by auto
  then show "\<exists>rest. labels cfg = (filter (live cfg) (rs_labels (cfg_n cfg - 1)) @ filter (live cfg) (ag_labels s)) @
       filter (live cfg) [AgPut s, AgRecv s] @ rest"
    unfolding labels_def all_labels_def by (metis (no_types) append_assoc filter_append)
qed

lemma rs_fold:
  assumes ok: "ring_ok cfg" and k: "k \<le> cfg_n cfg - 1" and a: "al_chunks a = []"
  shows "\<exists>ready. fold (reduce_scatter_step cfg) [0..<k] (a, replicate (cfg_n cfg) kNoOp) =
      (a\<lparr>al_chunks := map (chunk_of cfg) (filter (live cfg) (rs_labels k))\<rparr>, ready) \<and> length ready = cfg_n cfg \<and>
    (\<forall>s<k. live cfg (RsRecv s) \<longrightarrow> ready ! owner (cfg_n cfg) (cfg_r cfg) (RsRecv s) = ix (labels cfg) (RsReduce s)) \<and>
    (\<forall>j<cfg_n cfg. (\<forall>s<k. owner (cfg_n cfg) (cfg_r cfg) (RsRecv s) \<noteq> j) \<longrightarrow> ready ! j = kNoOp)"
  using k
proof (induction k)
  case 0
  then show ?case using a by (simp add: rs_labels_def)
next
  case (Suc k)
  let ?n = "cfg_n cfg" and ?r = "cfg_r cfg"
  from Suc obtain ready where IH: "fold (reduce_scatter_step cfg) [0..<k] (a, replicate ?n kNoOp) =
      (a\<lparr>al_chunks := map (chunk_of cfg) (filter (live cfg) (rs_labels k))\<rparr>, ready)" "length ready = ?n"
    "\<And>s. s < k \<Longrightarrow> live cfg (RsRecv s) \<Longrightarrow> ready ! owner ?n ?r (RsRecv s) = ix (labels cfg) (RsReduce s)"
    "\<And>j. j < ?n \<Longrightarrow> (\<forall>s<k. owner ?n ?r (RsRecv s) \<noteq> j) \<Longrightarrow> ready ! j = kNoOp" by auto
  have k: "k < ?n - 1" and r: "?r < ?n" using Suc.prems ring_okD [OF ok] by auto
  have own: "owner ?n ?r l < ?n" for l using r by (cases l) auto
  have put: "ready ! owner ?n ?r (RsPut k) = (if k = 0 then kNoOp else ix (labels cfg) (RsReduce (k - 1)))" if "live cfg (RsPut k)"
  proof (cases k)
    case (Suc k')
    then have "owner ?n ?r (RsPut k) = owner ?n ?r (RsRecv k')"
      using owner_waits_for(1) [of ?n "RsPut k" "RsReduce k'" ?r] k r by simp
    then show ?thesis using IH(3) [of k'] that Suc by (simp add: live_def)
  qed (use IH(4) [OF own, of "RsPut 0"] in simp)
  obtain rest where L: "labels cfg = filter (live cfg) (rs_labels k) @ filter (live cfg) [RsPut k, RsRecv k, RsReduce k] @ rest"
    using labels_split(1) [OF k] by blast
  note step = rs_step_label [OF ok k L, of "a\<lparr>al_chunks := map (chunk_of cfg) (filter (live cfg) (rs_labels k))\<rparr>" ready, OF _ put]
  define ready' where "ready' = (if live cfg (RsRecv k) then ready[owner ?n ?r (RsRecv k) := ix (labels cfg) (RsReduce k)] else ready)"
  have "fold (reduce_scatter_step cfg) [0..<Suc k] (a, replicate ?n kNoOp) =
      (a\<lparr>al_chunks := map (chunk_of cfg) (filter (live cfg) (rs_labels (Suc k)))\<rparr>, ready')"
    using IH(1) step by (simp add: ready'_def rs_labels_Suc)
  moreover have "ready' ! owner ?n ?r (RsRecv s) = ix (labels cfg) (RsReduce s)" if "s < Suc k" "live cfg (RsRecv s)" for s
    using that IH(2,3) own owner_inj(1) [OF r _ k, of s] k
    by (cases "s = k") (auto simp: ready'_def nth_list_update simp del: owner.simps)
  moreover have "ready' ! j = kNoOp" if "j < ?n" "\<forall>s<Suc k. owner ?n ?r (RsRecv s) \<noteq> j" for j
    using that IH(4) [of j] by (simp add: ready'_def nth_list_update del: owner.simps)
  moreover have "length ready' = ?n" using IH(2) by (simp add: ready'_def)
  ultimately show ?case by blast
qed

lemma ag_fold:
  assumes ok: "ring_ok cfg" and k: "k \<le> cfg_n cfg - 1" and a: "al_chunks a = map (chunk_of cfg) (filter (live cfg) (rs_labels (cfg_n cfg - 1)))"
    and ready: "length ready = cfg_n cfg"
      "live cfg (AgPut 0) \<Longrightarrow> ready ! owner (cfg_n cfg) (cfg_r cfg) (AgPut 0) = ix (labels cfg) (RsReduce (cfg_n cfg - 2))"
  shows "\<exists>ready'. fold (all_gather_step cfg) [0..<k] (a, ready) =
      (a\<lparr>al_chunks := map (chunk_of cfg) (filter (live cfg) (rs_labels (cfg_n cfg - 1)) @ filter (live cfg) (ag_labels k))\<rparr>, ready') \<and>
    length ready' = cfg_n cfg \<and> (if k = 0 then ready' = ready else
      live cfg (AgRecv (k - 1)) \<longrightarrow> ready' ! owner (cfg_n cfg) (cfg_r cfg) (AgRecv (k - 1)) = ix (labels cfg) (AgRecv (k - 1)))"
  using k
proof (induction k)
  case 0
  then show ?case using a ready(1) by (simp add: ag_labels_def)
next
  case (Suc k)
  let ?n = "cfg_n cfg" and ?r = "cfg_r cfg" and ?rs = "filter (live cfg) (rs_labels (cfg_n cfg - 1))"
  from Suc obtain ready' where IH: "fold (all_gather_step cfg) [0..<k] (a, ready) =
      (a\<lparr>al_chunks := map (chunk_of cfg) (?rs @ filter (live cfg) (ag_labels k))\<rparr>, ready')" "length ready' = ?n"
    "if k = 0 then ready' = ready else
      live cfg (AgRecv (k - 1)) \<longrightarrow> ready' ! owner ?n ?r (AgRecv (k - 1)) = ix (labels cfg) (AgRecv (k - 1))" by auto
  have k: "k < ?n - 1" and r: "?r < ?n" using Suc.prems ring_okD [OF ok] by auto
  have put: "ready' ! owner ?n ?r (AgPut k) = ix (labels cfg) (if k = 0 then RsReduce (?n - 2) else AgRecv (k - 1))" if "live cfg (AgPut k)"
  proof (cases k)
    case (Suc k')
    then have "owner ?n ?r (AgPut k) = owner ?n ?r (AgRecv k')"
      using owner_waits_for(1) [of ?n "AgPut k" "AgRecv k'" ?r] k r by simp
    then show ?thesis using IH(3) that Suc by (simp add: live_def)
  qed (use IH(3) ready(2) that in simp)
  obtain rest where L: "labels cfg = (?rs @ filter (live cfg) (ag_labels k)) @ filter (live cfg) [AgPut k, AgRecv k] @ rest"
    using labels_split(2) [OF k] by blast
  note step = ag_step_label [OF ok k L, of "a\<lparr>al_chunks := map (chunk_of cfg) (?rs @ filter (live cfg) (ag_labels k))\<rparr>" ready', OF _ put]
  have own: "owner ?n ?r (AgRecv k) < ?n" using r by auto
  show ?case using IH(1,2) step own by (simp add: ag_labels_Suc del: owner.simps)
qed

lemma allreduce_chunks:
  assumes ok: "ring_ok cfg"
  shows "al_chunks (build_allreduce_ring_algo cfg) = map (chunk_of cfg) (labels cfg)"
proof -
  let ?n = "cfg_n cfg" and ?r = "cfg_r cfg"
  let ?a = "(make_empty_algo cfg)\<lparr>al_kind := AllReduceRing\<rparr>"
  have n: "nat (cfg_nranks cfg - 1) = ?n - 1" "nat (cfg_nranks cfg) = ?n" by (simp_all add: cfg_n_def nat_diff_distrib')
  have "al_chunks ?a = []" by (simp add: make_empty_algo_def)
  from rs_fold [OF ok order_refl this] obtain ready where rs: "fold (reduce_scatter_step cfg) [0..<?n - 1] (?a, replicate ?n kNoOp) =
      (?a\<lparr>al_chunks := map (chunk_of cfg) (filter (live cfg) (rs_labels (?n - 1)))\<rparr>, ready)" "length ready = ?n"
    "\<And>s. s < ?n - 1 \<Longrightarrow> live cfg (RsRecv s) \<Longrightarrow> ready ! owner ?n ?r (RsRecv s) = ix (labels cfg) (RsReduce s)" by auto
  have "owner ?n ?r (AgPut 0) = owner ?n ?r (RsRecv (?n - 2))" "?n - 2 < ?n - 1"
    using owner_waits_for(1) [of ?n "AgPut 0" "RsReduce (?n - 2)" ?r] ring_okD [OF ok] by simp_all
  then have "ready ! owner ?n ?r (AgPut 0) = ix (labels cfg) (RsReduce (?n - 2))" if "live cfg (AgPut 0)"
    using rs(3) [of "?n - 2"] that by (simp add: live_def)
  from ag_fold [OF ok order_refl _ rs(2) this, of "?a\<lparr>al_chunks := map (chunk_of cfg) (filter (live cfg) (rs_labels (?n - 1)))\<rparr>"]
  have "al_chunks (fst (fold (all_gather_step cfg) [0..<?n - 1]
      (?a\<lparr>al_chunks := map (chunk_of cfg) (filter (live cfg) (rs_labels (?n - 1)))\<rparr>, ready))) = map (chunk_of cfg) (labels cfg)"
    by (auto simp: labels_def all_labels_def)
  then show ?thesis unfolding build_allreduce_ring_algo_def Let_def n rs(1) .
qed

end
