(* ===== verification/CollLower.thy ===== *)
theory CollLower
  imports CollGraph
begin

text \<open>
  Lowering of a chunk graph (\<open>lower.cc\<close>): chunks are cut into tiles, the dependencies of chunks become
  dependencies of tiles, and transfers between ranks get a \<open>Signal\<close> at the sender and a \<open>WaitSignal\<close> at
  the receiver for every group of tiles. A put may be staged through a scratch buffer, and a
  reduction in place first copies the local shard.
\<close>

section \<open>Types\<close>

datatype ExecOpKind = EPut | EReduce | ESignal | EWaitSignal

datatype CollectiveBufferRole = Input | Output | Scratch

text \<open>\<open>~0u\<close> as a peer is the local rank.\<close>

definition local_peer :: nat where
  "local_peer = 4294967295"

record Op =
  op_kind :: AlgoOpKind
  op_bytes :: nat
  op_src_off :: nat
  op_dst_off :: nat
  op_src_peer :: nat
  op_dst_peer :: nat
  op_deps :: "nat list"

record TiledOp =
  t_kind :: ExecOpKind
  t_bytes :: nat
  t_src_off :: nat
  t_dst_off :: nat
  t_src_peer :: nat
  t_dst_peer :: nat
  t_tag :: u64
  t_deps :: "nat list"
  t_src_buf_role :: CollectiveBufferRole
  t_dst_buf_role :: CollectiveBufferRole

definition TiledOp_new :: TiledOp where
  "TiledOp_new = \<lparr>t_kind = EPut, t_bytes = 0, t_src_off = 0, t_dst_off = 0, t_src_peer = 0, t_dst_peer = 0, t_tag = 0,
     t_deps = [], t_src_buf_role = Input, t_dst_buf_role = Output\<rparr>"

record TiledResult =
  tr_ops :: "TiledOp list"
  tr_staging_bytes_required :: nat
  tr_input_bytes :: nat
  tr_output_bytes :: nat
  tr_rank :: int
  tr_nranks :: int
  tr_reduction :: ReductionKind
  tr_fused_put_signal :: "(nat \<times> nat) list"
  tr_sig_group_size :: "(nat \<times> nat) list"
  tr_wait_group_size :: "(nat \<times> nat) list"

section \<open>Tiles\<close>

definition u32_of_int :: "int \<Rightarrow> nat" where
  "u32_of_int x = nat (x mod 2 ^ 32)"

definition peer_of_rank :: "int \<Rightarrow> nat" where
  "peer_of_rank r = (if r < 0 then local_peer else u32_of_int r)"

primrec tile_loop :: "nat \<Rightarrow> Chunk \<Rightarrow> nat \<Rightarrow> nat \<Rightarrow> Op list" where
  "tile_loop 0 c tile_bytes off = []"
| "tile_loop (Suc num_tiles) c tile_bytes off =
     \<lparr>op_kind = ch_op c, op_bytes = min tile_bytes (ch_bytes c - off), op_src_off = ch_src_off c + off,
      op_dst_off = ch_dst_off c + off, op_src_peer = peer_of_rank (ch_src_rank c),
      op_dst_peer = peer_of_rank (ch_dst_rank c), op_deps = []\<rparr>
     # tile_loop num_tiles c tile_bytes (off + tile_bytes)"

definition num_tiles_of :: "nat \<Rightarrow> Chunk \<Rightarrow> nat" where
  "num_tiles_of tile_bytes c = ceil_div (ch_bytes c) tile_bytes"

fun tile_chunks :: "nat \<Rightarrow> Chunk list \<Rightarrow> Op list \<times> nat list \<Rightarrow> Op list \<times> nat list" where
  "tile_chunks tile_bytes [] (ops, first_tile) = (ops, first_tile)"
| "tile_chunks tile_bytes (c # cs) (ops, first_tile) =
     tile_chunks tile_bytes cs
       (ops @ tile_loop (num_tiles_of tile_bytes c) c tile_bytes 0, first_tile @ [length ops])"

definition push_dep :: "nat \<Rightarrow> nat \<Rightarrow> Op list \<Rightarrow> Op list" where
  "push_dep i dep ops = ops[i := (ops ! i)\<lparr>op_deps := op_deps (ops ! i) @ [u32_wrap dep]\<rparr>]"

definition propagate_dep :: "nat list \<Rightarrow> nat list \<Rightarrow> nat \<Rightarrow> nat \<Rightarrow> Op list \<Rightarrow> Op list" where
  "propagate_dep first_tile tiles_per_chunk i dep_idx ops =
     (let common = min (tiles_per_chunk ! i) (tiles_per_chunk ! dep_idx)
      in fold (\<lambda>t. push_dep (first_tile ! i + t) (first_tile ! dep_idx + t)) [0..<common] ops)"

definition propagate_deps :: "Chunk list \<Rightarrow> nat list \<Rightarrow> nat list \<Rightarrow> Op list \<Rightarrow> Op list" where
  "propagate_deps chunks first_tile tiles_per_chunk ops =
     fold (\<lambda>i. fold (propagate_dep first_tile tiles_per_chunk i) (ch_deps (chunks ! i))) [0..<length chunks] ops"

definition make_tag :: "nat \<Rightarrow> nat \<Rightarrow> u64" where
  "make_tag pair_id tile_idx = push_bit 16 (of_nat pair_id) OR of_nat tile_idx"

definition op_to_tiled :: "Op \<Rightarrow> TiledOp" where
  "op_to_tiled p = TiledOp_new\<lparr>t_kind := EPut, t_bytes := op_bytes p, t_src_off := op_src_off p, t_dst_off := op_dst_off p,
     t_src_peer := op_src_peer p, t_dst_peer := op_dst_peer p, t_src_buf_role := Input, t_dst_buf_role := Output,
     t_deps := op_deps p\<rparr>"

section \<open>Lowering\<close>

text \<open>The state of the loop over chunks, and that of the loop over the tiles of a chunk.\<close>

record LowerState =
  lo_out :: "TiledOp list"
  lo_old_to_new :: "nat list"
  lo_new_deps :: "(nat \<times> nat) list"
  lo_staging_bytes :: nat
  lo_staging_bytes_out :: nat
  lo_put_signal :: "(nat \<times> nat) list"
  lo_sig_groups :: "(nat \<times> nat) list"
  lo_wait_groups :: "(nat \<times> nat) list"
  lo_cp_indices :: "nat list"
  lo_put_indices :: "nat list"
  lo_snap_cp_indices :: "nat list"
  lo_sig_group_puts :: "nat list"
  lo_cur_group_ws :: nat
  lo_chunk_staging :: nat

definition emit :: "TiledOp \<Rightarrow> LowerState \<Rightarrow> LowerState" where
  "emit p s = s\<lparr>lo_out := lo_out s @ [p]\<rparr>"

definition out_size :: "LowerState \<Rightarrow> nat" where
  "out_size s = u32_wrap (length (lo_out s))"

definition new_dep :: "nat \<Rightarrow> nat \<Rightarrow> LowerState \<Rightarrow> LowerState" where
  "new_dep target dep s = s\<lparr>lo_new_deps := lo_new_deps s @ [(target, dep)]\<rparr>"

definition fits_imm :: "u64 \<Rightarrow> bool" where
  "fits_imm tag \<longleftrightarrow> tag \<le> 0xFFFFFFFF"

text \<open>The signal that ends a group of puts.\<close>

definition signal_group :: "nat \<Rightarrow> nat \<Rightarrow> nat \<Rightarrow> nat \<Rightarrow> nat \<Rightarrow> nat \<Rightarrow> LowerState \<Rightarrow> LowerState" where
  "signal_group G num_tiles pair_id dst_peer put_idx t s =
     (let s1 = s\<lparr>lo_sig_group_puts := lo_sig_group_puts s @ [put_idx]\<rparr>
      in if t mod G = G - 1 \<or> t + 1 = num_tiles
         then (let tag = make_tag pair_id (t div G);
                   sig_idx = out_size s1;
                   s2 = fold (\<lambda>pi. new_dep sig_idx pi) (lo_sig_group_puts s1) s1;
                   s3 = emit (TiledOp_new\<lparr>t_kind := ESignal, t_dst_peer := dst_peer, t_tag := tag\<rparr>) s2;
                   s4 = (if fits_imm tag
                         then s3\<lparr>lo_put_signal := lo_put_signal s3 @ map (Pair sig_idx) (lo_sig_group_puts s3),
                                 lo_sig_groups := lo_sig_groups s3 @ [(sig_idx, length (lo_sig_group_puts s3))]\<rparr>
                         else s3)
               in s4\<lparr>lo_sig_group_puts := []\<rparr>)
         else s1)"

definition lower_put_staged :: "nat \<Rightarrow> nat \<Rightarrow> nat \<Rightarrow> nat \<Rightarrow> nat \<Rightarrow> Op \<Rightarrow> LowerState \<Rightarrow> LowerState" where
  "lower_put_staged G num_tiles pair_id old_idx t p s =
     (let staging_off = lo_chunk_staging s;
          cp_idx = out_size s;
          s1 = emit (TiledOp_new\<lparr>t_kind := EPut, t_bytes := op_bytes p, t_src_off := op_src_off p, t_dst_off := staging_off,
                  t_src_peer := local_peer, t_dst_peer := local_peer, t_src_buf_role := Input, t_dst_buf_role := Scratch,
                  t_deps := op_deps p\<rparr>)
                 (s\<lparr>lo_chunk_staging := lo_chunk_staging s + op_bytes p, lo_cp_indices := lo_cp_indices s @ [cp_idx]\<rparr>);
          put_idx = out_size s1;
          s2 = emit (TiledOp_new\<lparr>t_kind := EPut, t_bytes := op_bytes p, t_src_off := staging_off, t_dst_off := op_dst_off p,
                  t_src_peer := local_peer, t_dst_peer := op_dst_peer p, t_src_buf_role := Scratch, t_dst_buf_role := Output\<rparr>)
                 (s1\<lparr>lo_old_to_new := (lo_old_to_new s1)[old_idx := put_idx]\<rparr>);
          s3 = new_dep put_idx cp_idx (s2\<lparr>lo_put_indices := lo_put_indices s2 @ [put_idx]\<rparr>)
      in signal_group G num_tiles pair_id (op_dst_peer p) put_idx t s3)"

definition lower_put_direct :: "nat \<Rightarrow> nat \<Rightarrow> nat \<Rightarrow> nat \<Rightarrow> nat \<Rightarrow> Op \<Rightarrow> LowerState \<Rightarrow> LowerState" where
  "lower_put_direct G num_tiles pair_id old_idx t p s =
     (let put_idx = out_size s;
          put = (if op_deps p \<noteq> [] \<and> op_src_peer p = local_peer then (op_to_tiled p)\<lparr>t_src_buf_role := Output\<rparr>
                 else op_to_tiled p);
          s1 = emit put (s\<lparr>lo_old_to_new := (lo_old_to_new s)[old_idx := put_idx]\<rparr>);
          s2 = s1\<lparr>lo_put_indices := lo_put_indices s1 @ [put_idx]\<rparr>
      in signal_group G num_tiles pair_id (op_dst_peer p) put_idx t s2)"

definition lower_recv :: "nat \<Rightarrow> nat \<Rightarrow> nat \<Rightarrow> nat \<Rightarrow> nat \<Rightarrow> Op \<Rightarrow> LowerState \<Rightarrow> LowerState" where
  "lower_recv G num_tiles pair_id old_idx t p s =
     (let s1 =
        (if t mod G = 0
         then (let tag = make_tag pair_id (t div G);
                   ws = out_size s;
                   s2 = emit (TiledOp_new\<lparr>t_kind := EWaitSignal, t_src_peer := op_src_peer p, t_tag := tag\<rparr>)
                          (s\<lparr>lo_cur_group_ws := ws\<rparr>)
               in if fits_imm tag
                  then s2\<lparr>lo_wait_groups := lo_wait_groups s2 @ [(ws, min G (num_tiles - t))]\<rparr>
                  else s2)
         else s)
      in s1\<lparr>lo_old_to_new := (lo_old_to_new s1)[old_idx := lo_cur_group_ws s1]\<rparr>)"

definition lower_reduce_inplace :: "nat \<Rightarrow> Op \<Rightarrow> LowerState \<Rightarrow> LowerState" where
  "lower_reduce_inplace old_idx p s =
     (let staging_off = lo_staging_bytes s;
          cp_idx = out_size s;
          s1 = emit (TiledOp_new\<lparr>t_kind := EPut, t_bytes := op_bytes p, t_src_off := op_dst_off p, t_dst_off := staging_off,
                  t_src_peer := local_peer, t_dst_peer := local_peer, t_src_buf_role := Output, t_dst_buf_role := Scratch\<rparr>)
                 (s\<lparr>lo_staging_bytes := lo_staging_bytes s + op_bytes p\<rparr>);
          s2 = s1\<lparr>lo_snap_cp_indices := lo_snap_cp_indices s1 @ [cp_idx]\<rparr>;
          red_idx = out_size s2;
          s3 = new_dep red_idx cp_idx s2
      in emit (TiledOp_new\<lparr>t_kind := EReduce, t_bytes := op_bytes p, t_src_off := staging_off, t_dst_off := op_dst_off p,
                 t_src_peer := local_peer, t_dst_peer := local_peer, t_src_buf_role := Scratch, t_dst_buf_role := Output,
                 t_deps := op_deps p\<rparr>)
           (s3\<lparr>lo_old_to_new := (lo_old_to_new s3)[old_idx := red_idx]\<rparr>))"

definition lower_reduce_direct :: "nat \<Rightarrow> Op \<Rightarrow> LowerState \<Rightarrow> LowerState" where
  "lower_reduce_direct old_idx p s =
     emit (TiledOp_new\<lparr>t_kind := EReduce, t_bytes := op_bytes p, t_src_off := op_src_off p, t_dst_off := op_dst_off p,
             t_src_peer := local_peer, t_dst_peer := local_peer, t_src_buf_role := Input, t_dst_buf_role := Output,
             t_deps := op_deps p\<rparr>)
       (s\<lparr>lo_old_to_new := (lo_old_to_new s)[old_idx := out_size s]\<rparr>)"

text \<open>The switches of a lowering.\<close>

record LowerOpts =
  lo_inplace :: bool
  lo_stage_puts :: bool
  lo_reduce_snap_hs :: bool
  lo_signal_group_tiles :: nat

definition group_factor :: "LowerOpts \<Rightarrow> nat" where
  "group_factor opts = (if lo_signal_group_tiles opts \<noteq> 0 then lo_signal_group_tiles opts else 1)"

definition lower_tile :: "LowerOpts \<Rightarrow> Op list \<Rightarrow> nat \<Rightarrow> nat \<Rightarrow> Chunk \<Rightarrow> nat \<Rightarrow> LowerState \<Rightarrow> LowerState" where
  "lower_tile opts ops first num_tiles ch t s =
     (let G = group_factor opts; old_idx = first + t; p = ops ! old_idx
      in if op_kind p = Put \<and> ch_pair_id ch \<noteq> kNoPairId
         then (if lo_stage_puts opts then lower_put_staged G num_tiles (ch_pair_id ch) old_idx t p s
               else lower_put_direct G num_tiles (ch_pair_id ch) old_idx t p s)
         else if op_kind p = Recv then lower_recv G num_tiles (ch_pair_id ch) old_idx t p s
         else if op_kind p = RecvReduce
         then (if lo_inplace opts then lower_reduce_inplace old_idx p s else lower_reduce_direct old_idx p s)
         else s)"

text \<open>The barrier of staged puts: the copies are done on both sides before any put.\<close>

definition copies_done_barrier :: "LowerOpts \<Rightarrow> Chunk \<Rightarrow> LowerState \<Rightarrow> LowerState" where
  "copies_done_barrier opts ch s =
     (if lo_stage_puts opts \<and> lo_put_indices s \<noteq> []
      then (let tag = make_tag (ch_pair_id ch) 0xFFFF;
                peer = u32_of_int (ch_dst_rank ch);
                sig_cd_idx = out_size s;
                s1 = fold (\<lambda>ci. new_dep sig_cd_idx ci) (lo_cp_indices s) s;
                s2 = emit (TiledOp_new\<lparr>t_kind := ESignal, t_dst_peer := peer, t_tag := tag\<rparr>) s1;
                ws_cd_idx = out_size s2;
                s3 = emit (TiledOp_new\<lparr>t_kind := EWaitSignal, t_src_peer := peer, t_tag := tag\<rparr>) s2
            in fold (\<lambda>pi. new_dep pi ws_cd_idx) (lo_put_indices s3) s3)
      else s)"

text \<open>The handshake of the reduction in place: the shard is copied before the peer overwrites it.\<close>

definition snapshot_handshake :: "LowerOpts \<Rightarrow> Chunk \<Rightarrow> LowerState \<Rightarrow> LowerState" where
  "snapshot_handshake opts ch s =
     (if lo_reduce_snap_hs opts \<and> ch_pair_id ch \<noteq> kNoPairId \<and> ch_pair_id ch mod 2 = 0
      then (let tag = make_tag (ch_pair_id ch) 0xFFFE;
                s1 = (if lo_snap_cp_indices s \<noteq> []
                      then (let sig_idx = out_size s
                            in emit (TiledOp_new\<lparr>t_kind := ESignal, t_dst_peer := u32_of_int (ch_src_rank ch), t_tag := tag\<rparr>)
                                 (fold (\<lambda>ci. new_dep sig_idx ci) (lo_snap_cp_indices s) s))
                      else s)
            in if lo_put_indices s1 \<noteq> []
               then (let ws_idx = out_size s1;
                         s2 = emit (TiledOp_new\<lparr>t_kind := EWaitSignal, t_src_peer := u32_of_int (ch_dst_rank ch), t_tag := tag\<rparr>) s1
                     in fold (\<lambda>pi. new_dep pi ws_idx) (lo_put_indices s2) s2)
               else s1)
      else s)"

definition lower_chunk :: "LowerOpts \<Rightarrow> Op list \<Rightarrow> Chunk \<times> nat \<times> nat \<Rightarrow> LowerState \<Rightarrow> LowerState" where
  "lower_chunk opts ops = (\<lambda>(ch, first, num_tiles) s.
     let s0 = s\<lparr>lo_cp_indices := [], lo_put_indices := [], lo_snap_cp_indices := [], lo_sig_group_puts := [],
                lo_cur_group_ws := kNoOp, lo_chunk_staging := 0\<rparr>;
         s1 = fold (lower_tile opts ops first num_tiles ch) [0..<num_tiles] s0;
         s2 = snapshot_handshake opts ch (copies_done_barrier opts ch s1)
     in s2\<lparr>lo_staging_bytes_out := max (lo_chunk_staging s2) (lo_staging_bytes_out s2)\<rparr>)"

definition remap_dep :: "nat \<Rightarrow> nat list \<Rightarrow> nat \<Rightarrow> nat" where
  "remap_dep n_old old_to_new dep =
     (if dep < n_old \<and> old_to_new ! dep \<noteq> kNoOp then old_to_new ! dep else dep)"

definition add_new_dep :: "nat \<times> nat \<Rightarrow> TiledOp list \<Rightarrow> TiledOp list" where
  "add_new_dep = (\<lambda>(target, dep) out. out[target := (out ! target)\<lparr>t_deps := t_deps (out ! target) @ [dep]\<rparr>])"

definition LowerState_new :: "nat \<Rightarrow> LowerState" where
  "LowerState_new n_old = \<lparr>lo_out = [], lo_old_to_new = replicate n_old kNoOp, lo_new_deps = [], lo_staging_bytes = 0,
     lo_staging_bytes_out = 0, lo_put_signal = [], lo_sig_groups = [], lo_wait_groups = [], lo_cp_indices = [],
     lo_put_indices = [], lo_snap_cp_indices = [], lo_sig_group_puts = [], lo_cur_group_ws = kNoOp, lo_chunk_staging = 0\<rparr>"

definition lower_to_tiled ::
  "LowerOpts \<Rightarrow> Op list \<Rightarrow> Chunk list \<Rightarrow> nat list \<Rightarrow> nat list \<Rightarrow> TiledOp list \<times> LowerState" where
  "lower_to_tiled opts ops chunks first_tile tiles_per_chunk =
     (let n_old = length ops;
          s = fold (lower_chunk opts ops) (zip chunks (zip first_tile tiles_per_chunk)) (LowerState_new n_old);
          s' = s\<lparr>lo_staging_bytes := max (lo_staging_bytes_out s) (lo_staging_bytes s)\<rparr>;
          out1 = map (\<lambda>p. p\<lparr>t_deps := map (remap_dep n_old (lo_old_to_new s)) (t_deps p)\<rparr>) (lo_out s);
          out2 = fold add_new_dep (lo_new_deps s) out1
      in (out2, s'))"

definition lower_algo :: "CollAlgo \<Rightarrow> nat \<Rightarrow> LowerOpts \<Rightarrow> coll_error + TiledResult" where
  "lower_algo algo tile_bytes opts =
     (if tile_bytes = 0 then Inl ZeroTileBytes
      else
        (let result = \<lparr>tr_ops = [], tr_staging_bytes_required = 0, tr_input_bytes = al_input_bytes algo,
                tr_output_bytes = al_output_bytes algo, tr_rank = al_rank algo, tr_nranks = al_nranks algo,
                tr_reduction = al_reduction algo, tr_fused_put_signal = [], tr_sig_group_size = [], tr_wait_group_size = []\<rparr>
         in if al_chunks algo = [] then Inr result
            else
              (let chunks = al_chunks algo;
                   tiles_per_chunk = map (num_tiles_of tile_bytes) chunks;
                   (ops0, first_tile) = tile_chunks tile_bytes chunks ([], []);
                   ops = propagate_deps chunks first_tile tiles_per_chunk ops0;
                   (out, s) = lower_to_tiled opts ops chunks first_tile tiles_per_chunk
               in Inr (result\<lparr>tr_ops := out, tr_staging_bytes_required := lo_staging_bytes s,
                              tr_fused_put_signal := lo_put_signal s, tr_sig_group_size := lo_sig_groups s,
                              tr_wait_group_size := lo_wait_groups s\<rparr>))))"

definition build_tiled :: "CollectiveConfig \<Rightarrow> bool \<Rightarrow> coll_error + TiledResult" where
  "build_tiled cfg inplace =
     (if cfg_kind cfg = AllToAllPairwise \<and> \<not> inplace then Inl AllToAllNotInplace
      else (case build_coll_algo cfg of
              Inl e \<Rightarrow> Inl e
            | Inr algo \<Rightarrow>
                lower_algo algo (cfg_tile_bytes cfg)
                  \<lparr>lo_inplace = inplace,
                   lo_stage_puts = (cfg_kind cfg = AllToAllPairwise \<and> inplace \<and> cfg_input_split_bytes cfg \<noteq> []),
                   lo_reduce_snap_hs = (cfg_kind cfg = AllReduceRing \<and> inplace),
                   lo_signal_group_tiles = cfg_signal_group_tiles cfg\<rparr>))"

end
