(* ===== verification/CollTiles.thy ===== *)
theory CollTiles
  imports CollLower
begin

text \<open>
  Tiles and their dependencies: the tiles of a chunk are consecutive pieces of it that cover it, and
  tile \<open>t\<close> of a chunk waits for tile \<open>t\<close> of every chunk it depends on.
\<close>

section \<open>Blocks of a list\<close>

definition start :: "nat list \<Rightarrow> nat \<Rightarrow> nat" where
  "start ns i = sum_list (take i ns)"

lemma start_0 [simp]: "start ns 0 = 0"
  by (simp add: start_def)

lemma start_Suc: "i < length ns \<Longrightarrow> start ns (Suc i) = start ns i + ns ! i"
  by (simp add: start_def take_Suc_conv_app_nth)

lemma start_mono: "i \<le> j \<Longrightarrow> start ns i \<le> start ns j"
  unfolding start_def by (metis append_take_drop_id le_add1 min.absorb1 sum_list_append take_take)

lemma start_end: "start ns (length ns) = sum_list ns"
  by (simp add: start_def)

lemma start_less:
  assumes "i < length ns" "t < ns ! i"
  shows "start ns i + t < sum_list ns"
proof -
  have "start ns i + t < start ns (Suc i)" using assms by (simp add: start_Suc)
  also have "\<dots> \<le> start ns (length ns)" using assms(1) by (intro start_mono) simp
  finally show ?thesis by (simp add: start_end)
qed

lemma start_inj:
  assumes "i < length ns" "t < ns ! i" "j < length ns" "u < ns ! j" "start ns i + t = start ns j + u"
  shows "i = j" "t = u"
proof -
  have less: "start ns a + x < start ns b + y" if "a < b" "a < length ns" "x < ns ! a" for a b x y
    using start_mono [of "Suc a" b ns] that by (simp add: start_Suc)
  show "i = j" using less [of i j t u] less [of j i u t] assms by (metis less_irrefl linorder_neqE_nat)
  then show "t = u" using assms(5) by simp
qed

lemma start_find:
  assumes "m < sum_list ns"
  shows "\<exists>i t. i < length ns \<and> t < ns ! i \<and> m = start ns i + t"
  using assms
proof (induction ns rule: rev_induct)
  case (snoc x ns)
  show ?case
  proof (cases "m < sum_list ns")
    case True
    then obtain i t where "i < length ns" "t < ns ! i" "m = start ns i + t" using snoc.IH by blast
    then show ?thesis by (intro exI [of _ i] exI [of _ t]) (simp add: nth_append start_def)
  next
    case False
    then show ?thesis using snoc.prems
      by (intro exI [of _ "length ns"] exI [of _ "m - sum_list ns"]) (simp add: start_def)
  qed
qed simp

lemma concat_nth:
  assumes "i < length xss" "t < length (xss ! i)"
  shows "concat xss ! (start (map length xss) i + t) = xss ! i ! t"
  using assms
proof (induction xss arbitrary: i)
  case (Cons xs xss)
  show ?case
  proof (cases i)
    case (Suc j)
    then show ?thesis using Cons by (simp add: start_def nth_append)
  qed (use Cons in \<open>simp add: start_def nth_append\<close>)
qed simp

section \<open>Tiles\<close>

definition tile :: "nat \<Rightarrow> Chunk \<Rightarrow> nat \<Rightarrow> Op" where
  "tile tile_bytes c t =
     \<lparr>op_kind = ch_op c, op_bytes = min tile_bytes (ch_bytes c - t * tile_bytes), op_src_off = ch_src_off c + t * tile_bytes,
      op_dst_off = ch_dst_off c + t * tile_bytes, op_src_peer = peer_of_rank (ch_src_rank c),
      op_dst_peer = peer_of_rank (ch_dst_rank c), op_deps = []\<rparr>"

lemma tile_loop_eq: "tile_loop m c tile_bytes (k * tile_bytes) = map (tile tile_bytes c) [k..<k + m]"
proof (induction m arbitrary: k)
  case (Suc m)
  have "tile_loop m c tile_bytes (Suc k * tile_bytes) = map (tile tile_bytes c) [Suc k..<Suc k + m]" by (rule Suc)
  then show ?case by (simp add: upt_rec [of k] tile_def add.commute)
qed simp

lemma tile_chunks_eq:
  "tile_chunks tile_bytes cs (ops, fs) =
     (ops @ concat (map (\<lambda>c. map (tile tile_bytes c) [0..<num_tiles_of tile_bytes c]) cs),
      fs @ map (\<lambda>i. length ops + start (map (num_tiles_of tile_bytes) cs) i) [0..<length cs])"
proof (induction cs arbitrary: ops fs)
  case (Cons c cs)
  have u: "[0..<length (c # cs)] = 0 # map Suc [0..<length cs]" by (simp add: upt_conv_Cons map_Suc_upt del: upt_Suc)
  have "map (\<lambda>i. length ops + start (map (num_tiles_of tile_bytes) (c # cs)) i) [0..<length (c # cs)] =
      length ops # map (\<lambda>i. length ops + num_tiles_of tile_bytes c + start (map (num_tiles_of tile_bytes) cs) i) [0..<length cs]"
    unfolding u by (simp add: start_def comp_def add.assoc)
  then show ?case using tile_loop_eq [of "num_tiles_of tile_bytes c" c tile_bytes 0]
    by (simp add: Cons add.assoc del: upt_Suc)
qed simp

text \<open>The tiles cut a chunk into consecutive pieces.\<close>

lemma tiles_cover:
  assumes "0 < tile_bytes" "ch_bytes c + tile_bytes \<le> 2 ^ 64" "0 < ch_bytes c"
  shows "0 < num_tiles_of tile_bytes c"
    "t < num_tiles_of tile_bytes c \<longleftrightarrow> t * tile_bytes < ch_bytes c"
proof -
  have "ch_bytes c + tile_bytes - 1 < 2 ^ 64" using assms by linarith
  then have n: "num_tiles_of tile_bytes c = (ch_bytes c + tile_bytes - 1) div tile_bytes"
    using assms(1) by (simp add: num_tiles_of_def ceil_div_def u64_wrap_less)
  have iff: "t < num_tiles_of tile_bytes c \<longleftrightarrow> t * tile_bytes < ch_bytes c" for t
  proof -
    have "t < (ch_bytes c + tile_bytes - 1) div tile_bytes \<longleftrightarrow> Suc t * tile_bytes \<le> ch_bytes c + tile_bytes - 1"
      using less_eq_div_iff_mult_less_eq [OF assms(1), of "Suc t"] by (simp add: Suc_le_eq)
    moreover have "Suc t * tile_bytes = t * tile_bytes + tile_bytes" by simp
    ultimately show ?thesis unfolding n using assms(1) by linarith
  qed
  show "t < num_tiles_of tile_bytes c \<longleftrightarrow> t * tile_bytes < ch_bytes c" by (rule iff)
  from iff [of 0] show "0 < num_tiles_of tile_bytes c" using assms(3) by simp
qed

section \<open>Dependencies of tiles\<close>

text \<open>What tile \<open>t\<close> of chunk \<open>i\<close> has collected after the dependencies \<open>ds\<close>.\<close>

definition tile_deps :: "nat list \<Rightarrow> nat list \<Rightarrow> nat \<Rightarrow> nat list" where
  "tile_deps ns ds t = concat (map (\<lambda>d. if t < ns ! d then [u32_wrap (start ns d + t)] else []) ds)"

lemma push_deps_range:
  assumes "b + m \<le> length ops"
  shows "fold (\<lambda>t. push_dep (b + t) (d + t)) [0..<m] ops =
    map (\<lambda>j. if b \<le> j \<and> j < b + m then (ops ! j)\<lparr>op_deps := op_deps (ops ! j) @ [u32_wrap (d + (j - b))]\<rparr> else ops ! j) [0..<length ops]"
  using assms
proof (induction m)
  case (Suc m)
  then have IH: "fold (\<lambda>t. push_dep (b + t) (d + t)) [0..<m] ops =
    map (\<lambda>j. if b \<le> j \<and> j < b + m then (ops ! j)\<lparr>op_deps := op_deps (ops ! j) @ [u32_wrap (d + (j - b))]\<rparr> else ops ! j) [0..<length ops]"
    by simp
  have lt: "b + m < length ops" using Suc.prems by simp
  have e: "fold (\<lambda>t. push_dep (b + t) (d + t)) [0..<Suc m] ops =
      push_dep (b + m) (d + m) (fold (\<lambda>t. push_dep (b + t) (d + t)) [0..<m] ops)" by simp
  show ?case unfolding e IH unfolding push_dep_def using lt by (intro nth_equalityI) (auto simp: nth_list_update)
qed (auto intro!: nth_equalityI)

definition with_deps :: "(nat \<Rightarrow> nat \<Rightarrow> nat list) \<Rightarrow> nat list \<Rightarrow> Op list \<Rightarrow> Op list \<Rightarrow> bool" where
  "with_deps D ns ops0 ops \<longleftrightarrow> length ops = sum_list ns \<and>
     (\<forall>i<length ns. \<forall>t<ns ! i. ops ! (start ns i + t) = (ops0 ! (start ns i + t))\<lparr>op_deps := D i t\<rparr>)"

lemma propagate_dep_ok:
  assumes "with_deps D ns ops0 ops" "i < length ns" "fs = map (start ns) [0..<length ns]" "d < length ns"
  shows "with_deps (\<lambda>j t. if j = i \<and> t < ns ! d then D j t @ [u32_wrap (start ns d + t)] else D j t) ns ops0
    (propagate_dep fs ns i d ops)"
proof -
  have len: "length ops = sum_list ns" using assms(1) by (simp add: with_deps_def)
  define m where "m = min (ns ! i) (ns ! d)"
  have "start ns i + m \<le> start ns (Suc i)" using assms(2) by (simp add: start_Suc m_def)
  also have "\<dots> \<le> sum_list ns" using start_mono [of "Suc i" "length ns" ns] assms(2) by (simp add: start_end)
  finally have fit: "start ns i + m \<le> length ops" using len by simp
  have e: "propagate_dep fs ns i d ops = map (\<lambda>j. if start ns i \<le> j \<and> j < start ns i + m
      then (ops ! j)\<lparr>op_deps := op_deps (ops ! j) @ [u32_wrap (start ns d + (j - start ns i))]\<rparr> else ops ! j) [0..<length ops]"
    unfolding propagate_dep_def Let_def m_def [symmetric] using assms(2-4) push_deps_range [OF fit] by simp
  show ?thesis unfolding with_deps_def
  proof (intro conjI allI impI)
    fix j t assume jt: "j < length ns" "t < ns ! j"
    have lt: "start ns j + t < length ops" using start_less [OF jt] len by simp
    have old: "ops ! (start ns j + t) = (ops0 ! (start ns j + t))\<lparr>op_deps := D j t\<rparr>" using assms(1) jt by (simp add: with_deps_def)
    have "start ns i \<le> start ns j + t \<and> start ns j + t < start ns i + m \<longleftrightarrow> j = i \<and> t < ns ! d"
    proof
      assume r: "start ns i \<le> start ns j + t \<and> start ns j + t < start ns i + m"
      then have "start ns j + t = start ns i + (start ns j + t - start ns i)" "start ns j + t - start ns i < ns ! i"
        by (auto simp: m_def)
      from start_inj [OF jt assms(2) this(2,1)] show "j = i \<and> t < ns ! d" using r by (auto simp: m_def)
    qed (use jt in \<open>auto simp: m_def\<close>)
    then show "propagate_dep fs ns i d ops ! (start ns j + t) =
        (ops0 ! (start ns j + t))\<lparr>op_deps := if j = i \<and> t < ns ! d then D j t @ [u32_wrap (start ns d + t)] else D j t\<rparr>"
      using lt old by (auto simp: e)
  qed (simp add: e len)
qed

lemma propagate_chunk_ok:
  assumes "with_deps D ns ops0 ops" "i < length ns" "fs = map (start ns) [0..<length ns]" "set ds \<subseteq> {..<length ns}"
  shows "with_deps (\<lambda>j t. if j = i then D j t @ tile_deps ns ds t else D j t) ns ops0 (fold (propagate_dep fs ns i) ds ops)"
  using assms
proof (induction ds arbitrary: D ops)
  case Nil
  then show ?case by (simp add: tile_deps_def with_deps_def)
next
  case (Cons d ds)
  have "with_deps (\<lambda>j t. if j = i \<and> t < ns ! d then D j t @ [u32_wrap (start ns d + t)] else D j t) ns ops0
      (propagate_dep fs ns i d ops)"
    using Cons.prems by (intro propagate_dep_ok) auto
  from Cons.IH [OF this Cons.prems(2,3)] Cons.prems(4) show ?case
    by (simp add: with_deps_def tile_deps_def)
qed

lemma propagate_deps_ok:
  assumes "length ops = sum_list ns" "length chunks = length ns" "fs = map (start ns) [0..<length ns]"
    "\<And>i. i < length ns \<Longrightarrow> set (ch_deps (chunks ! i)) \<subseteq> {..<length ns}" "\<And>p. p \<in> set ops \<Longrightarrow> op_deps p = []"
  shows "with_deps (\<lambda>i. tile_deps ns (ch_deps (chunks ! i))) ns ops (propagate_deps chunks fs ns ops)"
proof -
  have "with_deps (\<lambda>i t. if i < k then tile_deps ns (ch_deps (chunks ! i)) t else []) ns ops
      (fold (\<lambda>i. fold (propagate_dep fs ns i) (ch_deps (chunks ! i))) [0..<k] ops)" if "k \<le> length ns" for k
    using that
  proof (induction k)
    case 0
    have "ops ! j = (ops ! j)\<lparr>op_deps := []\<rparr>" if "j < length ops" for j using assms(5) that by (metis (no_types, lifting) Op.surjective Op.update_convs(7) nth_mem)
    then show ?case using assms(1) start_less by (simp add: with_deps_def)
  next
    case (Suc k)
    then have IH: "with_deps (\<lambda>i t. if i < k then tile_deps ns (ch_deps (chunks ! i)) t else []) ns ops
      (fold (\<lambda>i. fold (propagate_dep fs ns i) (ch_deps (chunks ! i))) [0..<k] ops)" by simp
    have "with_deps (\<lambda>j t. if j = k then (if j < k then tile_deps ns (ch_deps (chunks ! j)) t else []) @ tile_deps ns (ch_deps (chunks ! k)) t
        else if j < k then tile_deps ns (ch_deps (chunks ! j)) t else []) ns ops
      (fold (propagate_dep fs ns k) (ch_deps (chunks ! k))
        (fold (\<lambda>i. fold (propagate_dep fs ns i) (ch_deps (chunks ! i))) [0..<k] ops))"
      using Suc.prems assms(3,4) by (intro propagate_chunk_ok [OF IH]) auto
    moreover have "(\<lambda>j t. if j = k then (if j < k then tile_deps ns (ch_deps (chunks ! j)) t else []) @ tile_deps ns (ch_deps (chunks ! k)) t
        else if j < k then tile_deps ns (ch_deps (chunks ! j)) t else []) =
      (\<lambda>i t. if i < Suc k then tile_deps ns (ch_deps (chunks ! i)) t else [])" by (intro ext) (auto simp: less_Suc_eq)
    ultimately show ?case by simp
  qed
  from this [OF order_refl] show ?thesis unfolding propagate_deps_def using assms(2) by (simp add: with_deps_def)
qed

end
