(* ===== verification/CollLowered.thy ===== *)
theory CollLowered
  imports CollRing CollTiles "HOL-Library.Sublist"
begin

text \<open>
  The plan of the ring all-reduce in closed form, in place and out of place. Every operation of the
  plan has a label, made from the label of its chunk and a tile or a group of tiles; the plan is a list of
  labels, and every dependency is the position of a label.
\<close>

section \<open>Labels of operations\<close>

datatype tile_op =
    TPut ring_op nat | TSig ring_op nat | TWait ring_op nat | TRed ring_op nat
  | TSnap ring_op nat | TSnapSig ring_op | TSnapWait ring_op

definition grp :: "CollectiveConfig \<Rightarrow> nat" where
  "grp cfg = (if cfg_signal_group_tiles cfg \<noteq> 0 then cfg_signal_group_tiles cfg else 1)"

definition ntiles :: "CollectiveConfig \<Rightarrow> ring_op \<Rightarrow> nat" where
  "ntiles cfg l = num_tiles_of (cfg_tile_bytes cfg) (chunk_of cfg l)"

definition ends_group :: "CollectiveConfig \<Rightarrow> ring_op \<Rightarrow> nat \<Rightarrow> bool" where
  "ends_group cfg l t \<longleftrightarrow> t mod grp cfg = grp cfg - 1 \<or> t + 1 = ntiles cfg l"

definition tile_block :: "CollectiveConfig \<Rightarrow> bool \<Rightarrow> ring_op \<Rightarrow> nat \<Rightarrow> tile_op list" where
  "tile_block cfg ip l t =
     (case kind_of l of
        Put \<Rightarrow> TPut l t # (if ends_group cfg l t then [TSig l (t div grp cfg)] else [])
      | Recv \<Rightarrow> if t mod grp cfg = 0 then [TWait l (t div grp cfg)] else []
      | RecvReduce \<Rightarrow> (if ip then [TSnap l t, TRed l t] else [TRed l t]))"

definition chunk_tail :: "bool \<Rightarrow> ring_op \<Rightarrow> tile_op list" where
  "chunk_tail ip l =
     (if ip \<and> gathers l = 0
      then (case kind_of l of Put \<Rightarrow> [TSnapWait l] | Recv \<Rightarrow> [] | RecvReduce \<Rightarrow> [TSnapSig l]) else [])"

definition chunk_plan :: "CollectiveConfig \<Rightarrow> bool \<Rightarrow> ring_op \<Rightarrow> tile_op list" where
  "chunk_plan cfg ip l = concat (map (tile_block cfg ip l) [0..<ntiles cfg l]) @ chunk_tail ip l"

definition plan :: "CollectiveConfig \<Rightarrow> bool \<Rightarrow> tile_op list" where
  "plan cfg ip = concat (map (chunk_plan cfg ip) (labels cfg))"

fun chunk_label :: "tile_op \<Rightarrow> ring_op" where
  "chunk_label (TPut l t) = l"
| "chunk_label (TSig l t) = l"
| "chunk_label (TWait l t) = l"
| "chunk_label (TRed l t) = l"
| "chunk_label (TSnap l t) = l"
| "chunk_label (TSnapSig l) = l"
| "chunk_label (TSnapWait l) = l"

lemma grp_pos [simp]: "0 < grp cfg"
  by (simp add: grp_def)

text \<open>The last tile of a group is the only one that ends it.\<close>

lemma ends_group_unique:
  assumes "ends_group cfg l t" "ends_group cfg l u" "t < ntiles cfg l" "u < ntiles cfg l" "t div grp cfg = u div grp cfg"
  shows "t = u"
proof -
  let ?G = "grp cfg"
  have le: "a \<le> b" if "ends_group cfg l b" "a < ntiles cfg l" "a div ?G = b div ?G" for a b
  proof (cases "b mod ?G = ?G - 1")
    case True
    have "a = ?G * (a div ?G) + a mod ?G" "b = ?G * (b div ?G) + b mod ?G" by simp_all
    moreover have "a mod ?G \<le> ?G - 1" using mod_less_divisor [OF grp_pos [of cfg], of a] by linarith
    ultimately show ?thesis using that(3) True by (metis add_left_mono)
  qed (use that in \<open>auto simp: ends_group_def\<close>)
  show ?thesis using le [OF assms(2,3,5)] le [OF assms(1,4) assms(5) [symmetric]] by simp
qed

lemma distinct_concat_map:
  assumes "distinct xs" "\<And>x. x \<in> set xs \<Longrightarrow> distinct (f x)" "\<And>x y. x \<in> set xs \<Longrightarrow> y \<in> set xs \<Longrightarrow> x \<noteq> y \<Longrightarrow> set (f x) \<inter> set (f y) = {}"
  shows "distinct (concat (map f xs))"
  using assms
proof (induction xs)
  case (Cons a xs)
  have "set (f a) \<inter> set (concat (map f xs)) = {}" using Cons.prems(1,3) by fastforce
  then show ?case using Cons by simp
qed simp

lemma chunk_label_plan: "x \<in> set (chunk_plan cfg ip l) \<Longrightarrow> chunk_label x = l"
  by (auto simp: chunk_plan_def tile_block_def chunk_tail_def split: AlgoOpKind.splits if_splits)

lemma distinct_plan: "distinct (plan cfg ip)"
proof -
  have "distinct (chunk_plan cfg ip l)" for l
  proof -
    have "distinct (concat (map (tile_block cfg ip l) [0..<ntiles cfg l]))"
    proof (rule distinct_concat_map)
      fix t u assume tu: "t \<in> set [0..<ntiles cfg l]" "u \<in> set [0..<ntiles cfg l]" "t \<noteq> u"
      show "set (tile_block cfg ip l t) \<inter> set (tile_block cfg ip l u) = {}"
      proof (cases "kind_of l")
        case Put
        then show ?thesis using tu ends_group_unique [of cfg l t u] by (auto simp: tile_block_def)
      next
        case Recv
        then show ?thesis using tu by (auto simp: tile_block_def)
      qed (use tu in \<open>auto simp: tile_block_def\<close>)
    qed (auto simp: tile_block_def split: AlgoOpKind.split)
    moreover have "set (concat (map (tile_block cfg ip l) [0..<ntiles cfg l])) \<inter> set (chunk_tail ip l) = {}"
      by (auto simp: tile_block_def chunk_tail_def split: AlgoOpKind.splits if_splits)
    moreover have "distinct (chunk_tail ip l)" by (auto simp: chunk_tail_def split: AlgoOpKind.split)
    ultimately show ?thesis by (simp add: chunk_plan_def)
  qed
  moreover have "set (chunk_plan cfg ip l) \<inter> set (chunk_plan cfg ip l') = {}" if "l \<noteq> l'" for l l'
    using that chunk_label_plan by (metis disjoint_iff)
  moreover have "distinct (labels cfg)" by (simp add: labels_def distinct_all_labels)
  ultimately show ?thesis unfolding plan_def by (intro distinct_concat_map) simp_all
qed

lemma set_plan: "x \<in> set (plan cfg ip) \<longleftrightarrow> chunk_label x \<in> set (labels cfg) \<and> x \<in> set (chunk_plan cfg ip (chunk_label x))"
proof
  assume "x \<in> set (plan cfg ip)"
  then obtain l where l: "l \<in> set (labels cfg)" "x \<in> set (chunk_plan cfg ip l)" by (auto simp: plan_def)
  then show "chunk_label x \<in> set (labels cfg) \<and> x \<in> set (chunk_plan cfg ip (chunk_label x))"
    unfolding chunk_label_plan [OF l(2)] by blast
qed (auto simp: plan_def)

lemma ix_prefix:
  assumes "prefix (xs @ [x]) ys" "distinct ys"
  shows "ix ys x = length xs" "x \<in> set ys"
proof -
  obtain zs where zs: "ys = xs @ x # zs" using assms(1) by (auto simp: prefix_def)
  then have "x \<notin> set xs" using assms(2) by simp
  then show "ix ys x = length xs" "x \<in> set ys" using ix_Cons_mid zs by auto
qed

section \<open>Operations and dependencies\<close>

text \<open>The operation a tile of a chunk turns into, as far as later tiles refer to it.\<close>

definition mapped :: "CollectiveConfig \<Rightarrow> ring_op \<Rightarrow> nat \<Rightarrow> tile_op" where
  "mapped cfg l t = (case kind_of l of Put \<Rightarrow> TPut l t | Recv \<Rightarrow> TWait l (t div grp cfg) | RecvReduce \<Rightarrow> TRed l t)"

text \<open>Where the copy of a tile for a reduction in place lies in the scratch buffer.\<close>

definition staged :: "CollectiveConfig \<Rightarrow> ring_op list \<Rightarrow> nat" where
  "staged cfg ls = sum_list (map (\<lambda>l. ch_bytes (chunk_of cfg l)) (filter (\<lambda>l. kind_of l = RecvReduce) ls))"

definition stage_off :: "CollectiveConfig \<Rightarrow> ring_op \<Rightarrow> nat \<Rightarrow> nat" where
  "stage_off cfg l t = staged cfg (takeWhile (\<lambda>y. y \<noteq> l) (labels cfg)) + t * cfg_tile_bytes cfg"

fun op_of :: "CollectiveConfig \<Rightarrow> bool \<Rightarrow> tile_op \<Rightarrow> TiledOp" where
  "op_of cfg ip (TPut l t) = (let p = tile (cfg_tile_bytes cfg) (chunk_of cfg l) t in
     TiledOp_new\<lparr>t_bytes := op_bytes p, t_src_off := op_src_off p, t_dst_off := op_dst_off p, t_src_peer := op_src_peer p,
       t_dst_peer := op_dst_peer p, t_src_buf_role := (if waits_for (cfg_n cfg) l = None then Input else Output)\<rparr>)"
| "op_of cfg ip (TSig l g) = TiledOp_new\<lparr>t_kind := ESignal, t_dst_peer := peer_of_rank (ch_dst_rank (chunk_of cfg l)),
     t_tag := make_tag (ch_pair_id (chunk_of cfg l)) g\<rparr>"
| "op_of cfg ip (TWait l g) = TiledOp_new\<lparr>t_kind := EWaitSignal, t_src_peer := peer_of_rank (ch_src_rank (chunk_of cfg l)),
     t_tag := make_tag (ch_pair_id (chunk_of cfg l)) g\<rparr>"
| "op_of cfg ip (TRed l t) = (let p = tile (cfg_tile_bytes cfg) (chunk_of cfg l) t in
     TiledOp_new\<lparr>t_kind := EReduce, t_bytes := op_bytes p, t_src_off := (if ip then stage_off cfg l t else op_src_off p),
       t_dst_off := op_dst_off p, t_src_peer := local_peer, t_dst_peer := local_peer,
       t_src_buf_role := (if ip then Scratch else Input)\<rparr>)"
| "op_of cfg ip (TSnap l t) = (let p = tile (cfg_tile_bytes cfg) (chunk_of cfg l) t in
     TiledOp_new\<lparr>t_bytes := op_bytes p, t_src_off := op_dst_off p, t_dst_off := stage_off cfg l t, t_src_peer := local_peer,
       t_dst_peer := local_peer, t_src_buf_role := Output, t_dst_buf_role := Scratch\<rparr>)"
| "op_of cfg ip (TSnapSig l) = TiledOp_new\<lparr>t_kind := ESignal, t_dst_peer := u32_of_int (ch_src_rank (chunk_of cfg l)),
     t_tag := make_tag (ch_pair_id (chunk_of cfg l)) 0xFFFE\<rparr>"
| "op_of cfg ip (TSnapWait l) = TiledOp_new\<lparr>t_kind := EWaitSignal, t_src_peer := u32_of_int (ch_dst_rank (chunk_of cfg l)),
     t_tag := make_tag (ch_pair_id (chunk_of cfg l)) 0xFFFE\<rparr>"

text \<open>
  The dependencies: those of the tiles, those the lowering adds while it goes through the tiles
  of a chunk, and those it adds at the end of a chunk.
\<close>

fun tile_dep :: "CollectiveConfig \<Rightarrow> tile_op \<Rightarrow> (ring_op \<times> nat) option" where
  "tile_dep cfg (TPut l t) = map_option (\<lambda>l'. (l', t)) (waits_for (cfg_n cfg) l)"
| "tile_dep cfg (TRed l t) = map_option (\<lambda>l'. (l', t)) (waits_for (cfg_n cfg) l)"
| "tile_dep cfg _ = None"

fun loop_deps :: "CollectiveConfig \<Rightarrow> bool \<Rightarrow> tile_op \<Rightarrow> tile_op set" where
  "loop_deps cfg ip (TSig l g) = {TPut l t | t. t < ntiles cfg l \<and> t div grp cfg = g}"
| "loop_deps cfg ip (TRed l t) = (if ip then {TSnap l t} else {})"
| "loop_deps cfg ip _ = {}"

fun tail_deps :: "CollectiveConfig \<Rightarrow> bool \<Rightarrow> tile_op \<Rightarrow> tile_op set" where
  "tail_deps cfg ip (TSnapSig l) = {TSnap l t | t. t < ntiles cfg l}"
| "tail_deps cfg ip (TPut l t) = (if ip \<and> gathers l = 0 then {TSnapWait l} else {})"
| "tail_deps cfg ip _ = {}"

definition deps_of :: "CollectiveConfig \<Rightarrow> bool \<Rightarrow> tile_op \<Rightarrow> tile_op set" where
  "deps_of cfg ip x = (case tile_dep cfg x of None \<Rightarrow> {} | Some (l, t) \<Rightarrow> {mapped cfg l t}) \<union> loop_deps cfg ip x \<union> tail_deps cfg ip x"

text \<open>The position of a tile among all tiles.\<close>

definition tile_counts :: "CollectiveConfig \<Rightarrow> nat list" where
  "tile_counts cfg = map (ntiles cfg) (labels cfg)"

definition tile_pos :: "CollectiveConfig \<Rightarrow> ring_op \<Rightarrow> nat \<Rightarrow> nat" where
  "tile_pos cfg l t = start (tile_counts cfg) (ix (labels cfg) l) + t"

definition draft_op :: "CollectiveConfig \<Rightarrow> bool \<Rightarrow> tile_op \<Rightarrow> TiledOp" where
  "draft_op cfg ip x = (op_of cfg ip x)\<lparr>t_deps := (case tile_dep cfg x of None \<Rightarrow> [] | Some (l, t) \<Rightarrow> [tile_pos cfg l t])\<rparr>"

definition dep_pairs :: "tile_op list \<Rightarrow> (tile_op \<Rightarrow> tile_op set) \<Rightarrow> tile_op set \<Rightarrow> (nat \<times> nat) set" where
  "dep_pairs T d X = {(ix T x, ix T y) | x y. x \<in> X \<and> y \<in> d x}"

lemma dep_pairs_Un: "dep_pairs T d (X \<union> Y) = dep_pairs T d X \<union> dep_pairs T d Y"
  by (auto simp: dep_pairs_def)

lemma dep_pairs_insert: "dep_pairs T d (insert x X) = Pair (ix T x) ` ix T ` d x \<union> dep_pairs T d X"
  by (auto simp: dep_pairs_def)

lemma dep_pairs_empty [simp]: "dep_pairs T d {} = {}"
  by (simp add: dep_pairs_def)

section \<open>The loop over the tiles\<close>

definition small_plan :: "CollectiveConfig \<Rightarrow> bool \<Rightarrow> bool" where
  "small_plan cfg ip \<longleftrightarrow> ring_ok cfg \<and> 0 < cfg_tile_bytes cfg \<and> cfg_input_bytes cfg + cfg_tile_bytes cfg \<le> 2 ^ 64 \<and>
     cfg_input_bytes cfg mod scalar_type_size (cfg_dtype cfg) = 0 \<and>
     sum_list (tile_counts cfg) < 2 ^ 32 \<and> length (plan cfg ip) < kNoOp"

definition tile_with_deps :: "CollectiveConfig \<Rightarrow> ring_op \<Rightarrow> nat \<Rightarrow> Op" where
  "tile_with_deps cfg l t = (tile (cfg_tile_bytes cfg) (chunk_of cfg l) t)\<lparr>op_deps :=
     (case waits_for (cfg_n cfg) l of None \<Rightarrow> [] | Some l' \<Rightarrow> [tile_pos cfg l' t])\<rparr>"

text \<open>
  The state of the lowering once the operations \<open>xs\<close> were emitted and the tiles \<open>M\<close> handled: \<open>D\<close> holds
  the dependencies added so far, and \<open>B\<close> bytes of the scratch buffer are taken.
\<close>

definition lowered ::
  "CollectiveConfig \<Rightarrow> bool \<Rightarrow> tile_op list \<Rightarrow> (ring_op \<times> nat) set \<Rightarrow> (nat \<times> nat) set \<Rightarrow> nat \<Rightarrow> LowerState \<Rightarrow> bool" where
  "lowered cfg ip xs M D B s \<longleftrightarrow> lo_out s = map (draft_op cfg ip) xs \<and>
     length (lo_old_to_new s) = sum_list (tile_counts cfg) \<and>
     (\<forall>(l, t)\<in>M. lo_old_to_new s ! tile_pos cfg l t = ix (plan cfg ip) (mapped cfg l t)) \<and>
     set (lo_new_deps s) = D \<and> lo_staging_bytes s = B"

lemma out_size_ix:
  assumes "lowered cfg ip xs M D B s" "prefix (xs @ [x]) (plan cfg ip)" "small_plan cfg ip"
  shows "out_size s = ix (plan cfg ip) x"
proof -
  have "length xs < 2 ^ 32" using prefix_length_le [OF assms(2)] assms(3) by (simp add: small_plan_def kNoOp_def)
  then show ?thesis using assms(1) ix_prefix(1) [OF assms(2) distinct_plan]
    by (simp add: out_size_def lowered_def u32_wrap_less)
qed

lemma out_size_sel [simp]:
  "out_size (s\<lparr>lo_sig_group_puts := a\<rparr>) = out_size s" "out_size (s\<lparr>lo_new_deps := b\<rparr>) = out_size s"
  "out_size (s\<lparr>lo_old_to_new := c\<rparr>) = out_size s" "out_size (s\<lparr>lo_put_indices := d\<rparr>) = out_size s"
  "out_size (s\<lparr>lo_snap_cp_indices := e\<rparr>) = out_size s" "out_size (s\<lparr>lo_staging_bytes := f\<rparr>) = out_size s"
  "out_size (s\<lparr>lo_cur_group_ws := g\<rparr>) = out_size s"
  by (simp_all add: out_size_def)

lemma lowered_emit:
  "lowered cfg ip xs M D B s \<Longrightarrow> p = draft_op cfg ip x \<Longrightarrow> lowered cfg ip (xs @ [x]) M D B (emit p s)"
  by (simp add: lowered_def emit_def)

lemma lowered_cong:
  assumes "lowered cfg ip xs M D B s" "lo_out s' = lo_out s" "lo_old_to_new s' = lo_old_to_new s" "lo_new_deps s' = lo_new_deps s"
    "lo_staging_bytes s' = lo_staging_bytes s"
  shows "lowered cfg ip xs M D B s'"
  using assms by (simp add: lowered_def)

lemma fold_new_dep:
  "fold (\<lambda>j. new_dep i j) js s = s\<lparr>lo_new_deps := lo_new_deps s @ map (Pair i) js\<rparr>"
  "fold (\<lambda>j. new_dep j i) js s = s\<lparr>lo_new_deps := lo_new_deps s @ map (\<lambda>j. (j, i)) js\<rparr>"
  by (induction js arbitrary: s) (simp_all add: new_dep_def)

lemma lowered_new_deps:
  "lowered cfg ip xs M D B s \<Longrightarrow> lowered cfg ip xs M (D \<union> set ds) B (s\<lparr>lo_new_deps := lo_new_deps s @ ds\<rparr>)"
  by (simp add: lowered_def)

lemma tile_pos_inj:
  assumes "l \<in> set (labels cfg)" "t < ntiles cfg l" "l' \<in> set (labels cfg)" "t' < ntiles cfg l'" "tile_pos cfg l t = tile_pos cfg l' t'"
  shows "l = l'" "t = t'"
proof -
  have i: "ix (labels cfg) x < length (tile_counts cfg)" "tile_counts cfg ! ix (labels cfg) x = ntiles cfg x" if "x \<in> set (labels cfg)" for x
    using ix_less [OF that] nth_ix [OF that] by (simp_all add: tile_counts_def)
  have "ix (labels cfg) l = ix (labels cfg) l'" "t = t'"
    using start_inj [OF i(1) [OF assms(1)] _ i(1) [OF assms(3)], of t t'] assms i(2) by (auto simp: tile_pos_def)
  then show "l = l'" "t = t'" using ix_inj [OF assms(1,3)] by simp_all
qed

lemma tile_pos_less: "l \<in> set (labels cfg) \<Longrightarrow> t < ntiles cfg l \<Longrightarrow> tile_pos cfg l t < sum_list (tile_counts cfg)"
  unfolding tile_pos_def by (rule start_less) (simp_all add: tile_counts_def ix_less nth_ix)

lemma lowered_map:
  assumes "lowered cfg ip xs M D B s" "l \<in> set (labels cfg)" "t < ntiles cfg l"
    "\<And>l' t'. (l', t') \<in> M \<Longrightarrow> l' \<in> set (labels cfg) \<and> t' < ntiles cfg l'" "j = ix (plan cfg ip) (mapped cfg l t)"
  shows "lowered cfg ip xs (insert (l, t) M) D B (s\<lparr>lo_old_to_new := (lo_old_to_new s)[tile_pos cfg l t := j]\<rparr>)"
proof -
  have "(lo_old_to_new s)[tile_pos cfg l t := j] ! tile_pos cfg l' t' = ix (plan cfg ip) (mapped cfg l' t')"
    if "(l', t') \<in> insert (l, t) M" for l' t'
  proof (cases "(l', t') = (l, t)")
    case True
    then show ?thesis using assms tile_pos_less [OF assms(2,3)] by (simp add: lowered_def)
  next
    case False
    then have m: "(l', t') \<in> M" using that by auto
    then have "tile_pos cfg l' t' \<noteq> tile_pos cfg l t" using False tile_pos_inj assms(2-4) by blast
    then show ?thesis using m assms(1) by (auto simp: lowered_def)
  qed
  then show ?thesis using assms(1) by (auto simp: lowered_def)
qed

lemma group_range:
  assumes "ends_group cfg l t" "t < ntiles cfg l"
  shows "{u. u < ntiles cfg l \<and> u div grp cfg = t div grp cfg} = {t div grp cfg * grp cfg..<Suc t}"
proof (intro set_eqI iffI)
  let ?G = "grp cfg"
  fix u assume "u \<in> {u. u < ntiles cfg l \<and> u div ?G = t div ?G}"
  then have u: "u < ntiles cfg l" "u div ?G = t div ?G" by auto
  have "t div ?G * ?G \<le> u" using u(2) by (metis div_times_less_eq_dividend)
  moreover have "u \<le> t"
  proof (cases "t mod ?G = ?G - 1")
    case True
    have "u = u div ?G * ?G + u mod ?G" "t = t div ?G * ?G + t mod ?G" by simp_all
    moreover have "u mod ?G \<le> ?G - 1" using mod_less_divisor [OF grp_pos [of cfg], of u] by linarith
    ultimately show ?thesis using u(2) True by (metis add_left_mono)
  qed (use assms u in \<open>auto simp: ends_group_def\<close>)
  ultimately show "u \<in> {t div ?G * ?G..<Suc t}" by simp
next
  let ?G = "grp cfg"
  fix u assume "u \<in> {t div ?G * ?G..<Suc t}"
  then have u: "t div ?G * ?G \<le> u" "u \<le> t" by auto
  from div_le_mono [OF u(1), of ?G] div_le_mono [OF u(2), of ?G] show "u \<in> {u. u < ntiles cfg l \<and> u div ?G = t div ?G}" using u(2) assms(2) by simp
qed

lemma group_next:
  assumes "\<not> ends_group cfg l t"
  shows "Suc t div grp cfg * grp cfg = t div grp cfg * grp cfg"
proof -
  have "t mod grp cfg \<noteq> grp cfg - 1" using assms by (simp add: ends_group_def)
  then have "Suc (t mod grp cfg) \<noteq> grp cfg" by linarith
  then show ?thesis by (simp add: div_Suc mod_Suc)
qed

text \<open>What the loop keeps besides \<open>lowered\<close>: the indices of the puts and of the copies of the chunk.\<close>

definition chunk_idx :: "CollectiveConfig \<Rightarrow> bool \<Rightarrow> ring_op \<Rightarrow> nat \<Rightarrow> LowerState \<Rightarrow> bool" where
  "chunk_idx cfg ip l t s \<longleftrightarrow>
     lo_put_indices s = (if kind_of l = Put then map (\<lambda>u. ix (plan cfg ip) (TPut l u)) [0..<t] else []) \<and>
     lo_snap_cp_indices s = (if kind_of l = RecvReduce \<and> ip then map (\<lambda>u. ix (plan cfg ip) (TSnap l u)) [0..<t] else []) \<and>
     lo_sig_group_puts s = (if kind_of l = Put \<and> t < ntiles cfg l
       then map (\<lambda>u. ix (plan cfg ip) (TPut l u)) [t div grp cfg * grp cfg..<t] else []) \<and>
     (kind_of l = Recv \<and> 0 < t \<longrightarrow> lo_cur_group_ws s = ix (plan cfg ip) (TWait l ((t - 1) div grp cfg)))"

abbreviation pair_of :: "CollectiveConfig \<Rightarrow> ring_op \<Rightarrow> nat" where
  "pair_of cfg l \<equiv> ch_pair_id (chunk_of cfg l)"

lemma put_emit:
  assumes "kind_of l = Put" and low: "lowered cfg ip xs M D B s"
  shows "lowered cfg ip (xs @ [TPut l t]) M D B (emit
      (if op_deps (tile_with_deps cfg l t) \<noteq> [] \<and> op_src_peer (tile_with_deps cfg l t) = local_peer
       then (op_to_tiled (tile_with_deps cfg l t))\<lparr>t_src_buf_role := Output\<rparr> else op_to_tiled (tile_with_deps cfg l t)) s)"
proof (rule lowered_emit [OF low])
  have "ch_src_rank (chunk_of cfg l) = - 1" using assms(1) by (simp add: chunk_of_def Let_def)
  then show "(if op_deps (tile_with_deps cfg l t) \<noteq> [] \<and> op_src_peer (tile_with_deps cfg l t) = local_peer
       then (op_to_tiled (tile_with_deps cfg l t))\<lparr>t_src_buf_role := Output\<rparr> else op_to_tiled (tile_with_deps cfg l t)) =
      draft_op cfg ip (TPut l t)"
    by (simp add: draft_op_def tile_with_deps_def tile_def op_to_tiled_def TiledOp_new_def peer_of_rank_def Let_def split: option.split)
qed

lemma signal_emit:
  assumes small: "small_plan cfg ip" and low: "lowered cfg ip xs M D B s" and t: "t < ntiles cfg l" "kind_of l = Put"
    and pre: "prefix (xs @ (if ends_group cfg l t then [TSig l (t div grp cfg)] else [])) (plan cfg ip)"
    and put_idx: "put_idx = ix (plan cfg ip) (TPut l t)"
    and puts: "lo_sig_group_puts s = map (\<lambda>u. ix (plan cfg ip) (TPut l u)) [t div grp cfg * grp cfg..<t]"
    and peer: "peer = peer_of_rank (ch_dst_rank (chunk_of cfg l))"
    and s': "s' = signal_group (grp cfg) (ntiles cfg l) (pair_of cfg l) peer put_idx t s"
  shows "lowered cfg ip (xs @ (if ends_group cfg l t then [TSig l (t div grp cfg)] else [])) M
      (D \<union> dep_pairs (plan cfg ip) (loop_deps cfg ip) (if ends_group cfg l t then {TSig l (t div grp cfg)} else {})) B s'"
    and "lo_sig_group_puts s' = (if Suc t < ntiles cfg l
       then map (\<lambda>u. ix (plan cfg ip) (TPut l u)) [Suc t div grp cfg * grp cfg..<Suc t] else [])"
    and "lo_put_indices s' = lo_put_indices s" "lo_snap_cp_indices s' = lo_snap_cp_indices s"
proof -
  let ?G = "grp cfg" and ?T = "plan cfg ip"
  let ?s1 = "s\<lparr>lo_sig_group_puts := lo_sig_group_puts s @ [put_idx]\<rparr>"
  have puts1: "lo_sig_group_puts s @ [put_idx] = map (\<lambda>u. ix ?T (TPut l u)) [t div ?G * ?G..<Suc t]"
    using puts put_idx by (simp add: div_times_less_eq_dividend)
  have low1: "lowered cfg ip xs M D B ?s1" by (rule lowered_cong [OF low]) simp_all
  have ends: "(t mod ?G = ?G - 1 \<or> t + 1 = ntiles cfg l) = ends_group cfg l t" by (simp add: ends_group_def)
  show "lo_put_indices s' = lo_put_indices s" "lo_snap_cp_indices s' = lo_snap_cp_indices s"
    unfolding s' signal_group_def Let_def fold_new_dep by (simp_all add: emit_def)
  show "lo_sig_group_puts s' = (if Suc t < ntiles cfg l
       then map (\<lambda>u. ix ?T (TPut l u)) [Suc t div ?G * ?G..<Suc t] else [])"
  proof (cases "ends_group cfg l t")
    case True
    have "Suc t div ?G * ?G = Suc t" if "Suc t \<noteq> ntiles cfg l"
    proof -
      have "Suc (t mod ?G) = ?G" using True that by (auto simp: ends_group_def)
      then have "Suc t mod ?G = 0" by (simp add: mod_Suc)
      then show ?thesis by (metis add.right_neutral div_mult_mod_eq)
    qed
    then show ?thesis unfolding s' signal_group_def Let_def ends using True t(1) by (cases "Suc t = ntiles cfg l") simp_all
  next
    case False
    then have "Suc t < ntiles cfg l" using t(1) by (auto simp: ends_group_def)
    then show ?thesis unfolding s' signal_group_def Let_def ends group_next [OF False] puts1 [symmetric] using False by simp
  qed
  show "lowered cfg ip (xs @ (if ends_group cfg l t then [TSig l (t div ?G)] else [])) M
      (D \<union> dep_pairs ?T (loop_deps cfg ip) (if ends_group cfg l t then {TSig l (t div ?G)} else {})) B s'"
  proof (cases "ends_group cfg l t")
    case True
    have pre': "prefix (xs @ [TSig l (t div ?G)]) ?T" using pre True by simp
    note sz = out_size_ix [OF low1 pre' small]
    have "loop_deps cfg ip (TSig l (t div ?G)) = TPut l ` {u. u < ntiles cfg l \<and> u div ?G = t div ?G}" by auto
    then have deps: "dep_pairs ?T (loop_deps cfg ip) {TSig l (t div ?G)} =
        set (map (Pair (ix ?T (TSig l (t div ?G)))) (map (\<lambda>u. ix ?T (TPut l u)) [t div ?G * ?G..<Suc t]))"
      unfolding group_range [OF True t(1)] by (simp add: dep_pairs_insert image_image del: upt_Suc loop_deps.simps)
    define ds where "ds = map (Pair (ix ?T (TSig l (t div ?G)))) (map (\<lambda>u. ix ?T (TPut l u)) [t div ?G * ?G..<Suc t])"
    have low2: "lowered cfg ip xs M (D \<union> set ds) B (?s1\<lparr>lo_new_deps := lo_new_deps ?s1 @ ds\<rparr>)"
      by (rule lowered_new_deps [OF low1])
    have "TiledOp_new\<lparr>t_kind := ESignal, t_dst_peer := peer, t_tag := make_tag (pair_of cfg l) (t div ?G)\<rparr> =
        draft_op cfg ip (TSig l (t div ?G))"
      by (simp add: draft_op_def peer TiledOp_new_def)
    note low3 = lowered_emit [OF low2 this]
    have "lowered cfg ip (xs @ [TSig l (t div ?G)]) M (D \<union> set ds) B s'"
      unfolding s' signal_group_def Let_def fold_new_dep ends
      by (rule lowered_cong [OF low3]) (use True puts1 sz in \<open>simp_all add: emit_def ds_def\<close>)
    then show ?thesis using True deps by (simp add: ds_def)
  next
    case False
    then show ?thesis unfolding s' signal_group_def Let_def ends using low1 by simp
  qed
qed

definition opts_of :: "CollectiveConfig \<Rightarrow> bool \<Rightarrow> LowerOpts" where
  "opts_of cfg ip = \<lparr>lo_inplace = ip, lo_stage_puts = False, lo_reduce_snap_hs = ip, lo_signal_group_tiles = cfg_signal_group_tiles cfg\<rparr>"

lemma opts_of_sel [simp]:
  "lo_inplace (opts_of cfg ip) = ip" "lo_stage_puts (opts_of cfg ip) = False" "lo_reduce_snap_hs (opts_of cfg ip) = ip"
  "group_factor (opts_of cfg ip) = grp cfg"
  by (simp_all add: opts_of_def group_factor_def grp_def)

lemma pair_of_less: "ring_ok cfg \<Longrightarrow> pair_of cfg l < 2 ^ 31"
proof -
  assume ok: "ring_ok cfg"
  have "owner (cfg_n cfg) (cfg_r cfg) l < cfg_n cfg" using ring_okD [OF ok] by (cases l) auto
  moreover have "gathers l \<le> 1" by (cases l) auto
  ultimately show ?thesis using ring_okD(5) [OF ok] by (simp add: chunk_of_def Let_def)
qed

text \<open>One turn of the loop emits the block of the tile.\<close>

definition tile_done ::
  "CollectiveConfig \<Rightarrow> bool \<Rightarrow> ring_op \<Rightarrow> nat \<Rightarrow> tile_op list \<Rightarrow> (ring_op \<times> nat) set \<Rightarrow> (nat \<times> nat) set \<Rightarrow> nat \<Rightarrow> LowerState \<Rightarrow> bool" where
  "tile_done cfg ip l t xs M D B s \<longleftrightarrow>
     lowered cfg ip (xs @ tile_block cfg ip l t) (insert (l, t) M)
       (D \<union> dep_pairs (plan cfg ip) (loop_deps cfg ip) (set (tile_block cfg ip l t))) B s \<and> chunk_idx cfg ip l (Suc t) s"

lemma put_tile:
  assumes small: "small_plan cfg ip" and l: "l \<in> set (labels cfg)" "kind_of l = Put" and t: "t < ntiles cfg l"
    and low: "lowered cfg ip xs M D B s" and ci: "chunk_idx cfg ip l t s"
    and M: "\<And>l' t'. (l', t') \<in> M \<Longrightarrow> l' \<in> set (labels cfg) \<and> t' < ntiles cfg l'"
    and pre: "prefix (xs @ tile_block cfg ip l t) (plan cfg ip)"
  shows "tile_done cfg ip l t xs M D B
    (lower_put_direct (grp cfg) (ntiles cfg l) (pair_of cfg l) (tile_pos cfg l t) t (tile_with_deps cfg l t) s)"
proof -
  let ?T = "plan cfg ip" and ?p = "tile_with_deps cfg l t"
  let ?sig = "if ends_group cfg l t then [TSig l (t div grp cfg)] else []"
  have blk: "tile_block cfg ip l t = TPut l t # ?sig" using l(2) by (simp add: tile_block_def)
  have pre1: "prefix (xs @ [TPut l t]) ?T" using pre by (metis append_Cons append_Nil append_assoc append_prefixD blk)
  have idx: "out_size s = ix ?T (TPut l t)" by (rule out_size_ix [OF low pre1 small])
  let ?s0 = "s\<lparr>lo_old_to_new := (lo_old_to_new s)[tile_pos cfg l t := out_size s]\<rparr>"
  have "mapped cfg l t = TPut l t" using l(2) by (simp add: mapped_def)
  then have low0: "lowered cfg ip xs (insert (l, t) M) D B ?s0" using idx by (intro lowered_map [OF low l(1) t M]) simp_all
  define s1 where "s1 = emit (if op_deps ?p \<noteq> [] \<and> op_src_peer ?p = local_peer
       then (op_to_tiled ?p)\<lparr>t_src_buf_role := Output\<rparr> else op_to_tiled ?p) ?s0"
  let ?s2 = "s1\<lparr>lo_put_indices := lo_put_indices s1 @ [out_size s]\<rparr>"
  have "lowered cfg ip (xs @ [TPut l t]) (insert (l, t) M) D B s1" unfolding s1_def by (rule put_emit [OF l(2) low0])
  then have low2: "lowered cfg ip (xs @ [TPut l t]) (insert (l, t) M) D B ?s2" by (rule lowered_cong) simp_all
  have peer: "op_dst_peer ?p = peer_of_rank (ch_dst_rank (chunk_of cfg l))" by (simp add: tile_with_deps_def tile_def)
  have pre2: "prefix ((xs @ [TPut l t]) @ ?sig) ?T" using pre blk by simp
  have puts: "lo_sig_group_puts ?s2 = map (\<lambda>u. ix ?T (TPut l u)) [t div grp cfg * grp cfg..<t]"
    using ci l(2) t by (simp add: s1_def emit_def chunk_idx_def)
  note sg = signal_emit [OF small low2 t l(2) pre2 idx puts peer refl]
  have e: "lower_put_direct (grp cfg) (ntiles cfg l) (pair_of cfg l) (tile_pos cfg l t) t ?p s =
      signal_group (grp cfg) (ntiles cfg l) (pair_of cfg l) (op_dst_peer ?p) (out_size s) t ?s2"
    by (simp add: lower_put_direct_def Let_def s1_def)
  have "dep_pairs ?T (loop_deps cfg ip) (set (tile_block cfg ip l t)) =
      dep_pairs ?T (loop_deps cfg ip) (if ends_group cfg l t then {TSig l (t div grp cfg)} else {})"
    by (simp add: blk dep_pairs_insert)
  then show ?thesis unfolding tile_done_def e chunk_idx_def using sg ci l(2) idx
    by (simp add: blk chunk_idx_def s1_def emit_def)
qed

lemma recv_tile:
  assumes small: "small_plan cfg ip" and l: "l \<in> set (labels cfg)" "kind_of l = Recv" and t: "t < ntiles cfg l"
    and low: "lowered cfg ip xs M D B s" and ci: "chunk_idx cfg ip l t s"
    and M: "\<And>l' t'. (l', t') \<in> M \<Longrightarrow> l' \<in> set (labels cfg) \<and> t' < ntiles cfg l'"
    and pre: "prefix (xs @ tile_block cfg ip l t) (plan cfg ip)"
  shows "tile_done cfg ip l t xs M D B
    (lower_recv (grp cfg) (ntiles cfg l) (pair_of cfg l) (tile_pos cfg l t) t (tile_with_deps cfg l t) s)"
proof -
  let ?T = "plan cfg ip" and ?p = "tile_with_deps cfg l t" and ?G = "grp cfg"
  have blk: "tile_block cfg ip l t = (if t mod ?G = 0 then [TWait l (t div ?G)] else [])" using l(2) by (simp add: tile_block_def)
  define s1 where "s1 = (if t mod ?G = 0
      then (let s2 = emit (TiledOp_new\<lparr>t_kind := EWaitSignal, t_src_peer := op_src_peer ?p, t_tag := make_tag (pair_of cfg l) (t div ?G)\<rparr>)
                       (s\<lparr>lo_cur_group_ws := out_size s\<rparr>)
            in if fits_imm (make_tag (pair_of cfg l) (t div ?G))
               then s2\<lparr>lo_wait_groups := lo_wait_groups s2 @ [(out_size s, min ?G (ntiles cfg l - t))]\<rparr> else s2)
      else s)"
  have s1: "lowered cfg ip (xs @ tile_block cfg ip l t) M D B s1 \<and> lo_cur_group_ws s1 = ix ?T (TWait l (t div ?G))"
  proof (cases "t mod ?G = 0")
    case True
    have pre1: "prefix (xs @ [TWait l (t div ?G)]) ?T" using pre True blk by simp
    have idx: "out_size s = ix ?T (TWait l (t div ?G))" by (rule out_size_ix [OF low pre1 small])
    have "TiledOp_new\<lparr>t_kind := EWaitSignal, t_src_peer := op_src_peer ?p, t_tag := make_tag (pair_of cfg l) (t div ?G)\<rparr> =
        draft_op cfg ip (TWait l (t div ?G))"
      by (simp add: draft_op_def TiledOp_new_def tile_with_deps_def tile_def)
    moreover have "lowered cfg ip xs M D B (s\<lparr>lo_cur_group_ws := out_size s\<rparr>)" by (rule lowered_cong [OF low]) simp_all
    ultimately have "lowered cfg ip (xs @ [TWait l (t div ?G)]) M D B
        (emit (TiledOp_new\<lparr>t_kind := EWaitSignal, t_src_peer := op_src_peer ?p, t_tag := make_tag (pair_of cfg l) (t div ?G)\<rparr>)
          (s\<lparr>lo_cur_group_ws := out_size s\<rparr>))" by (intro lowered_emit)
    then have "lowered cfg ip (xs @ [TWait l (t div ?G)]) M D B s1"
      by (rule lowered_cong) (simp_all add: s1_def True Let_def)
    then show ?thesis using True blk idx by (simp add: s1_def emit_def Let_def)
  next
    case False
    then have "(t - 1) div ?G = t div ?G" "0 < t" by (cases t; simp add: div_Suc)+
    then show ?thesis using False blk low ci l(2) by (simp add: s1_def chunk_idx_def)
  qed
  have e: "lower_recv ?G (ntiles cfg l) (pair_of cfg l) (tile_pos cfg l t) t ?p s =
      s1\<lparr>lo_old_to_new := (lo_old_to_new s1)[tile_pos cfg l t := lo_cur_group_ws s1]\<rparr>"
    by (simp add: lower_recv_def s1_def Let_def)
  have "mapped cfg l t = TWait l (t div ?G)" using l(2) by (simp add: mapped_def)
  then have "lowered cfg ip (xs @ tile_block cfg ip l t) (insert (l, t) M) D B
      (s1\<lparr>lo_old_to_new := (lo_old_to_new s1)[tile_pos cfg l t := lo_cur_group_ws s1]\<rparr>)"
    using s1 by (intro lowered_map [OF _ l(1) t M]) simp_all
  moreover have "dep_pairs ?T (loop_deps cfg ip) (set (tile_block cfg ip l t)) = {}" by (auto simp: blk dep_pairs_def)
  moreover have "lo_put_indices s1 = lo_put_indices s" "lo_snap_cp_indices s1 = lo_snap_cp_indices s" "lo_sig_group_puts s1 = lo_sig_group_puts s"
    by (simp_all add: s1_def emit_def Let_def)
  ultimately show ?thesis unfolding tile_done_def e using ci l(2) s1 by (simp add: chunk_idx_def)
qed

lemma reduce_tile:
  assumes small: "small_plan cfg ip" and l: "l \<in> set (labels cfg)" "kind_of l = RecvReduce" and t: "t < ntiles cfg l"
    and low: "lowered cfg ip xs M D B s" and ci: "chunk_idx cfg ip l t s"
    and M: "\<And>l' t'. (l', t') \<in> M \<Longrightarrow> l' \<in> set (labels cfg) \<and> t' < ntiles cfg l'"
    and pre: "prefix (xs @ tile_block cfg ip l t) (plan cfg ip)" and B: "ip \<Longrightarrow> B = stage_off cfg l t"
  shows "tile_done cfg ip l t xs M D (if ip then B + op_bytes (tile_with_deps cfg l t) else B)
    (if ip then lower_reduce_inplace (tile_pos cfg l t) (tile_with_deps cfg l t) s
     else lower_reduce_direct (tile_pos cfg l t) (tile_with_deps cfg l t) s)"
proof -
  let ?T = "plan cfg ip" and ?p = "tile_with_deps cfg l t"
  have m: "mapped cfg l t = TRed l t" using l(2) by (simp add: mapped_def)
  show ?thesis
  proof (cases ip)
    case False
    then have blk: "tile_block cfg ip l t = [TRed l t]" using l(2) by (simp add: tile_block_def)
    have idx: "out_size s = ix ?T (TRed l t)" using pre blk by (intro out_size_ix [OF low _ small]) simp
    have "lowered cfg ip xs (insert (l, t) M) D B (s\<lparr>lo_old_to_new := (lo_old_to_new s)[tile_pos cfg l t := out_size s]\<rparr>)"
      using idx m by (intro lowered_map [OF low l(1) t M]) simp_all
    then have "lowered cfg ip (xs @ [TRed l t]) (insert (l, t) M) D B (lower_reduce_direct (tile_pos cfg l t) ?p s)"
      unfolding lower_reduce_direct_def using False
      by (intro lowered_emit) (simp_all add: draft_op_def tile_with_deps_def tile_def TiledOp_new_def Let_def split: option.split)
    then show ?thesis using False ci l(2) blk
      by (simp add: tile_done_def dep_pairs_insert chunk_idx_def lower_reduce_direct_def emit_def)
  next
    case True
    then have blk: "tile_block cfg ip l t = [TSnap l t, TRed l t]" using l(2) by (simp add: tile_block_def)
    have pre1: "prefix (xs @ [TSnap l t]) ?T" "prefix ((xs @ [TSnap l t]) @ [TRed l t]) ?T"
      using pre blk by (auto simp: prefix_def)
    have idx: "out_size s = ix ?T (TSnap l t)" by (rule out_size_ix [OF low pre1(1) small])
    let ?cp = "TiledOp_new\<lparr>t_kind := EPut, t_bytes := op_bytes ?p, t_src_off := op_dst_off ?p, t_dst_off := lo_staging_bytes s,
        t_src_peer := local_peer, t_dst_peer := local_peer, t_src_buf_role := Output, t_dst_buf_role := Scratch\<rparr>"
    let ?red = "TiledOp_new\<lparr>t_kind := EReduce, t_bytes := op_bytes ?p, t_src_off := lo_staging_bytes s, t_dst_off := op_dst_off ?p,
        t_src_peer := local_peer, t_dst_peer := local_peer, t_src_buf_role := Scratch, t_dst_buf_role := Output, t_deps := op_deps ?p\<rparr>"
    have st: "lo_staging_bytes s = stage_off cfg l t" using low B True by (simp add: lowered_def)
    have "lowered cfg ip xs M D (B + op_bytes ?p) (s\<lparr>lo_staging_bytes := lo_staging_bytes s + op_bytes ?p\<rparr>)"
      using low by (simp add: lowered_def)
    from lowered_emit [OF this, of ?cp "TSnap l t"]
    have low1: "lowered cfg ip (xs @ [TSnap l t]) M D (B + op_bytes ?p) (emit ?cp (s\<lparr>lo_staging_bytes := lo_staging_bytes s + op_bytes ?p\<rparr>))"
      by (simp add: draft_op_def st tile_with_deps_def tile_def TiledOp_new_def Let_def)
    define s2 where "s2 = (emit ?cp (s\<lparr>lo_staging_bytes := lo_staging_bytes s + op_bytes ?p\<rparr>))\<lparr>lo_snap_cp_indices := lo_snap_cp_indices s @ [out_size s]\<rparr>"
    have low2: "lowered cfg ip (xs @ [TSnap l t]) M D (B + op_bytes ?p) s2" unfolding s2_def by (rule lowered_cong [OF low1]) simp_all
    have idx2: "out_size s2 = ix ?T (TRed l t)" by (rule out_size_ix [OF low2 pre1(2) small])
    define s3 where "s3 = s2\<lparr>lo_new_deps := lo_new_deps s2 @ [(ix ?T (TRed l t), ix ?T (TSnap l t))]\<rparr>"
    have "lowered cfg ip (xs @ [TSnap l t]) M (D \<union> set [(ix ?T (TRed l t), ix ?T (TSnap l t))]) (B + op_bytes ?p) s3"
      unfolding s3_def by (rule lowered_new_deps [OF low2])
    then have low4: "lowered cfg ip (xs @ [TSnap l t]) (insert (l, t) M) (D \<union> set [(ix ?T (TRed l t), ix ?T (TSnap l t))]) (B + op_bytes ?p)
        (s3\<lparr>lo_old_to_new := (lo_old_to_new s3)[tile_pos cfg l t := ix ?T (TRed l t)]\<rparr>)"
      using m by (intro lowered_map [OF _ l(1) t M]) simp_all
    have "?red = draft_op cfg ip (TRed l t)"
      using True by (simp add: draft_op_def st tile_with_deps_def tile_def TiledOp_new_def Let_def split: option.split)
    note low5 = lowered_emit [OF low4 this]
    have e: "lower_reduce_inplace (tile_pos cfg l t) ?p s =
        emit ?red (s3\<lparr>lo_old_to_new := (lo_old_to_new s3)[tile_pos cfg l t := ix ?T (TRed l t)]\<rparr>)"
      unfolding s3_def idx2 [symmetric] idx [symmetric]
      by (simp add: lower_reduce_inplace_def Let_def s2_def new_dep_def emit_def)
    have d: "dep_pairs ?T (loop_deps cfg ip) (set (tile_block cfg ip l t)) = set [(ix ?T (TRed l t), ix ?T (TSnap l t))]"
      unfolding blk using True by (simp add: dep_pairs_insert)
    have "lowered cfg ip (xs @ tile_block cfg ip l t) (insert (l, t) M)
        (D \<union> dep_pairs ?T (loop_deps cfg ip) (set (tile_block cfg ip l t))) (B + op_bytes ?p) (lower_reduce_inplace (tile_pos cfg l t) ?p s)"
      using low5 unfolding e d unfolding blk by simp
    moreover have "chunk_idx cfg ip l (Suc t) (lower_reduce_inplace (tile_pos cfg l t) ?p s)"
      using True ci l(2) idx unfolding e by (simp add: chunk_idx_def s3_def s2_def emit_def)
    ultimately show ?thesis using True by (simp add: tile_done_def)
  qed
qed

end
