(* ===== verification/CollPlan.thy ===== *)
theory CollPlan
  imports CollLowered
begin

text \<open>
  The lowering of the ring all-reduce yields the plan of \<open>CollLowered\<close>: the loop over the chunks emits
  the plan, and after the remapping every operation waits for the operations \<open>deps_of\<close> names.
\<close>

section \<open>The loop over the tiles of a chunk\<close>

lemma owner_less: "0 < n \<Longrightarrow> owner n r l < n"
  by (cases l) simp_all

lemma small_planD:
  assumes "small_plan cfg ip"
  shows "ring_ok cfg" "0 < cfg_tile_bytes cfg" "cfg_input_bytes cfg + cfg_tile_bytes cfg \<le> 2 ^ 64"
    "cfg_input_bytes cfg mod scalar_type_size (cfg_dtype cfg) = 0" "sum_list (tile_counts cfg) < 2 ^ 32" "length (plan cfg ip) < kNoOp"
  using assms by (simp_all add: small_plan_def)

lemma shard_size_le:
  assumes "small_plan cfg ip" "k < cfg_n cfg"
  shows "shard_off cfg k + shard_size cfg k \<le> cfg_input_bytes cfg"
proof -
  have "shard_off cfg k + shard_size cfg k \<le> shard_off cfg (cfg_n cfg)" by (rule shard_disjoint [OF assms(2)])
  also have "\<dots> = cfg_input_bytes cfg" unfolding cfg_n_def
    using small_planD(1,4) [OF assms(1)] by (intro shard_off_end) (simp_all add: ring_ok_def)
  finally show ?thesis .
qed

lemma ntiles_label:
  assumes small: "small_plan cfg ip" and l: "l \<in> set (labels cfg)"
  shows "0 < ntiles cfg l" "t < ntiles cfg l \<longleftrightarrow> t * cfg_tile_bytes cfg < ch_bytes (chunk_of cfg l)"
proof -
  let ?k = "owner (cfg_n cfg) (cfg_r cfg) l"
  have "?k < cfg_n cfg" using ring_okD(4) [OF small_planD(1) [OF small]] by (intro owner_less) simp
  from shard_size_le [OF small this] have "shard_size cfg ?k + cfg_tile_bytes cfg \<le> 2 ^ 64" using small_planD(3) [OF small] by linarith
  moreover have "0 < shard_size cfg ?k" using l by (simp add: set_labels live_def)
  ultimately show "0 < ntiles cfg l" "t < ntiles cfg l \<longleftrightarrow> t * cfg_tile_bytes cfg < ch_bytes (chunk_of cfg l)"
    unfolding ntiles_def using tiles_cover [of "cfg_tile_bytes cfg" "chunk_of cfg l"] small_planD(2) [OF small]
    by (simp_all add: chunk_of_def Let_def)
qed

definition staging :: "bool \<Rightarrow> ring_op \<Rightarrow> bool" where
  "staging ip l \<longleftrightarrow> ip \<and> kind_of l = RecvReduce"

lemma tile_step:
  assumes small: "small_plan cfg ip" and l: "l \<in> set (labels cfg)" and t: "t < ntiles cfg l"
    and low: "lowered cfg ip xs M D B s" and ci: "chunk_idx cfg ip l t s"
    and M: "\<And>l' t'. (l', t') \<in> M \<Longrightarrow> l' \<in> set (labels cfg) \<and> t' < ntiles cfg l'"
    and pre: "prefix (xs @ tile_block cfg ip l t) (plan cfg ip)" and B: "staging ip l \<Longrightarrow> B = stage_off cfg l t"
    and ops: "ops ! tile_pos cfg l t = tile_with_deps cfg l t"
  shows "tile_done cfg ip l t xs M D (B + (if staging ip l then op_bytes (tile_with_deps cfg l t) else 0))
    (lower_tile (opts_of cfg ip) ops (tile_pos cfg l 0) (ntiles cfg l) (chunk_of cfg l) t s)"
proof -
  have p: "tile_pos cfg l 0 + t = tile_pos cfg l t" by (simp add: tile_pos_def)
  have k: "op_kind (tile_with_deps cfg l t) = kind_of l" by (simp add: tile_with_deps_def tile_def chunk_of_def Let_def)
  have pid: "pair_of cfg l \<noteq> kNoPairId" using pair_of_less [OF small_planD(1) [OF small], of l] by (simp add: kNoPairId_def)
  show ?thesis
  proof (cases "kind_of l")
    case Put
    from put_tile [OF small l this t low ci M pre] show ?thesis
      unfolding lower_tile_def Let_def p ops k staging_def using Put pid by simp
  next
    case Recv
    from recv_tile [OF small l this t low ci M pre] show ?thesis
      unfolding lower_tile_def Let_def p ops k staging_def using Recv by simp
  next
    case RecvReduce
    from reduce_tile [OF small l this t low ci M pre] B [unfolded staging_def] show ?thesis
      unfolding lower_tile_def Let_def p ops k staging_def using RecvReduce by auto
  qed
qed

lemma tiles_fold:
  assumes small: "small_plan cfg ip" and l: "l \<in> set (labels cfg)"
    and low: "lowered cfg ip xs M D B s" and ci: "chunk_idx cfg ip l 0 s"
    and M: "\<And>l' t'. (l', t') \<in> M \<Longrightarrow> l' \<in> set (labels cfg) \<and> t' < ntiles cfg l'"
    and pre: "prefix (xs @ concat (map (tile_block cfg ip l) [0..<ntiles cfg l])) (plan cfg ip)"
    and B: "staging ip l \<Longrightarrow> B = stage_off cfg l 0"
    and ops: "\<And>t. t < ntiles cfg l \<Longrightarrow> ops ! tile_pos cfg l t = tile_with_deps cfg l t" and k: "k \<le> ntiles cfg l"
  shows "lowered cfg ip (xs @ concat (map (tile_block cfg ip l) [0..<k])) (M \<union> Pair l ` {..<k})
      (D \<union> dep_pairs (plan cfg ip) (loop_deps cfg ip) (set (concat (map (tile_block cfg ip l) [0..<k]))))
      (B + (if staging ip l then min (k * cfg_tile_bytes cfg) (ch_bytes (chunk_of cfg l)) else 0))
      (fold (lower_tile (opts_of cfg ip) ops (tile_pos cfg l 0) (ntiles cfg l) (chunk_of cfg l)) [0..<k] s) \<and>
    chunk_idx cfg ip l k (fold (lower_tile (opts_of cfg ip) ops (tile_pos cfg l 0) (ntiles cfg l) (chunk_of cfg l)) [0..<k] s)"
  using k
proof (induction k)
  case 0
  then show ?case using low ci by simp
next
  case (Suc k)
  let ?L = "lower_tile (opts_of cfg ip) ops (tile_pos cfg l 0) (ntiles cfg l) (chunk_of cfg l)" and ?b = "cfg_tile_bytes cfg"
  let ?xs = "xs @ concat (map (tile_block cfg ip l) [0..<k])" and ?B = "\<lambda>k. B + (if staging ip l then min (k * ?b) (ch_bytes (chunk_of cfg l)) else 0)"
  have k: "k < ntiles cfg l" using Suc.prems by simp
  then have kb: "k * ?b < ch_bytes (chunk_of cfg l)" using ntiles_label(2) [OF small l] by simp
  have "xs @ concat (map (tile_block cfg ip l) [0..<ntiles cfg l]) =
      (?xs @ tile_block cfg ip l k) @ concat (map (tile_block cfg ip l) [Suc k..<ntiles cfg l])"
    unfolding filter_upto_Suc [OF k] by simp
  then have pre': "prefix (?xs @ tile_block cfg ip l k) (plan cfg ip)" using pre by (metis append_prefixD)
  have IH: "lowered cfg ip ?xs (M \<union> Pair l ` {..<k}) (D \<union> dep_pairs (plan cfg ip) (loop_deps cfg ip) (set (concat (map (tile_block cfg ip l) [0..<k]))))
      (?B k) (fold ?L [0..<k] s)" "chunk_idx cfg ip l k (fold ?L [0..<k] s)" using Suc by simp_all
  have M': "l' \<in> set (labels cfg) \<and> t' < ntiles cfg l'" if "(l', t') \<in> M \<union> Pair l ` {..<k}" for l' t'
    using that M l k by auto
  have "?B k = stage_off cfg l k" if "staging ip l" using that B [OF that] kb by (simp add: stage_off_def)
  note step = tile_step [OF small l k IH M' pre' this ops [OF k]]
  have e: "?B k + (if staging ip l then op_bytes (tile_with_deps cfg l k) else 0) = ?B (Suc k)"
    "insert (l, k) (M \<union> Pair l ` {..<k}) = M \<union> Pair l ` {..<Suc k}"
    "?xs @ tile_block cfg ip l k = xs @ concat (map (tile_block cfg ip l) [0..<Suc k])"
    "D \<union> dep_pairs (plan cfg ip) (loop_deps cfg ip) (set (concat (map (tile_block cfg ip l) [0..<k]))) \<union>
       dep_pairs (plan cfg ip) (loop_deps cfg ip) (set (tile_block cfg ip l k)) =
     D \<union> dep_pairs (plan cfg ip) (loop_deps cfg ip) (set (concat (map (tile_block cfg ip l) [0..<Suc k])))"
    using kb by (auto simp: tile_with_deps_def tile_def min_def less_Suc_eq dep_pairs_Un)
  have f: "fold ?L [0..<Suc k] s = ?L k (fold ?L [0..<k] s)" by simp
  show ?case using step unfolding tile_done_def e f .
qed

section \<open>The end of a chunk\<close>

lemma pair_parity: "pair_of cfg l mod 2 = gathers l"
proof -
  have "gathers l < 2" by (cases l) simp_all
  then show ?thesis by (simp add: chunk_of_def Let_def)
qed

lemma dep_pairs_alt: "dep_pairs T d X = (\<Union>x\<in>X. Pair (ix T x) ` ix T ` d x)"
  by (auto simp: dep_pairs_def)

lemma dep_pairs_restrict:
  assumes "Y \<subseteq> X" "\<And>x. x \<in> X \<Longrightarrow> x \<notin> Y \<Longrightarrow> d x = {}"
  shows "dep_pairs T d X = dep_pairs T d Y"
proof -
  have "x \<in> X \<and> y \<in> d x \<longleftrightarrow> x \<in> Y \<and> y \<in> d x" for x y using assms by blast
  then show ?thesis unfolding dep_pairs_def by simp
qed

lemma tail_step:
  assumes small: "small_plan cfg ip" and l: "l \<in> set (labels cfg)"
    and low: "lowered cfg ip xs M D B s" and ci: "chunk_idx cfg ip l (ntiles cfg l) s"
    and pre: "prefix (xs @ chunk_tail ip l) (plan cfg ip)"
  shows "lowered cfg ip (xs @ chunk_tail ip l) M (D \<union> dep_pairs (plan cfg ip) (tail_deps cfg ip) (set (chunk_plan cfg ip l))) B
    (snapshot_handshake (opts_of cfg ip) (chunk_of cfg l) s)"
proof -
  let ?T = "plan cfg ip" and ?ch = "chunk_of cfg l"
  have pid: "pair_of cfg l \<noteq> kNoPairId" using pair_of_less [OF small_planD(1) [OF small], of l] by (simp add: kNoPairId_def)
  have nt: "[0..<ntiles cfg l] \<noteq> []" using ntiles_label(1) [OF small l] by simp
  have act: "lo_reduce_snap_hs (opts_of cfg ip) \<and> pair_of cfg l \<noteq> kNoPairId \<and> pair_of cfg l mod 2 = 0 \<longleftrightarrow> ip \<and> gathers l = 0"
    using pid by (simp add: pair_parity)
  show ?thesis
  proof (cases "ip \<and> gathers l = 0")
    case False
    then have "dep_pairs ?T (tail_deps cfg ip) (set (chunk_plan cfg ip l)) = {}"
      by (auto simp: dep_pairs_def chunk_plan_def tile_block_def chunk_tail_def split: AlgoOpKind.splits if_splits)
    then show ?thesis unfolding snapshot_handshake_def act using False low by (auto simp: chunk_tail_def)
  next
    case True
    show ?thesis
    proof (cases "kind_of l")
      case Put
      have tl: "chunk_tail ip l = [TSnapWait l]" using True Put by (simp add: chunk_tail_def)
      have idx: "out_size s = ix ?T (TSnapWait l)" using pre by (intro out_size_ix [OF low _ small]) (simp add: tl)
      have P: "lo_snap_cp_indices s = []" "lo_put_indices s = map (\<lambda>u. ix ?T (TPut l u)) [0..<ntiles cfg l]"
        using ci Put by (simp_all add: chunk_idx_def)
      have "TiledOp_new\<lparr>t_kind := EWaitSignal, t_src_peer := u32_of_int (ch_dst_rank ?ch), t_tag := make_tag (pair_of cfg l) 0xFFFE\<rparr> =
          draft_op cfg ip (TSnapWait l)" by (simp add: draft_op_def TiledOp_new_def)
      note low1 = lowered_new_deps [OF lowered_emit [OF low this], of "map (\<lambda>j. (j, ix ?T (TSnapWait l))) (lo_put_indices s)"]
      have "dep_pairs ?T (tail_deps cfg ip) (set (chunk_plan cfg ip l)) =
          set (map (\<lambda>j. (j, ix ?T (TSnapWait l))) (lo_put_indices s))"
      proof -
        have "dep_pairs ?T (tail_deps cfg ip) (set (chunk_plan cfg ip l)) = dep_pairs ?T (tail_deps cfg ip) (TPut l ` {0..<ntiles cfg l})"
          using Put unfolding chunk_plan_def tl by (intro dep_pairs_restrict) (auto simp: tile_block_def split: if_splits)
        also have "\<dots> = set (map (\<lambda>j. (j, ix ?T (TSnapWait l))) (lo_put_indices s))"
          using True unfolding P by (auto simp: dep_pairs_alt)
        finally show ?thesis .
      qed
      then show ?thesis unfolding snapshot_handshake_def act tl using True low1 idx P(1) nt
        by (simp add: Let_def fold_new_dep emit_def P(2))
    next
      case Recv
      then have "lo_snap_cp_indices s = []" "lo_put_indices s = []" "chunk_tail ip l = []"
        "dep_pairs ?T (tail_deps cfg ip) (set (chunk_plan cfg ip l)) = {}"
        using ci by (auto simp: chunk_idx_def chunk_tail_def dep_pairs_def chunk_plan_def tile_block_def split: if_splits)
      then show ?thesis unfolding snapshot_handshake_def act using low by auto
    next
      case RecvReduce
      have tl: "chunk_tail ip l = [TSnapSig l]" using True RecvReduce by (simp add: chunk_tail_def)
      have idx: "out_size s = ix ?T (TSnapSig l)" using pre by (intro out_size_ix [OF low _ small]) (simp add: tl)
      have P: "lo_put_indices s = []" "lo_snap_cp_indices s = map (\<lambda>u. ix ?T (TSnap l u)) [0..<ntiles cfg l]"
        using ci RecvReduce True by (simp_all add: chunk_idx_def)
      have d: "TiledOp_new\<lparr>t_kind := ESignal, t_dst_peer := u32_of_int (ch_src_rank ?ch), t_tag := make_tag (pair_of cfg l) 0xFFFE\<rparr> =
          draft_op cfg ip (TSnapSig l)" by (simp add: draft_op_def TiledOp_new_def)
      note low1 = lowered_emit [OF lowered_new_deps [OF low, of "map (Pair (ix ?T (TSnapSig l))) (lo_snap_cp_indices s)"] d]
      have "dep_pairs ?T (tail_deps cfg ip) (set (chunk_plan cfg ip l)) =
          set (map (Pair (ix ?T (TSnapSig l))) (lo_snap_cp_indices s))"
      proof -
        have "dep_pairs ?T (tail_deps cfg ip) (set (chunk_plan cfg ip l)) = dep_pairs ?T (tail_deps cfg ip) {TSnapSig l}"
          using RecvReduce unfolding chunk_plan_def tl by (intro dep_pairs_restrict) (auto simp: tile_block_def split: if_splits)
        also have "\<dots> = set (map (Pair (ix ?T (TSnapSig l))) (lo_snap_cp_indices s))"
          unfolding P by (auto simp: dep_pairs_alt)
        finally show ?thesis .
      qed
      then show ?thesis unfolding snapshot_handshake_def act tl using True low1 idx P(1) nt
        by (simp add: Let_def fold_new_dep emit_def P(2))
    qed
  qed
qed

section \<open>The loop over the chunks\<close>

definition added_deps :: "CollectiveConfig \<Rightarrow> bool \<Rightarrow> tile_op \<Rightarrow> tile_op set" where
  "added_deps cfg ip x = loop_deps cfg ip x \<union> tail_deps cfg ip x"

definition handled :: "CollectiveConfig \<Rightarrow> ring_op list \<Rightarrow> (ring_op \<times> nat) set" where
  "handled cfg ls = {(l, t). l \<in> set ls \<and> t < ntiles cfg l}"

definition chunks_lowered :: "CollectiveConfig \<Rightarrow> bool \<Rightarrow> ring_op list \<Rightarrow> LowerState \<Rightarrow> bool" where
  "chunks_lowered cfg ip ls s \<longleftrightarrow>
     lowered cfg ip (concat (map (chunk_plan cfg ip) ls)) (handled cfg ls)
       (dep_pairs (plan cfg ip) (added_deps cfg ip) (set (concat (map (chunk_plan cfg ip) ls)))) (if ip then staged cfg ls else 0) s"

lemma added_pairs:
  "dep_pairs T (loop_deps cfg ip) (set (concat (map (tile_block cfg ip l) [0..<ntiles cfg l]))) \<union>
     dep_pairs T (tail_deps cfg ip) (set (chunk_plan cfg ip l)) = dep_pairs T (added_deps cfg ip) (set (chunk_plan cfg ip l))"
proof -
  have "dep_pairs T (loop_deps cfg ip) (set (chunk_plan cfg ip l)) =
      dep_pairs T (loop_deps cfg ip) (set (concat (map (tile_block cfg ip l) [0..<ntiles cfg l])))"
    unfolding chunk_plan_def by (rule dep_pairs_restrict) (auto simp: chunk_tail_def split: AlgoOpKind.splits if_splits)
  moreover have "dep_pairs T (added_deps cfg ip) X = dep_pairs T (loop_deps cfg ip) X \<union> dep_pairs T (tail_deps cfg ip) X" for X
    by (auto simp: dep_pairs_alt added_deps_def)
  ultimately show ?thesis by simp
qed

lemma chunk_step:
  assumes small: "small_plan cfg ip" and L: "labels cfg = ls @ l # rest" and low: "chunks_lowered cfg ip ls s"
    and ops: "\<And>t. t < ntiles cfg l \<Longrightarrow> ops ! tile_pos cfg l t = tile_with_deps cfg l t"
  shows "chunks_lowered cfg ip (ls @ [l]) (lower_chunk (opts_of cfg ip) ops (chunk_of cfg l, tile_pos cfg l 0, ntiles cfg l) s)"
proof -
  let ?T = "plan cfg ip" and ?xs = "concat (map (chunk_plan cfg ip) ls)" and ?tiles = "concat (map (tile_block cfg ip l) [0..<ntiles cfg l])"
  define s0 where "s0 = s\<lparr>lo_cp_indices := [], lo_put_indices := [], lo_snap_cp_indices := [], lo_sig_group_puts := [],
      lo_cur_group_ws := kNoOp, lo_chunk_staging := 0\<rparr>"
  define s1 where "s1 = fold (lower_tile (opts_of cfg ip) ops (tile_pos cfg l 0) (ntiles cfg l) (chunk_of cfg l)) [0..<ntiles cfg l] s0"
  have l: "l \<in> set (labels cfg)" by (simp add: L)
  have "l \<notin> set ls" using distinct_all_labels [of "cfg_n cfg"] L distinct_filter [of "all_labels (cfg_n cfg)" "live cfg"]
    by (simp add: labels_def)
  then have tw: "takeWhile (\<lambda>y. y \<noteq> l) (labels cfg) = ls" unfolding L by (subst takeWhile_append2) auto
  have "?T = (?xs @ chunk_plan cfg ip l) @ concat (map (chunk_plan cfg ip) rest)" by (simp add: plan_def L)
  then have pre: "prefix (?xs @ chunk_plan cfg ip l) ?T" by (metis prefixI)
  then have pre2: "prefix ((?xs @ ?tiles) @ chunk_tail ip l) ?T" by (simp add: chunk_plan_def)
  then have pre1: "prefix (?xs @ ?tiles) ?T" by (rule append_prefixD)
  have M: "l' \<in> set (labels cfg) \<and> t' < ntiles cfg l'" if "(l', t') \<in> handled cfg ls" for l' t' using that by (auto simp: handled_def L)
  have low0: "lowered cfg ip ?xs (handled cfg ls) (dep_pairs ?T (added_deps cfg ip) (set ?xs)) (if ip then staged cfg ls else 0) s0"
    using low unfolding chunks_lowered_def s0_def by (rule lowered_cong) simp_all
  have ci0: "chunk_idx cfg ip l 0 s0" by (simp add: chunk_idx_def s0_def)
  have B: "(if ip then staged cfg ls else 0) = stage_off cfg l 0" if "staging ip l" using that by (simp add: staging_def stage_off_def tw)
  note F = tiles_fold [OF small l low0 ci0 M pre1 B ops order_refl, folded s1_def]
  note low2 = tail_step [OF small l conjunct1 [OF F] conjunct2 [OF F] pre2]
  have "lower_chunk (opts_of cfg ip) ops (chunk_of cfg l, tile_pos cfg l 0, ntiles cfg l) s =
      (snapshot_handshake (opts_of cfg ip) (chunk_of cfg l) s1)\<lparr>lo_staging_bytes_out :=
        max (lo_chunk_staging (snapshot_handshake (opts_of cfg ip) (chunk_of cfg l) s1))
          (lo_staging_bytes_out (snapshot_handshake (opts_of cfg ip) (chunk_of cfg l) s1))\<rparr>"
    by (simp add: lower_chunk_def Let_def s0_def s1_def copies_done_barrier_def)
  moreover have "handled cfg ls \<union> Pair l ` {..<ntiles cfg l} = handled cfg (ls @ [l])" by (auto simp: handled_def)
  moreover have "(if ip then staged cfg ls else 0) +
      (if staging ip l then min (ntiles cfg l * cfg_tile_bytes cfg) (ch_bytes (chunk_of cfg l)) else 0) = (if ip then staged cfg (ls @ [l]) else 0)"
    using ntiles_label(2) [OF small l, of "ntiles cfg l"] by (simp add: staged_def staging_def)
  moreover have "(?xs @ ?tiles) @ chunk_tail ip l = concat (map (chunk_plan cfg ip) (ls @ [l]))" by (simp add: chunk_plan_def)
  moreover have "dep_pairs ?T (added_deps cfg ip) (set ?xs) \<union> dep_pairs ?T (loop_deps cfg ip) (set ?tiles) \<union>
      dep_pairs ?T (tail_deps cfg ip) (set (chunk_plan cfg ip l)) =
      dep_pairs ?T (added_deps cfg ip) (set (concat (map (chunk_plan cfg ip) (ls @ [l]))))"
    unfolding Un_assoc added_pairs by (simp add: dep_pairs_Un)
  ultimately show ?thesis unfolding chunks_lowered_def using low2 by (auto intro: lowered_cong)
qed

lemma chunks_fold:
  assumes small: "small_plan cfg ip" and L: "labels cfg = ls @ rest"
    and ops: "\<And>l t. l \<in> set (labels cfg) \<Longrightarrow> t < ntiles cfg l \<Longrightarrow> ops ! tile_pos cfg l t = tile_with_deps cfg l t"
  shows "chunks_lowered cfg ip ls (fold (lower_chunk (opts_of cfg ip) ops) (map (\<lambda>l. (chunk_of cfg l, tile_pos cfg l 0, ntiles cfg l)) ls)
    (LowerState_new (sum_list (tile_counts cfg))))"
  using L
proof (induction ls arbitrary: rest rule: rev_induct)
  case Nil
  show ?case by (simp add: chunks_lowered_def lowered_def LowerState_new_def handled_def staged_def)
next
  case (snoc l ls)
  then have L: "labels cfg = ls @ l # rest" by simp
  from chunk_step [OF small L snoc.IH [OF L] ops] L show ?case by simp
qed

section \<open>The tiles before the lowering\<close>

lemma same_tiles:
  assumes small: "small_plan cfg ip" and l: "l \<in> set (labels cfg)" and w: "waits_for (cfg_n cfg) l = Some l'"
  shows "l' \<in> set (labels cfg)" "ntiles cfg l' = ntiles cfg l" "ch_bytes (chunk_of cfg l') = ch_bytes (chunk_of cfg l)"
    "ch_dst_off (chunk_of cfg l') = ch_dst_off (chunk_of cfg l)"
proof -
  have "step_of l < cfg_n cfg - 1" using l by (simp add: set_labels)
  note o = owner_waits_for [OF w this ring_okD(3) [OF small_planD(1) [OF small]]]
  show "l' \<in> set (labels cfg)" using l o by (simp add: set_labels live_def)
  show b: "ch_bytes (chunk_of cfg l') = ch_bytes (chunk_of cfg l)" "ch_dst_off (chunk_of cfg l') = ch_dst_off (chunk_of cfg l)"
    using o by (simp_all add: chunk_of_def Let_def)
  then show "ntiles cfg l' = ntiles cfg l" by (simp add: ntiles_def num_tiles_of_def)
qed

lemma tiled_ops:
  assumes small: "small_plan cfg ip"
    and tc: "tile_chunks (cfg_tile_bytes cfg) (map (chunk_of cfg) (labels cfg)) ([], []) = (ops0, first)"
  shows "first = map (\<lambda>l. tile_pos cfg l 0) (labels cfg)"
    and "length (propagate_deps (map (chunk_of cfg) (labels cfg)) first (tile_counts cfg) ops0) = sum_list (tile_counts cfg)"
    and "\<And>l t. l \<in> set (labels cfg) \<Longrightarrow> t < ntiles cfg l \<Longrightarrow>
      propagate_deps (map (chunk_of cfg) (labels cfg)) first (tile_counts cfg) ops0 ! tile_pos cfg l t = tile_with_deps cfg l t"
proof -
  let ?b = "cfg_tile_bytes cfg" and ?cs = "map (chunk_of cfg) (labels cfg)" and ?ns = "tile_counts cfg"
  let ?bl = "map (\<lambda>c. map (tile ?b c) [0..<num_tiles_of ?b c]) ?cs"
  have ns: "map (num_tiles_of ?b) ?cs = ?ns" "map length ?bl = ?ns" "length ?cs = length ?ns" by (simp_all add: tile_counts_def ntiles_def)
  have o: "ops0 = concat ?bl" "first = map (start ?ns) [0..<length ?ns]" using tc unfolding tile_chunks_eq ns by simp_all
  have dist: "distinct (labels cfg)" by (simp add: labels_def distinct_all_labels)
  show "first = map (\<lambda>l. tile_pos cfg l 0) (labels cfg)"
    unfolding o(2) by (rule nth_equalityI) (simp_all add: tile_counts_def tile_pos_def ix_nth [OF dist])
  have dep: "set (ch_deps (?cs ! i)) \<subseteq> {..<length ?ns}" if "i < length ?ns" for i
  proof -
    have "labels cfg ! i \<in> set (labels cfg)" using that by (simp add: tile_counts_def)
    note st = same_tiles(1) [OF small this]
    show ?thesis using that ix_less [OF st]
      by (cases "waits_for (cfg_n cfg) (labels cfg ! i)") (simp_all add: chunk_of_def Let_def tile_counts_def)
  qed
  have len: "length ops0 = sum_list ?ns" unfolding o(1) length_concat ns(2) [symmetric] by simp
  have "op_deps q = []" if "q \<in> set ops0" for q using that by (auto simp: o(1) tile_def)
  from propagate_deps_ok [OF len ns(3) o(2) dep this]
  have W: "with_deps (\<lambda>i. tile_deps ?ns (ch_deps (?cs ! i))) ?ns ops0 (propagate_deps ?cs first ?ns ops0)" by blast
  then show "length (propagate_deps ?cs first ?ns ops0) = sum_list ?ns" by (simp add: with_deps_def)
  fix l t assume l: "l \<in> set (labels cfg)" and t: "t < ntiles cfg l"
  have i: "ix (labels cfg) l < length ?ns" "?ns ! ix (labels cfg) l = ntiles cfg l" "?cs ! ix (labels cfg) l = chunk_of cfg l"
    using ix_less [OF l] nth_ix [OF l] by (simp_all add: tile_counts_def)
  have "ops0 ! tile_pos cfg l t = tile ?b (chunk_of cfg l) t"
    unfolding o(1) tile_pos_def ns(2) [symmetric] using ix_less [OF l] nth_ix [OF l] t
    by (subst concat_nth) (simp_all add: ntiles_def)
  moreover have "tile_deps ?ns (ch_deps (chunk_of cfg l)) t = (case waits_for (cfg_n cfg) l of None \<Rightarrow> [] | Some l' \<Rightarrow> [tile_pos cfg l' t])"
  proof (cases "waits_for (cfg_n cfg) l")
    case (Some l')
    note st = same_tiles [OF small l Some]
    have "tile_pos cfg l' t < 2 ^ 32" using tile_pos_less [OF st(1), of t] t st(2) small_planD(5) [OF small] by simp
    moreover have "?ns ! ix (labels cfg) l' = ntiles cfg l" using ix_less [OF st(1)] nth_ix [OF st(1)] st(2) by (simp add: tile_counts_def)
    ultimately show ?thesis using Some t by (simp add: chunk_of_def Let_def tile_deps_def tile_pos_def u32_wrap_less)
  qed (simp add: chunk_of_def Let_def tile_deps_def)
  ultimately show "propagate_deps ?cs first ?ns ops0 ! tile_pos cfg l t = tile_with_deps cfg l t"
    using W i t unfolding with_deps_def tile_with_deps_def by (metis tile_pos_def)
qed

section \<open>The plan\<close>

lemma add_new_deps:
  assumes "fst ` set ds \<subseteq> {..<length out}"
  shows "length (fold add_new_dep ds out) = length out \<and> (\<forall>i<length out. fold add_new_dep ds out ! i =
    (out ! i)\<lparr>t_deps := t_deps (out ! i) @ map snd (filter (\<lambda>d. fst d = i) ds)\<rparr>)"
  using assms
proof (induction ds arbitrary: out)
  case (Cons d ds)
  obtain a b where d: "d = (a, b)" by (cases d)
  have "a < length out" using Cons.prems d by simp
  have "fst ` set ds \<subseteq> {..<length (add_new_dep d out)}" using Cons.prems by (simp add: add_new_dep_def d)
  note IH = Cons.IH [OF this]
  have "length (add_new_dep d out) = length out" by (simp add: add_new_dep_def d)
  moreover have "add_new_dep d out ! i = (if i = a then (out ! i)\<lparr>t_deps := t_deps (out ! i) @ [b]\<rparr> else out ! i)" if "i < length out" for i
    using that by (simp add: add_new_dep_def d)
  ultimately show ?case using IH by (simp add: d)
qed simp

text \<open>The operations of the plan.\<close>

lemma group_end:
  assumes "t < ntiles cfg l"
  shows "\<exists>u<ntiles cfg l. ends_group cfg l u \<and> u div grp cfg = t div grp cfg"
proof -
  let ?G = "grp cfg"
  define u where "u = min (t div ?G * ?G + (?G - 1)) (ntiles cfg l - 1)"
  have "t mod ?G \<le> ?G - 1" using mod_less_divisor [OF grp_pos [of cfg], of t] by linarith
  then have "t div ?G * ?G + t mod ?G \<le> t div ?G * ?G + (?G - 1)" by (rule add_left_mono)
  then have le: "t \<le> u" using assms by (simp add: u_def)
  have "u div ?G \<le> (t div ?G * ?G + (?G - 1)) div ?G" by (rule div_le_mono) (simp add: u_def)
  also have "\<dots> = t div ?G" by simp
  finally have "u div ?G = t div ?G" using div_le_mono [OF le, of ?G] by simp
  moreover have "ends_group cfg l u"
  proof (cases "u = ntiles cfg l - 1")
    case False
    then have "u = t div ?G * ?G + (?G - 1)" by (simp add: u_def min_def split: if_splits)
    then show ?thesis by (simp add: ends_group_def)
  qed (use assms in \<open>simp add: ends_group_def\<close>)
  moreover have "u < ntiles cfg l" using assms by (auto simp: u_def)
  ultimately show ?thesis by blast
qed

lemma group_begin: "t < ntiles cfg l \<Longrightarrow> t div grp cfg * grp cfg < ntiles cfg l"
  using div_times_less_eq_dividend [of t "grp cfg"] by linarith

lemma in_plan:
  "TPut l t \<in> set (plan cfg ip) \<longleftrightarrow> l \<in> set (labels cfg) \<and> kind_of l = Put \<and> t < ntiles cfg l"
  "TSig l g \<in> set (plan cfg ip) \<longleftrightarrow> l \<in> set (labels cfg) \<and> kind_of l = Put \<and> (\<exists>t<ntiles cfg l. t div grp cfg = g)"
  "TWait l g \<in> set (plan cfg ip) \<longleftrightarrow> l \<in> set (labels cfg) \<and> kind_of l = Recv \<and> (\<exists>t<ntiles cfg l. t div grp cfg = g)"
  "TRed l t \<in> set (plan cfg ip) \<longleftrightarrow> l \<in> set (labels cfg) \<and> kind_of l = RecvReduce \<and> t < ntiles cfg l"
  "TSnap l t \<in> set (plan cfg ip) \<longleftrightarrow> ip \<and> l \<in> set (labels cfg) \<and> kind_of l = RecvReduce \<and> t < ntiles cfg l"
  "TSnapSig l \<in> set (plan cfg ip) \<longleftrightarrow> ip \<and> l \<in> set (labels cfg) \<and> gathers l = 0 \<and> kind_of l = RecvReduce"
  "TSnapWait l \<in> set (plan cfg ip) \<longleftrightarrow> ip \<and> l \<in> set (labels cfg) \<and> gathers l = 0 \<and> kind_of l = Put"
proof -
  have s: "x \<in> set (chunk_plan cfg ip l) \<longleftrightarrow>
      (case kind_of l of
         Put \<Rightarrow> (\<exists>t<ntiles cfg l. x = TPut l t \<or> ends_group cfg l t \<and> x = TSig l (t div grp cfg))
       | Recv \<Rightarrow> (\<exists>t<ntiles cfg l. t mod grp cfg = 0 \<and> x = TWait l (t div grp cfg))
       | RecvReduce \<Rightarrow> (\<exists>t<ntiles cfg l. x = TRed l t \<or> ip \<and> x = TSnap l t)) \<or> x \<in> set (chunk_tail ip l)" for x l
    unfolding chunk_plan_def by (cases "kind_of l") (auto simp: tile_block_def split: if_splits)
  have "(\<exists>t<ntiles cfg l. ends_group cfg l t \<and> g = t div grp cfg) \<longleftrightarrow> (\<exists>t<ntiles cfg l. t div grp cfg = g)" using group_end by metis
  then show "TSig l g \<in> set (plan cfg ip) \<longleftrightarrow> l \<in> set (labels cfg) \<and> kind_of l = Put \<and> (\<exists>t<ntiles cfg l. t div grp cfg = g)"
    unfolding set_plan chunk_label.simps s by (cases "kind_of l") (auto simp: chunk_tail_def)
  have "(\<exists>t<ntiles cfg l. t mod grp cfg = 0 \<and> g = t div grp cfg) \<longleftrightarrow> (\<exists>t<ntiles cfg l. t div grp cfg = g)"
  proof
    assume "\<exists>t<ntiles cfg l. t div grp cfg = g"
    then show "\<exists>t<ntiles cfg l. t mod grp cfg = 0 \<and> g = t div grp cfg"
      using group_begin [of _ cfg l] by (auto intro!: exI [of _ "g * grp cfg"])
  qed auto
  then show "TWait l g \<in> set (plan cfg ip) \<longleftrightarrow> l \<in> set (labels cfg) \<and> kind_of l = Recv \<and> (\<exists>t<ntiles cfg l. t div grp cfg = g)"
    unfolding set_plan chunk_label.simps s by (cases "kind_of l") (auto simp: chunk_tail_def)
qed (unfold set_plan chunk_label.simps, (cases "kind_of l"; auto simp: chunk_plan_def tile_block_def chunk_tail_def)+)

lemma plan_deps:
  assumes x: "x \<in> set (plan cfg ip)" and y: "y \<in> added_deps cfg ip x"
  shows "y \<in> set (plan cfg ip)"
  using y
proof (cases x)
  case (TPut l t)
  then show ?thesis using x y by (auto simp: in_plan added_deps_def split: if_splits)
next
  case (TSnapSig l)
  then show ?thesis using x y by (auto simp: in_plan added_deps_def)
qed (use x in \<open>auto simp: in_plan added_deps_def split: if_splits\<close>)

lemma mapped_plan: "l \<in> set (labels cfg) \<Longrightarrow> t < ntiles cfg l \<Longrightarrow> mapped cfg l t \<in> set (plan cfg ip)"
  by (cases "kind_of l") (auto simp: mapped_def in_plan)

lemma tile_dep_label:
  assumes small: "small_plan cfg ip" and x: "x \<in> set (plan cfg ip)" and d: "tile_dep cfg x = Some (l, t)"
  shows "l \<in> set (labels cfg)" "t < ntiles cfg l"
proof -
  obtain l' where l': "l' \<in> set (labels cfg)" "waits_for (cfg_n cfg) l' = Some l" "t < ntiles cfg l'"
    using d x by (cases x) (auto simp: in_plan)
  show "l \<in> set (labels cfg)" "t < ntiles cfg l" using same_tiles [OF small l'(1,2)] l'(3) by simp_all
qed

lemma lower_to_tiled_plan:
  assumes small: "small_plan cfg ip"
    and tc: "tile_chunks (cfg_tile_bytes cfg) (map (chunk_of cfg) (labels cfg)) ([], []) = (ops0, first)"
    and lo: "lower_to_tiled (opts_of cfg ip) (propagate_deps (map (chunk_of cfg) (labels cfg)) first (tile_counts cfg) ops0)
      (map (chunk_of cfg) (labels cfg)) first (tile_counts cfg) = (out, s)"
  shows "length out = length (plan cfg ip)" and "ip \<Longrightarrow> staged cfg (labels cfg) \<le> lo_staging_bytes s"
    and "\<And>x. x \<in> set (plan cfg ip) \<Longrightarrow>
      \<exists>ds. out ! ix (plan cfg ip) x = (op_of cfg ip x)\<lparr>t_deps := ds\<rparr> \<and> set ds = ix (plan cfg ip) ` deps_of cfg ip x"
proof -
  let ?T = "plan cfg ip"
  define ops where "ops = propagate_deps (map (chunk_of cfg) (labels cfg)) first (tile_counts cfg) ops0"
  note T = tiled_ops [OF small tc, folded ops_def]
  define st where "st = fold (lower_chunk (opts_of cfg ip) ops)
      (zip (map (chunk_of cfg) (labels cfg)) (zip first (tile_counts cfg))) (LowerState_new (length ops))"
  have z: "zip (map (chunk_of cfg) (labels cfg)) (zip first (tile_counts cfg)) =
      map (\<lambda>l. (chunk_of cfg l, tile_pos cfg l 0, ntiles cfg l)) (labels cfg)"
    unfolding T(1) tile_counts_def by (simp add: zip_map_map map_zip_map2 zip_same_conv_map)
  have "chunks_lowered cfg ip (labels cfg) st" unfolding st_def z T(2) by (rule chunks_fold [OF small _ T(3)]) auto
  then have F: "lo_out st = map (draft_op cfg ip) ?T" "set (lo_new_deps st) = dep_pairs ?T (added_deps cfg ip) (set ?T)"
      "\<And>l t. l \<in> set (labels cfg) \<Longrightarrow> t < ntiles cfg l \<Longrightarrow> lo_old_to_new st ! tile_pos cfg l t = ix ?T (mapped cfg l t)"
      "lo_staging_bytes st = (if ip then staged cfg (labels cfg) else 0)"
    by (auto simp: chunks_lowered_def lowered_def plan_def handled_def)
  define out1 where "out1 = map (\<lambda>p. p\<lparr>t_deps := map (remap_dep (length ops) (lo_old_to_new st)) (t_deps p)\<rparr>) (lo_out st)"
  have o: "out = fold add_new_dep (lo_new_deps st) out1" "lo_staging_bytes s = max (lo_staging_bytes_out st) (lo_staging_bytes st)"
    using lo unfolding lower_to_tiled_def Let_def ops_def [symmetric] st_def [symmetric] out1_def [symmetric] by auto
  show "ip \<Longrightarrow> staged cfg (labels cfg) \<le> lo_staging_bytes s" using o(2) F(4) by simp
  have len: "length out1 = length ?T" by (simp add: out1_def F(1))
  have "fst ` set (lo_new_deps st) \<subseteq> {..<length out1}" unfolding F(2) len using ix_less by (auto simp: dep_pairs_def)
  note A = add_new_deps [OF this, folded o(1)]
  show "length out = length ?T" using A len by simp
  fix x assume x: "x \<in> set ?T"
  define ds where "ds = map (remap_dep (length ops) (lo_old_to_new st)) (t_deps (draft_op cfg ip x))"
  have ds: "set ds = ix ?T ` (case tile_dep cfg x of None \<Rightarrow> {} | Some (l, t) \<Rightarrow> {mapped cfg l t})"
  proof (cases "tile_dep cfg x")
    case (Some lt)
    obtain l t where lt: "lt = (l, t)" by (cases lt)
    note l = tile_dep_label [OF small x Some [unfolded lt]]
    have "ix ?T (mapped cfg l t) < kNoOp" using ix_less [OF mapped_plan [OF l], of ip] small_planD(6) [OF small] by linarith
    then show ?thesis using Some F(3) [OF l] tile_pos_less [OF l] T(2) by (simp add: ds_def draft_op_def lt remap_dep_def)
  qed (simp add: ds_def draft_op_def)
  have "out1 ! ix ?T x = (op_of cfg ip x)\<lparr>t_deps := ds\<rparr>"
    using ix_less [OF x] nth_ix [OF x] by (simp add: out1_def F(1) ds_def) (simp add: draft_op_def)
  then have "out ! ix ?T x = (op_of cfg ip x)\<lparr>t_deps := ds @ map snd (filter (\<lambda>d. fst d = ix ?T x) (lo_new_deps st))\<rparr>"
    using A ix_less [OF x] len by simp
  moreover have "set (map snd (filter (\<lambda>d. fst d = ix ?T x) (lo_new_deps st))) = ix ?T ` added_deps cfg ip x"
    using x by (auto simp: F(2) dep_pairs_def ix_inj image_iff) (metis fst_conv snd_conv)
  ultimately show "\<exists>ds. out ! ix ?T x = (op_of cfg ip x)\<lparr>t_deps := ds\<rparr> \<and> set ds = ix ?T ` deps_of cfg ip x"
    using ds by (intro exI [of _ "ds @ map snd (filter (\<lambda>d. fst d = ix ?T x) (lo_new_deps st))"])
      (simp add: deps_of_def added_deps_def image_Un Un_assoc)
qed

text \<open>The plan built for an accepted configuration.\<close>

definition is_plan :: "CollectiveConfig \<Rightarrow> bool \<Rightarrow> TiledResult \<Rightarrow> bool" where
  "is_plan cfg ip r \<longleftrightarrow> length (tr_ops r) = length (plan cfg ip) \<and> (ip \<longrightarrow> staged cfg (labels cfg) \<le> tr_staging_bytes_required r) \<and>
     (\<forall>x\<in>set (plan cfg ip). \<exists>ds. tr_ops r ! ix (plan cfg ip) x = (op_of cfg ip x)\<lparr>t_deps := ds\<rparr> \<and>
        set ds = ix (plan cfg ip) ` deps_of cfg ip x)"

lemma build_tiled_plan:
  assumes small: "small_plan cfg ip" and k: "cfg_kind cfg = AllReduceRing" and b: "0 < cfg_input_bytes cfg"
  shows "\<exists>r. build_tiled cfg ip = Inr r \<and> is_plan cfg ip r"
proof -
  have "require_collective_config cfg = Inr ()"
    using small_planD(1,4) [OF small] k b elem_size_pos [of "cfg_dtype cfg"] by (simp add: require_collective_config_def Let_def ring_ok_def)
  then have algo: "build_coll_algo cfg = Inr (build_allreduce_ring_algo cfg)" by (simp add: build_coll_algo_def k)
  have opts: "\<lparr>lo_inplace = ip, lo_stage_puts = (cfg_kind cfg = AllToAllPairwise \<and> ip \<and> cfg_input_split_bytes cfg \<noteq> []),
      lo_reduce_snap_hs = (cfg_kind cfg = AllReduceRing \<and> ip), lo_signal_group_tiles = cfg_signal_group_tiles cfg\<rparr> = opts_of cfg ip"
    by (simp add: opts_of_def k)
  note ch = allreduce_chunks [OF small_planD(1) [OF small]]
  have bt: "build_tiled cfg ip = lower_algo (build_allreduce_ring_algo cfg) (cfg_tile_bytes cfg) (opts_of cfg ip)"
    unfolding build_tiled_def opts using k algo by simp
  have ns: "map (num_tiles_of (cfg_tile_bytes cfg)) (map (chunk_of cfg) (labels cfg)) = tile_counts cfg" by (simp add: tile_counts_def ntiles_def)
  show ?thesis
  proof (cases "labels cfg = []")
    case True
    then have "plan cfg ip = []" "staged cfg (labels cfg) = 0" by (simp_all add: plan_def staged_def)
    then show ?thesis unfolding bt lower_algo_def Let_def ch using True small_planD(2) [OF small] by (simp add: is_plan_def)
  next
    case False
    obtain ops0 first where tc: "tile_chunks (cfg_tile_bytes cfg) (map (chunk_of cfg) (labels cfg)) ([], []) = (ops0, first)" by fastforce
    obtain out s where lo: "lower_to_tiled (opts_of cfg ip) (propagate_deps (map (chunk_of cfg) (labels cfg)) first (tile_counts cfg) ops0)
      (map (chunk_of cfg) (labels cfg)) first (tile_counts cfg) = (out, s)" by fastforce
    note P = lower_to_tiled_plan [OF small tc lo]
    show ?thesis unfolding bt lower_algo_def Let_def ch ns tc using False small_planD(2) [OF small] P
      by (simp add: lo is_plan_def)
  qed
qed

end
