(* ===== verification/CollSync.thy ===== *)
theory CollSync
  imports CollRun
begin

text \<open>
  How the ranks of a ring all-reduce synchronise: which signal a wait of another rank is for, that no
  two operations share a tag, and the order that dependencies and signals impose on the operations
  of a run. A run that is not finished can always go on.
\<close>

section \<open>Tags\<close>

lemma unat_make_tag:
  assumes "a < 2 ^ 32" "g < 2 ^ 16"
  shows "unat (make_tag a g) = push_bit 16 a OR g"
proof -
  have "unat (push_bit 16 (of_nat a :: u64)) = take_bit 64 (push_bit 16 (take_bit 64 a))"
    by (simp add: unsigned_push_bit_eq unat_of_nat take_bit_eq_mod)
  moreover have "push_bit 16 a < 2 ^ 64" using assms(1) by (simp add: push_bit_eq_mult)
  moreover have "take_bit 64 a = a" using assms(1) by (simp add: take_bit_nat_eq_self_iff)
  ultimately have "unat (push_bit 16 (of_nat a :: u64)) = push_bit 16 a" by (simp add: take_bit_nat_eq_self_iff)
  moreover have "unat (of_nat g :: u64) = g" using assms(2) by (simp add: unat_of_nat)
  ultimately show ?thesis by (simp add: make_tag_def unsigned_or_eq)
qed

lemma make_tag_inj:
  assumes "a < 2 ^ 32" "g < 2 ^ 16" "b < 2 ^ 32" "h < 2 ^ 16" "make_tag a g = make_tag b h"
  shows "a = b" "g = h"
proof -
  have e: "push_bit 16 a OR g = push_bit 16 b OR h" using unat_make_tag assms by metis
  have d: "drop_bit 16 (push_bit 16 x OR y) = x" "take_bit 16 (push_bit 16 x OR y) = y" if "y < 2 ^ 16" for x y :: nat
  proof -
    have y: "drop_bit 16 y = 0" "take_bit 16 y = y" using that by (simp_all add: drop_bit_eq_div take_bit_nat_eq_self_iff)
    show "drop_bit 16 (push_bit 16 x OR y) = x" unfolding drop_bit_or y by (simp add: drop_bit_eq_div push_bit_eq_mult)
    show "take_bit 16 (push_bit 16 x OR y) = y" unfolding take_bit_or y by (simp add: take_bit_push_bit)
  qed
  show "a = b" "g = h" using d [OF assms(2), of a] d [OF assms(4), of b] e by simp_all
qed

section \<open>Hops\<close>

text \<open>
  A shard travels round the ring: from its owner through the reductions of the other ranks (hops 1 to
  \<open>n - 1\<close>), and on through the ring once more as a result (hops \<open>n\<close> to \<open>2 * n - 2\<close>).
\<close>

fun hop :: "nat \<Rightarrow> ring_op \<Rightarrow> nat" where
  "hop n (RsPut s) = s"
| "hop n (RsRecv s) = s + 1"
| "hop n (RsReduce s) = s + 1"
| "hop n (AgPut s) = s + (n - 1)"
| "hop n (AgRecv s) = s + n"

lemma owner_hop:
  assumes "r < n" "step_of l < n - 1"
  shows "(owner n r l + hop n l) mod n = r"
proof -
  have e: "((m mod n) + j) mod n = r" if "m + j = r + c * n" for m j c
    using that assms(1) by (simp add: mod_add_left_eq)
  show ?thesis
  proof (cases l)
    case (RsPut s)
    then show ?thesis using e [of "r + n - s" s 1] assms by simp
  next
    case (RsRecv s)
    then show ?thesis using e [of "r + n - s - 1" "s + 1" 1] assms by simp
  next
    case (RsReduce s)
    then show ?thesis using e [of "r + n - s - 1" "s + 1" 1] assms by simp
  next
    case (AgPut s)
    then show ?thesis using e [of "r + 1 + n - s" "s + (n - 1)" 2] assms by simp
  next
    case (AgRecv s)
    then show ?thesis using e [of "r + n - s" "s + n" 2] assms by simp
  qed
qed

lemma mod_add_inj:
  assumes "a < n" "b < n" "(a + h) mod n = (b + h) mod n"
  shows "a = (b :: nat)"
proof -
  have "x = y" if "x \<le> y" "y < n" "(x + h) mod n = (y + h) mod n" for x y
  proof -
    have "n dvd (y + h) - (x + h)" using that by (intro mod_eq_dvd_iff_nat [THEN iffD1]) simp_all
    then show ?thesis using that by (auto dest: dvd_imp_le)
  qed
  then show ?thesis using assms by (metis linorder_le_cases)
qed

lemma owner_eqI:
  assumes "k < n" "r < n" "step_of l < n - 1" "(k + hop n l) mod n = r"
  shows "owner n r l = k"
proof -
  have o: "owner n r l < n" using assms(1) by (intro owner_less) simp
  show ?thesis by (rule mod_add_inj [OF o assms(1), of "hop n l"]) (use owner_hop [OF assms(2,3)] assms(4) in metis)
qed

definition tiles :: "CollectiveConfig \<Rightarrow> nat \<Rightarrow> nat" where
  "tiles cfg k = ceil_div (shard_size cfg k) (cfg_tile_bytes cfg)"

lemma ntiles_rcfg [simp]: "ntiles (rcfg cfg r) l = tiles cfg (owner (cfg_n cfg) r l)"
  by (simp add: ntiles_def num_tiles_of_def tiles_def chunk_of_def Let_def)

lemma set_labels_rcfg:
  "l \<in> set (labels (rcfg cfg r)) \<longleftrightarrow> step_of l < cfg_n cfg - 1 \<and> 0 < shard_size cfg (owner (cfg_n cfg) r l)"
  by (simp add: set_labels live_def)

lemma ring_job_n:
  assumes "ring_job cfg ip"
  shows "2 \<le> cfg_n cfg" "cfg_n cfg \<le> 2 ^ 29"
proof -
  show n: "2 \<le> cfg_n cfg" using assms by (simp add: ring_job_def cfg_n_def le_nat_iff)
  have "small_plan (rcfg cfg 0) ip" using ring_jobD(1) [OF assms, of 0] n by simp
  from ring_okD(5) [OF small_planD(1) [OF this]] show "cfg_n cfg \<le> 2 ^ 29" by simp
qed

text \<open>The neighbours of a rank as the operations name them.\<close>

lemma peer_small: "m < n \<Longrightarrow> n \<le> 2 ^ 29 \<Longrightarrow> peer_of_rank (int m) = m \<and> u32_of_int (int m) = m \<and> m \<noteq> local_peer"
  by (simp add: peer_of_rank_def u32_of_int_def local_peer_def nat_mod_distrib)

lemma op_peers:
  assumes job: "ring_job cfg ip" and r: "r < cfg_n cfg"
  shows "kind_of l = Put \<Longrightarrow> peer_of_rank (ch_dst_rank (chunk_of (rcfg cfg r) l)) = (r + 1) mod cfg_n cfg"
    "kind_of l = Put \<Longrightarrow> u32_of_int (ch_dst_rank (chunk_of (rcfg cfg r) l)) = (r + 1) mod cfg_n cfg"
    "kind_of l = Put \<Longrightarrow> peer_of_rank (ch_src_rank (chunk_of (rcfg cfg r) l)) = local_peer"
    "kind_of l \<noteq> Put \<Longrightarrow> peer_of_rank (ch_src_rank (chunk_of (rcfg cfg r) l)) = (r + cfg_n cfg - 1) mod cfg_n cfg"
    "kind_of l \<noteq> Put \<Longrightarrow> u32_of_int (ch_src_rank (chunk_of (rcfg cfg r) l)) = (r + cfg_n cfg - 1) mod cfg_n cfg"
  using ring_job_n [OF job] peer_small [of "(r + 1) mod cfg_n cfg" "cfg_n cfg"] peer_small [of "(r + cfg_n cfg - 1) mod cfg_n cfg" "cfg_n cfg"]
  by (simp_all add: chunk_of_def Let_def) (simp add: peer_of_rank_def)

section \<open>Matching of signals and waits\<close>

fun waits :: "tile_op \<Rightarrow> bool" where
  "waits (TWait l g) = True"
| "waits (TSnapWait l) = True"
| "waits _ = False"

fun signals :: "tile_op \<Rightarrow> bool" where
  "signals (TSig l g) = True"
| "signals (TSnapSig l) = True"
| "signals _ = False"

lemma op_kinds:
  "t_kind (op_of cfg ip x) = EWaitSignal \<longleftrightarrow> waits x" "t_kind (op_of cfg ip x) = ESignal \<longleftrightarrow> signals x"
  "moves (op_of cfg ip x) \<longleftrightarrow> \<not> waits x \<and> \<not> signals x"
  by (cases x; simp add: Let_def TiledOp_new_def moves_def)+

text \<open>The signal a wait is for, and the rank that sends it.\<close>

fun sender :: "tile_op \<Rightarrow> tile_op" where
  "sender (TWait (RsRecv s) g) = TSig (RsPut s) g"
| "sender (TWait (AgRecv s) g) = TSig (AgPut s) g"
| "sender (TSnapWait (RsPut s)) = TSnapSig (RsReduce s)"
| "sender x = x"

fun sender_rank :: "nat \<Rightarrow> nat \<Rightarrow> tile_op \<Rightarrow> nat" where
  "sender_rank n r (TSnapWait l) = (r + 1) mod n"
| "sender_rank n r x = (r + n - 1) mod n"

lemma next_prev:
  assumes "r < (n :: nat)"
  shows "((r + n - 1) mod n + 1) mod n = r" "((r + 1) mod n + n - 1) mod n = r"
proof -
  have "((r + n - 1) mod n + 1) mod n = (r + n - 1 + 1) mod n" by (rule mod_add_left_eq)
  then show "((r + n - 1) mod n + 1) mod n = r" using assms by simp
  have "((r + 1) mod n + (n - 1)) mod n = (r + 1 + (n - 1)) mod n" by (rule mod_add_left_eq)
  then show "((r + 1) mod n + n - 1) mod n = r" using assms by simp
qed

lemma prev_mod: "0 < (n :: nat) \<Longrightarrow> (m + 1) mod n = r \<Longrightarrow> m mod n = (r + n - 1) mod n"
proof -
  assume n: "0 < n" and r: "(m + 1) mod n = r"
  have "((m + 1) mod n + (n - 1)) mod n = (m + 1 + (n - 1)) mod n" by (rule mod_add_left_eq)
  then show ?thesis using n r by simp
qed

lemma owner_mates:
  assumes r: "r < n" and s: "s < n - 1"
  shows "owner n ((r + n - 1) mod n) (RsPut s) = owner n r (RsRecv s)" "owner n ((r + n - 1) mod n) (AgPut s) = owner n r (AgRecv s)"
    "owner n ((r + 1) mod n) (RsReduce s) = owner n r (RsPut s)"
proof -
  have n: "0 < n" using r by simp
  note o = owner_less [OF n]
  show "owner n ((r + n - 1) mod n) (RsPut s) = owner n r (RsRecv s)"
    using owner_hop [OF r, of "RsRecv s"] s n
    by (intro owner_eqI o) (simp_all add: prev_mod [OF n, of _ r] del: owner.simps)
  show "owner n ((r + n - 1) mod n) (AgPut s) = owner n r (AgRecv s)"
    using owner_hop [OF r, of "AgRecv s"] s n
    by (intro owner_eqI o) (simp_all add: prev_mod [OF n, of _ r] del: owner.simps)
  have "(owner n r (RsPut s) + s + 1) mod n = (r + 1) mod n"
    using owner_hop [OF r, of "RsPut s"] s by (metis hop.simps(1) mod_add_left_eq step_of.simps(1))
  then show "owner n ((r + 1) mod n) (RsReduce s) = owner n r (RsPut s)"
    using s n by (intro owner_eqI o) (simp_all del: owner.simps)
qed

lemma group_small:
  assumes "ring_job cfg ip" "r < cfg_n cfg" "l \<in> set (labels (rcfg cfg r))" "t < tiles cfg (owner (cfg_n cfg) r l)"
  shows "t div grp cfg < 0xFFFE"
proof -
  have "ntiles (rcfg cfg r) l \<le> 0xFFFE * grp cfg" using assms unfolding ring_job_def by blast
  then have "t < 0xFFFE * grp cfg" using assms(4) by simp
  then show ?thesis by (simp add: less_mult_imp_div_less)
qed

lemma label_inj:
  assumes r: "r < n" and s: "step_of l < n - 1" "step_of l' < n - 1" and k: "kind_of l = kind_of l'" "gathers l = gathers l'"
    and o: "owner n r l = owner n r l'"
  shows "l = l'"
proof -
  define c where "c = hop n l - step_of l"
  have h: "hop n l = step_of l + c" "hop n l' = step_of l' + c" using k by (cases l; cases l'; simp add: c_def)+
  have e: "step_of l + (c + owner n r l) = owner n r l + hop n l" "step_of l' + (c + owner n r l) = owner n r l' + hop n l'"
    unfolding h o by simp_all
  have "(step_of l + (c + owner n r l)) mod n = (step_of l' + (c + owner n r l)) mod n"
    unfolding e owner_hop [OF r s(1)] owner_hop [OF r s(2)] ..
  then have "step_of l = step_of l'" by (rule mod_add_inj [rotated 2]) (use s in linarith)+
  then show ?thesis using k by (cases l; cases l'; simp)
qed

lemma pair_of_rcfg: "pair_of (rcfg cfg r) l = owner (cfg_n cfg) r l * 2 + gathers l"
  by (simp add: chunk_of_def Let_def)

lemma sender_ok:
  assumes job: "ring_job cfg ip" and r: "r < cfg_n cfg" and x: "x \<in> set (rplan cfg ip r)" "waits x"
    and p: "p = sender_rank (cfg_n cfg) r x"
  shows "p < cfg_n cfg" "t_src_peer (op_of (rcfg cfg r) ip x) = p" "sender x \<in> set (rplan cfg ip p)" "signals (sender x)"
    "t_dst_peer (op_of (rcfg cfg p) ip (sender x)) = r" "t_tag (op_of (rcfg cfg p) ip (sender x)) = t_tag (op_of (rcfg cfg r) ip x)"
proof -
  let ?n = "cfg_n cfg"
  have n: "0 < ?n" using r by simp
  show p': "p < ?n" using n unfolding p by (cases x) simp_all
  note P = op_peers [OF job r] op_peers [OF job p'] next_prev [OF r]
  consider s g where "x = TWait (RsRecv s) g" | s g where "x = TWait (AgRecv s) g" | s where "x = TSnapWait (RsPut s)"
  proof (cases x)
    case (TWait l g)
    then show thesis using that x by (cases l) (auto simp: in_plan)
  next
    case (TSnapWait l)
    then show thesis using that x by (cases l) (auto simp: in_plan)
  qed (use x in auto)
  then have "t_src_peer (op_of (rcfg cfg r) ip x) = p \<and> sender x \<in> set (rplan cfg ip p) \<and> signals (sender x) \<and>
      t_dst_peer (op_of (rcfg cfg p) ip (sender x)) = r \<and> t_tag (op_of (rcfg cfg p) ip (sender x)) = t_tag (op_of (rcfg cfg r) ip x)"
  proof cases
    case (1 s g)
    then have s: "s < ?n - 1" using x by (simp add: in_plan set_labels_rcfg)
    show ?thesis using x p P owner_mates(1) [OF r s]
      by (simp add: 1 in_plan set_labels_rcfg pair_of_rcfg del: owner.simps)
  next
    case (2 s g)
    then have s: "s < ?n - 1" using x by (simp add: in_plan set_labels_rcfg)
    show ?thesis using x p P owner_mates(2) [OF r s]
      by (simp add: 2 in_plan set_labels_rcfg pair_of_rcfg del: owner.simps)
  next
    case (3 s)
    then have s: "s < ?n - 1" using x by (simp add: in_plan set_labels_rcfg)
    show ?thesis using x p P owner_mates(3) [OF r s]
      by (simp add: 3 in_plan set_labels_rcfg pair_of_rcfg del: owner.simps)
  qed
  then show "t_src_peer (op_of (rcfg cfg r) ip x) = p" "sender x \<in> set (rplan cfg ip p)" "signals (sender x)"
    "t_dst_peer (op_of (rcfg cfg p) ip (sender x)) = r" "t_tag (op_of (rcfg cfg p) ip (sender x)) = t_tag (op_of (rcfg cfg r) ip x)"
    by simp_all
qed

text \<open>No two signals of a rank, and no two waits of a rank, have the same tag.\<close>

fun tag_group :: "tile_op \<Rightarrow> nat" where
  "tag_group (TSig l g) = g"
| "tag_group (TWait l g) = g"
| "tag_group _ = 0xFFFE"

lemma tag_parts:
  assumes job: "ring_job cfg ip" and r: "r < cfg_n cfg" and x: "x \<in> set (rplan cfg ip r)" "waits x \<or> signals x"
  shows "t_tag (op_of (rcfg cfg r) ip x) = make_tag (owner (cfg_n cfg) r (chunk_label x) * 2 + gathers (chunk_label x)) (tag_group x)"
    "owner (cfg_n cfg) r (chunk_label x) * 2 + gathers (chunk_label x) < 2 ^ 32" "tag_group x < 2 ^ 16"
    "(x = TSig l g \<or> x = TWait l g) \<Longrightarrow> tag_group x < 0xFFFE" "step_of (chunk_label x) < cfg_n cfg - 1"
proof -
  show "t_tag (op_of (rcfg cfg r) ip x) = make_tag (owner (cfg_n cfg) r (chunk_label x) * 2 + gathers (chunk_label x)) (tag_group x)"
    using x(2) by (cases x) (simp_all add: pair_of_rcfg TiledOp_new_def del: owner.simps)
  have "owner (cfg_n cfg) r (chunk_label x) < cfg_n cfg" "gathers (chunk_label x) \<le> 1"
    using r by (auto intro: owner_less) (cases "chunk_label x"; simp)
  then show "owner (cfg_n cfg) r (chunk_label x) * 2 + gathers (chunk_label x) < 2 ^ 32"
    using ring_job_n(2) [OF job] by simp
  show "step_of (chunk_label x) < cfg_n cfg - 1" using x by (simp add: set_plan set_labels_rcfg)
  have g: "tag_group x < 0xFFFE" if "x = TSig l g \<or> x = TWait l g" for l g
    using that x group_small [OF job r] by (auto simp: in_plan)
  then show "(x = TSig l g \<or> x = TWait l g) \<Longrightarrow> tag_group x < 0xFFFE" by blast
  show "tag_group x < 2 ^ 16"
  proof (cases x)
    case (TSig l g')
    then show ?thesis using g [of l g'] by simp
  next
    case (TWait l g')
    then show ?thesis using g [of l g'] by simp
  qed simp_all
qed

lemma tag_unique:
  assumes job: "ring_job cfg ip" and r: "r < cfg_n cfg" and x: "x \<in> set (rplan cfg ip r)" and y: "y \<in> set (rplan cfg ip r)"
    and k: "waits x \<and> waits y \<or> signals x \<and> signals y"
    and tag: "t_tag (op_of (rcfg cfg r) ip x) = t_tag (op_of (rcfg cfg r) ip y)"
  shows "x = y"
proof -
  let ?n = "cfg_n cfg"
  note X = tag_parts [OF job r x] and Y = tag_parts [OF job r y]
  have "owner ?n r (chunk_label x) * 2 + gathers (chunk_label x) = owner ?n r (chunk_label y) * 2 + gathers (chunk_label y)"
    and g: "tag_group x = tag_group y"
    using make_tag_inj [OF X(2,3) Y(2,3)] X(1) Y(1) tag k by auto
  moreover have "gathers l \<le> 1" for l by (cases l) auto
  moreover have "a = b \<and> c = d" if "a * 2 + c = b * 2 + d" "c \<le> 1" "d \<le> 1" for a b c d :: nat using that by presburger
  ultimately have o: "owner ?n r (chunk_label x) = owner ?n r (chunk_label y)" "gathers (chunk_label x) = gathers (chunk_label y)" by blast+
  have "kind_of (chunk_label x) = kind_of (chunk_label y)" "(\<exists>l. x = TSig l (tag_group x)) = (\<exists>l. y = TSig l (tag_group y))"
    "(\<exists>l. x = TWait l (tag_group x)) = (\<exists>l. y = TWait l (tag_group y))"
    using k g X(4) Y(4) x y by (cases x; cases y; fastforce simp: in_plan)+
  moreover from this(1) have "chunk_label x = chunk_label y"
    using k by (intro label_inj [OF r X(5) Y(5) _ o(2,1)]) auto
  ultimately show ?thesis using k g by (cases x; cases y; simp)
qed

section \<open>What holds in every run\<close>

definition closed :: "CollectiveConfig \<Rightarrow> bool \<Rightarrow> 'v World \<Rightarrow> bool" where
  "closed cfg ip W \<longleftrightarrow> (\<forall>r<cfg_n cfg. \<forall>x y. did cfg ip W r x \<longrightarrow> y \<in> deps_of (rcfg cfg r) ip x \<longrightarrow> did cfg ip W r y)"

definition sig_count :: "CollectiveConfig \<Rightarrow> bool \<Rightarrow> 'v World \<Rightarrow> bool" where
  "sig_count cfg ip W \<longleftrightarrow> (\<forall>r<cfg_n cfg. \<forall>x\<in>set (rplan cfg ip r). waits x \<longrightarrow>
     w_sig W r (sender_rank (cfg_n cfg) r x) (t_tag (op_of (rcfg cfg r) ip x)) + (if did cfg ip W r x then 1 else 0) =
     (if did cfg ip W (sender_rank (cfg_n cfg) r x) (sender x) then 1 else 0))"

lemma sig_count_step:
  assumes job: "ring_job cfg ip" and r0: "r0 < cfg_n cfg" and m: "may_run (rank_ops cfg ip) r0 i W"
    and W': "W' = run_op red e ip (rank_ops cfg ip) r0 i W" and sc: "sig_count cfg ip W"
  shows "sig_count cfg ip W'"
  unfolding sig_count_def
proof (intro allI impI ballI)
  fix r x assume r: "r < cfg_n cfg" and x: "x \<in> set (rplan cfg ip r)" "waits x"
  define p where "p = sender_rank (cfg_n cfg) r x"
  note S = sender_ok [OF job r x p_def]
  obtain x0 where X: "x0 \<in> set (rplan cfg ip r0)" "\<not> did cfg ip W r0 x0"
    "\<And>r' y. r' < cfg_n cfg \<Longrightarrow> did cfg ip W' r' y \<longleftrightarrow> did cfg ip W r' y \<or> r' = r0 \<and> y = x0"
    "waits x0 \<Longrightarrow> 0 < w_sig W r0 (t_src_peer (op_of (rcfg cfg r0) ip x0)) (t_tag (op_of (rcfg cfg r0) ip x0)) \<and>
       w_sig W' = add_sig 0 1 r0 (t_src_peer (op_of (rcfg cfg r0) ip x0)) (t_tag (op_of (rcfg cfg r0) ip x0)) (w_sig W)"
    "signals x0 \<Longrightarrow> w_sig W' = add_sig 1 0 (t_dst_peer (op_of (rcfg cfg r0) ip x0)) r0 (t_tag (op_of (rcfg cfg r0) ip x0)) (w_sig W)"
    "\<not> waits x0 \<Longrightarrow> \<not> signals x0 \<Longrightarrow> w_sig W' = w_sig W"
    using run_label [OF job r0 m W'] unfolding op_kinds by metis
  have old: "w_sig W r p (t_tag (op_of (rcfg cfg r) ip x)) + (if did cfg ip W r x then 1 else 0) = (if did cfg ip W p (sender x) then 1 else 0)"
    using sc r x unfolding sig_count_def p_def by blast
  have ws: "\<not> (waits y \<and> signals y)" for y by (cases y) simp_all
  consider "waits x0" | "signals x0" | "\<not> waits x0" "\<not> signals x0" by blast
  then have "w_sig W' r p (t_tag (op_of (rcfg cfg r) ip x)) + (if did cfg ip W' r x then 1 else 0) = (if did cfg ip W' p (sender x) then 1 else 0)"
  proof cases
    case 1
    then have d: "did cfg ip W' p (sender x) = did cfg ip W p (sender x)" using X(3) [OF S(1)] S(4) ws by blast
    show ?thesis
    proof (cases "r = r0 \<and> x = x0")
      case True
      then show ?thesis using X(3) [OF r, of x] X(4) [OF 1] X(2) old d S(2) by (simp add: add_sig_def split: if_splits)
    next
      case False
      have u: "x = x0" if "r = r0" "t_tag (op_of (rcfg cfg r) ip x) = t_tag (op_of (rcfg cfg r0) ip x0)"
        using tag_unique [OF job r x(1), of x0] X(1) x(2) 1 that by simp
      have "\<not> (r = r0 \<and> t_tag (op_of (rcfg cfg r) ip x) = t_tag (op_of (rcfg cfg r0) ip x0))"
      proof
        assume a: "r = r0 \<and> t_tag (op_of (rcfg cfg r) ip x) = t_tag (op_of (rcfg cfg r0) ip x0)"
        have "x = x0" by (rule u [OF conjunct1 [OF a] conjunct2 [OF a]])
        then show False using a False by simp
      qed
      then have "w_sig W' r p (t_tag (op_of (rcfg cfg r) ip x)) = w_sig W r p (t_tag (op_of (rcfg cfg r) ip x))"
        unfolding conjunct2 [OF X(4) [OF 1]] add_sig_def by (subst if_not_P) simp_all
      moreover have "did cfg ip W' r x = did cfg ip W r x" using X(3) [OF r, of x] False by metis
      ultimately show ?thesis using old d by simp
    qed
  next
    case 2
    then have d: "did cfg ip W' r x = did cfg ip W r x" using X(3) [OF r] x ws by blast
    show ?thesis
    proof (cases "p = r0 \<and> sender x = x0")
      case True
      then show ?thesis using X(3) [OF S(1), of "sender x"] X(5) [OF 2] X(2) old d S(5,6) by (simp add: add_sig_def split: if_splits)
    next
      case False
      have u: "sender x = x0" if "p = r0" "t_tag (op_of (rcfg cfg r) ip x) = t_tag (op_of (rcfg cfg r0) ip x0)"
        using tag_unique [OF job S(1,3), of x0] X(1) S(4,6) 2 that by simp
      have "\<not> (p = r0 \<and> t_tag (op_of (rcfg cfg r) ip x) = t_tag (op_of (rcfg cfg r0) ip x0))"
      proof
        assume a: "p = r0 \<and> t_tag (op_of (rcfg cfg r) ip x) = t_tag (op_of (rcfg cfg r0) ip x0)"
        have "sender x = x0" by (rule u [OF conjunct1 [OF a] conjunct2 [OF a]])
        then show False using a False by simp
      qed
      then have "w_sig W' r p (t_tag (op_of (rcfg cfg r) ip x)) = w_sig W r p (t_tag (op_of (rcfg cfg r) ip x))"
        unfolding X(5) [OF 2] add_sig_def by (subst if_not_P) simp_all
      moreover have "did cfg ip W' p (sender x) = did cfg ip W p (sender x)" using X(3) [OF S(1), of "sender x"] False by metis
      ultimately show ?thesis using old d by simp
    qed
  next
    case 3
    then have "did cfg ip W' r x = did cfg ip W r x" "did cfg ip W' p (sender x) = did cfg ip W p (sender x)"
      using X(3) [OF r] X(3) [OF S(1)] x S(4) by blast+
    then show ?thesis using X(6) [OF 3] old by simp
  qed
  then show "w_sig W' r (sender_rank (cfg_n cfg) r x) (t_tag (op_of (rcfg cfg r) ip x)) + (if did cfg ip W' r x then 1 else 0) =
     (if did cfg ip W' (sender_rank (cfg_n cfg) r x) (sender x) then 1 else 0)" unfolding p_def .
qed

lemma run_sync:
  assumes "run_reach red e ip n (rank_ops cfg ip) inp W" "ring_job cfg ip" "n = cfg_n cfg"
  shows "closed cfg ip W \<and> sig_count cfg ip W"
  using assms
proof (induction rule: run_reach.induct)
  case (run_start W)
  then show ?case by (simp add: closed_def sig_count_def did_def starts_def)
next
  case (run_step W r i)
  have r: "r < cfg_n cfg" using run_step by simp
  have IH: "closed cfg ip W" "sig_count cfg ip W" using run_step by auto
  obtain x where "\<And>y. y \<in> deps_of (rcfg cfg r) ip x \<Longrightarrow> did cfg ip W r y"
    "\<And>r' y. r' < cfg_n cfg \<Longrightarrow> did cfg ip (run_op red e ip (rank_ops cfg ip) r i W) r' y \<longleftrightarrow> did cfg ip W r' y \<or> r' = r \<and> y = x"
    using run_label [OF run_step.prems(1) r run_step.hyps(3) refl] by metis
  then have "closed cfg ip (run_op red e ip (rank_ops cfg ip) r i W)" using IH(1) unfolding closed_def by blast
  then show ?case using sig_count_step [OF run_step.prems(1) r run_step.hyps(3) refl IH(2)] by blast
qed

text \<open>A wait that is done was signalled.\<close>

lemma did_sender:
  assumes "sig_count cfg ip W" "r < cfg_n cfg" "did cfg ip W r x" "waits x"
  shows "did cfg ip W (sender_rank (cfg_n cfg) r x) (sender x)"
  using assms by (fastforce simp: sig_count_def did_def split: if_splits)

section \<open>Progress\<close>

text \<open>A rank of the operations that grows along dependencies and signals.\<close>

fun prio :: "nat \<Rightarrow> tile_op \<Rightarrow> nat" where
  "prio n (TSnap l t) = 0"
| "prio n (TSnapSig l) = 1"
| "prio n (TSnapWait l) = 2"
| "prio n (TWait l g) = 4 * hop n l + 3"
| "prio n (TRed l t) = 4 * hop n l + 4"
| "prio n (TPut l t) = 4 * hop n l + 5"
| "prio n (TSig l g) = 4 * hop n l + 6"

lemma prio_deps:
  assumes "x \<in> set (rplan cfg ip r)" "y \<in> deps_of (rcfg cfg r) ip x" "2 \<le> cfg_n cfg"
  shows "prio (cfg_n cfg) y < prio (cfg_n cfg) x"
proof (cases x)
  case (TPut l t)
  then show ?thesis using assms
    by (cases l) (auto simp: deps_of_def mapped_def split: if_splits)
next
  case (TRed l t)
  then show ?thesis using assms by (cases l) (auto simp: in_plan deps_of_def mapped_def split: if_splits)
qed (use assms in \<open>auto simp: deps_of_def\<close>)

lemma prio_sender:
  assumes "x \<in> set (rplan cfg ip r)" "waits x" "2 \<le> cfg_n cfg"
  shows "prio (cfg_n cfg) (sender x) < prio (cfg_n cfg) x"
proof (cases x)
  case (TWait l g)
  then show ?thesis using assms by (cases l) (auto simp: in_plan)
next
  case (TSnapWait l)
  then show ?thesis using assms by (cases l) (auto simp: in_plan)
qed (use assms in auto)

lemma run_progress:
  assumes job: "ring_job cfg ip" and inv: "closed cfg ip W" "sig_count cfg ip W" and open_ops: "\<not> finished (cfg_n cfg) (rank_ops cfg ip) W"
  shows "\<exists>r<cfg_n cfg. \<exists>i. may_run (rank_ops cfg ip) r i W"
proof -
  let ?n = "cfg_n cfg"
  let ?U = "\<lambda>(r, x). r < ?n \<and> x \<in> set (rplan cfg ip r) \<and> \<not> did cfg ip W r x"
  obtain r0 i0 where i0: "r0 < ?n" "i0 < length (rplan cfg ip r0)" "i0 \<notin> w_done W r0"
    using open_ops rank_ops_plan(1) [OF job] by (auto simp: finished_def)
  then have "?U (r0, rplan cfg ip r0 ! i0)" by (simp add: did_def ix_nth distinct_plan)
  from ex_has_least_nat [of ?U, OF this, of "\<lambda>(r, x). prio ?n x"]
  obtain r x where rx: "r < ?n" "x \<in> set (rplan cfg ip r)" "\<not> did cfg ip W r x"
    and least: "\<And>r' y. r' < ?n \<Longrightarrow> y \<in> set (rplan cfg ip r') \<Longrightarrow> prio ?n y < prio ?n x \<Longrightarrow> did cfg ip W r' y"
    by (auto simp: not_le [symmetric])
  have n2: "2 \<le> ?n" by (rule ring_job_n(1) [OF job])
  obtain ds where ds: "rank_ops cfg ip r ! ix (rplan cfg ip r) x = (op_of (rcfg cfg r) ip x)\<lparr>t_deps := ds\<rparr>"
    "set ds = ix (rplan cfg ip r) ` deps_of (rcfg cfg r) ip x" using rank_ops_plan(2) [OF job rx(1,2)] by blast
  have "did cfg ip W r y" if "y \<in> deps_of (rcfg cfg r) ip x" for y
    using least [OF rx(1) deps_in_plan [OF ring_jobD(1) [OF job rx(1)] rx(2) that] prio_deps [OF rx(2) that n2]] .
  then have "set ds \<subseteq> w_done W r" unfolding ds(2) by (auto simp: did_def)
  moreover have "0 < w_sig W r (t_src_peer (op_of (rcfg cfg r) ip x)) (t_tag (op_of (rcfg cfg r) ip x))" if "waits x"
  proof -
    note S = sender_ok [OF job rx(1,2) that refl]
    have "did cfg ip W (sender_rank ?n r x) (sender x)" by (rule least [OF S(1,3) prio_sender [OF rx(2) that n2]])
    then show ?thesis using inv(2) rx that S(2) by (fastforce simp: sig_count_def)
  qed
  ultimately have "may_run (rank_ops cfg ip) r (ix (rplan cfg ip r) x) W"
    using rx ds(1) ix_less [OF rx(2)] rank_ops_plan(1) [OF job rx(1)] op_kinds(1) [of "rcfg cfg r" ip x] by (simp add: may_run_def did_def)
  then show ?thesis using rx(1) by blast
qed

text \<open>Every step completes one more operation.\<close>

definition ops_done :: "nat \<Rightarrow> 'v World \<Rightarrow> nat" where
  "ops_done n W = (\<Sum>r<n. card (w_done W r))"

lemma run_done_bound:
  assumes "run_reach red e ip n ops inp W"
  shows "w_done W r \<subseteq> {..<length (ops r)}"
  using assms by (induction rule: run_reach.induct) (auto simp: starts_def run_op_done may_run_def split: if_splits)

lemma ops_done_step:
  assumes "r < n" "may_run ops r i W" "\<And>r. finite (w_done W r)"
  shows "ops_done n (run_op red e ip ops r i W) = Suc (ops_done n W)"
proof -
  have "ops_done n (run_op red e ip ops r i W) = (\<Sum>r'<n. card (w_done W r') + (if r' = r then 1 else 0))"
    unfolding ops_done_def using assms(2,3) by (intro sum.cong) (simp_all add: run_op_done may_run_def)
  also have "\<dots> = Suc (ops_done n W)" using assms(1) by (simp add: ops_done_def sum.distrib sum.delta)
  finally show ?thesis .
qed

lemma ops_done_le:
  assumes "run_reach red e ip n ops inp W"
  shows "ops_done n W \<le> (\<Sum>r<n. length (ops r))"
  unfolding ops_done_def using run_done_bound [OF assms] by (intro sum_mono) (metis card_lessThan card_mono finite_lessThan)

end
