(* ===== verification/CollData.thy ===== *)
theory CollData
  imports CollSync
begin

text \<open>
  The data of a ring all-reduce: an invariant that says, for every element and every rank, what the
  output, the input and the scratch buffer hold, given the operations that are done.
\<close>

section \<open>Where elements lie\<close>

definition tile_lo :: "CollectiveConfig \<Rightarrow> nat \<Rightarrow> nat \<Rightarrow> nat" where
  "tile_lo cfg k t = shard_off cfg k + t * cfg_tile_bytes cfg"

definition tile_len :: "CollectiveConfig \<Rightarrow> nat \<Rightarrow> nat \<Rightarrow> nat" where
  "tile_len cfg k t = min (cfg_tile_bytes cfg) (shard_size cfg k - t * cfg_tile_bytes cfg)"

definition in_tile :: "CollectiveConfig \<Rightarrow> nat \<Rightarrow> nat \<Rightarrow> nat \<Rightarrow> bool" where
  "in_tile cfg k t i \<longleftrightarrow> tile_lo cfg k t div esize cfg \<le> i \<and> i < (tile_lo cfg k t + tile_len cfg k t) div esize cfg"

lemma esize_shard: "esize cfg dvd shard_off cfg k" "esize cfg dvd shard_size cfg k"
  by (simp_all add: balanced_shard_offset_bytes_def balanced_shard_size_bytes_def Let_def)

lemma aligned_range:
  assumes "0 < (e :: nat)" "e dvd a" "e dvd b"
  shows "a div e \<le> i \<and> i < b div e \<longleftrightarrow> a \<le> i * e \<and> i * e < b"
proof -
  obtain x y where xy: "a = e * x" "b = e * y" using assms by (auto simp: dvd_def)
  show ?thesis using assms(1) by (simp add: xy mult.commute [of i])
qed

lemma esize_tile:
  assumes "esize cfg dvd cfg_tile_bytes cfg"
  shows "esize cfg dvd tile_lo cfg k t" "esize cfg dvd tile_len cfg k t" "esize cfg dvd tile_lo cfg k t + tile_len cfg k t"
proof -
  show "esize cfg dvd tile_lo cfg k t" using assms esize_shard [of cfg k] by (simp add: tile_lo_def)
  moreover show "esize cfg dvd tile_len cfg k t" using assms esize_shard(2) [of cfg k]
    by (simp add: tile_len_def min_def dvd_diff_nat)
  ultimately show "esize cfg dvd tile_lo cfg k t + tile_len cfg k t" by simp
qed

lemma in_tile_iff:
  assumes "esize cfg dvd cfg_tile_bytes cfg"
  shows "in_tile cfg k t i \<longleftrightarrow> tile_lo cfg k t \<le> i * esize cfg \<and> i * esize cfg < tile_lo cfg k t + tile_len cfg k t"
  unfolding in_tile_def using esize_tile [OF assms] by (intro aligned_range) (simp_all add: elem_size_pos)

lemma in_tile_unique:
  assumes al: "esize cfg dvd cfg_tile_bytes cfg" and a: "in_tile cfg k t i" and b: "in_tile cfg k' t' i"
  shows "k = k'" "t = t'"
proof -
  have sh: "shard_off cfg j \<le> i * esize cfg \<and> i * esize cfg < shard_off cfg j + shard_size cfg j" if "in_tile cfg j u i" for j u
    using that unfolding in_tile_iff [OF al] tile_lo_def tile_len_def by linarith
  show k: "k = k'"
  proof (rule ccontr)
    assume "k \<noteq> k'"
    then consider "k < k'" | "k' < k" by linarith
    then show False using sh [OF a] sh [OF b] shard_disjoint [of k k' cfg] shard_disjoint [of k' k cfg] by cases linarith+
  qed
  have u: "(i * esize cfg - shard_off cfg k) div cfg_tile_bytes cfg = u" if "in_tile cfg k u i" for u
  proof -
    have "u * cfg_tile_bytes cfg \<le> i * esize cfg - shard_off cfg k" "i * esize cfg - shard_off cfg k < Suc u * cfg_tile_bytes cfg"
      using that unfolding in_tile_iff [OF al] by (auto simp: tile_lo_def tile_len_def min_def split: if_splits)
    then show ?thesis by (intro div_nat_eqI) (simp_all add: mult.commute)
  qed
  from u [OF a] u [OF b [folded k]] show "t = t'" by simp
qed

lemma in_tile_shard:
  assumes "ring_job cfg ip" "in_tile cfg k t i"
  shows "shard_off cfg k \<le> i * esize cfg \<and> i * esize cfg < shard_off cfg k + shard_size cfg k"
proof -
  have "esize cfg dvd cfg_tile_bytes cfg" using assms(1) by (simp add: ring_job_def)
  from assms(2) [unfolded in_tile_iff [OF this]] show ?thesis unfolding tile_lo_def tile_len_def by linarith
qed

lemma small_rank0: "ring_job cfg ip \<Longrightarrow> small_plan (rcfg cfg 0) ip"
  using ring_jobD(1) [of cfg ip 0] ring_job_n(1) [of cfg ip] by simp

lemma tiles_iff:
  assumes job: "ring_job cfg ip" and k: "k < cfg_n cfg" "0 < shard_size cfg k"
  shows "t < tiles cfg k \<longleftrightarrow> t * cfg_tile_bytes cfg < shard_size cfg k"
proof -
  note s = small_rank0 [OF job]
  have "shard_size cfg k + cfg_tile_bytes cfg \<le> 2 ^ 64"
    using shard_size_le [OF s, of k] small_planD(3) [OF s] k(1) by simp
  with tiles_cover(2) [of "cfg_tile_bytes cfg" "(chunk_of cfg (RsPut 0))\<lparr>ch_bytes := shard_size cfg k\<rparr>" t] k(2) small_planD(2) [OF s]
  show ?thesis by (simp add: tiles_def num_tiles_of_def)
qed

lemma in_tile_find:
  assumes job: "ring_job cfg ip" and i: "i < cfg_input_bytes cfg div esize cfg"
  shows "\<exists>k t. k < cfg_n cfg \<and> 0 < shard_size cfg k \<and> t < tiles cfg k \<and> in_tile cfg k t i"
proof -
  let ?e = "esize cfg" and ?b = "cfg_tile_bytes cfg"
  note s = small_rank0 [OF job]
  have al: "?e dvd ?b" using job by (simp add: ring_job_def)
  have "shard_off cfg (cfg_n cfg) = cfg_input_bytes cfg"
    using shard_off_end [of cfg] small_planD(4) [OF s] job by (simp add: cfg_n_def ring_job_def)
  moreover have "Suc i * ?e \<le> cfg_input_bytes cfg div ?e * ?e" using i by (intro mult_right_mono) simp_all
  then have "Suc i * ?e \<le> cfg_input_bytes cfg" using div_times_less_eq_dividend [of "cfg_input_bytes cfg" ?e] by linarith
  then have "i * ?e < cfg_input_bytes cfg" using elem_size_pos [of "cfg_dtype cfg"] by simp
  ultimately obtain k where k: "k < cfg_n cfg" "shard_off cfg k \<le> i * ?e" "i * ?e < shard_off cfg k + shard_size cfg k"
    using shard_find [of "i * ?e" cfg "cfg_n cfg"] by auto
  define t where "t = (i * ?e - shard_off cfg k) div ?b"
  have t: "t * ?b \<le> i * ?e - shard_off cfg k" "i * ?e - shard_off cfg k < Suc t * ?b"
    using small_planD(2) [OF s] dividend_less_div_times [of ?b "i * ?e - shard_off cfg k"]
    by (simp_all add: t_def div_times_less_eq_dividend)
  have "in_tile cfg k t i" unfolding in_tile_iff [OF al] tile_lo_def tile_len_def using t k by (auto simp: min_def)
  moreover have "0 < shard_size cfg k" using k by linarith
  moreover have "t < tiles cfg k" using tiles_iff [OF job k(1) \<open>0 < shard_size cfg k\<close>] t k by auto
  ultimately show ?thesis using k(1) by blast
qed

text \<open>The copies for the reductions in place do not overlap in the scratch buffer.\<close>

definition stage_idx :: "CollectiveConfig \<Rightarrow> nat \<Rightarrow> ring_op \<Rightarrow> nat \<Rightarrow> nat \<Rightarrow> nat" where
  "stage_idx cfg r l t i =
     stage_off (rcfg cfg r) l t div esize cfg + (i - tile_lo cfg (owner (cfg_n cfg) r l) t div esize cfg)"

lemma staged_append: "staged cfg (xs @ ys) = staged cfg xs + staged cfg ys"
  by (simp add: staged_def)

lemma staged_order:
  assumes "a < b" "b \<le> length ls" "kind_of (ls ! a) = RecvReduce"
  shows "staged cfg (take a ls) + ch_bytes (chunk_of cfg (ls ! a)) \<le> staged cfg (take b ls)"
proof -
  have a: "take (Suc a) ls = take a ls @ [ls ! a]" using assms by (intro take_Suc_conv_app_nth) simp
  have "take b ls = take (Suc a) ls @ drop (Suc a) (take b ls)"
    using assms(1) by (metis Suc_leI append_take_drop_id min.absorb1 take_take)
  from arg_cong [OF this, of "staged cfg"]
  have "staged cfg (take b ls) = staged cfg (take a ls) + staged cfg [ls ! a] + staged cfg (drop (Suc a) (take b ls))"
    unfolding a staged_append .
  moreover have "staged cfg [ls ! a] = ch_bytes (chunk_of cfg (ls ! a))" using assms(3) by (simp add: staged_def)
  ultimately show ?thesis by linarith
qed

lemma takeWhile_ix: "takeWhile (\<lambda>y. y \<noteq> x) xs = take (ix xs x) xs"
  unfolding ix_def by (rule takeWhile_eq_take)

lemma stage_disjoint:
  assumes l: "l \<in> set (labels cfg)" "l' \<in> set (labels cfg)" "kind_of l = RecvReduce" "kind_of l' = RecvReduce"
    and tb: "t * cfg_tile_bytes cfg \<le> ch_bytes (chunk_of cfg l)" "t' * cfg_tile_bytes cfg \<le> ch_bytes (chunk_of cfg l')"
    and b: "stage_off cfg l t \<le> x" "x < stage_off cfg l t + min (cfg_tile_bytes cfg) (ch_bytes (chunk_of cfg l) - t * cfg_tile_bytes cfg)"
      "stage_off cfg l' t' \<le> x" "x < stage_off cfg l' t' + min (cfg_tile_bytes cfg) (ch_bytes (chunk_of cfg l') - t' * cfg_tile_bytes cfg)"
  shows "l = l'" "t = t'"
proof -
  let ?L = "labels cfg" and ?u = "cfg_tile_bytes cfg"
  have ord: False if "ix ?L a < ix ?L c" "a \<in> set ?L" "c \<in> set ?L" "kind_of a = RecvReduce" "v * ?u \<le> ch_bytes (chunk_of cfg a)"
    "x < stage_off cfg a v + min ?u (ch_bytes (chunk_of cfg a) - v * ?u)" "stage_off cfg c w \<le> x" for a c v w
  proof -
    have "staged cfg (take (ix ?L a) ?L) + ch_bytes (chunk_of cfg (?L ! ix ?L a)) \<le> staged cfg (take (ix ?L c) ?L)"
      using that ix_less [OF that(3)] nth_ix [OF that(2)] by (intro staged_order) simp_all
    then show False using that(5-7) unfolding nth_ix [OF that(2)] stage_off_def takeWhile_ix by linarith
  qed
  have "ix ?L l = ix ?L l'"
    using ord [OF _ l(1,2,3) tb(1) b(2,3)] ord [OF _ l(2,1,4) tb(2) b(4,1)] by (metis linorder_neqE_nat)
  then show ll: "l = l'" using ix_inj l(1,2) by metis
  have "(x - stage_off cfg l 0) div ?u = v" if "stage_off cfg l v \<le> x" "x < stage_off cfg l v + min ?u (ch_bytes (chunk_of cfg l) - v * ?u)" for v
  proof -
    have "v * ?u \<le> x - stage_off cfg l 0" "x - stage_off cfg l 0 < Suc v * ?u"
      using that unfolding stage_off_def by auto
    then show ?thesis by (intro div_nat_eqI) (simp_all add: mult.commute)
  qed
  from this [of t] this [of t'] b show "t = t'" unfolding ll by simp
qed

lemma esize_stage:
  assumes "esize cfg dvd cfg_tile_bytes cfg"
  shows "esize cfg dvd stage_off cfg l t"
proof -
  have "esize cfg dvd ch_bytes (chunk_of cfg l)" for l using esize_shard(2) [of cfg] by (simp add: chunk_of_def Let_def)
  then have "esize cfg dvd staged cfg ls" for ls by (induction ls) (simp_all add: staged_def)
  then show ?thesis using assms by (simp add: stage_off_def)
qed

section \<open>The way of a tile round the ring\<close>

definition node :: "nat \<Rightarrow> nat \<Rightarrow> nat \<Rightarrow> nat" where
  "node n k h = (k + h) mod n"

definition putl :: "nat \<Rightarrow> nat \<Rightarrow> ring_op" where
  "putl n h = (if h < n - 1 then RsPut h else AgPut (h - (n - 1)))"

definition put_did :: "CollectiveConfig \<Rightarrow> bool \<Rightarrow> 'v World \<Rightarrow> nat \<Rightarrow> nat \<Rightarrow> nat \<Rightarrow> bool" where
  "put_did cfg ip W k t h \<longleftrightarrow> did cfg ip W (node (cfg_n cfg) k h) (TPut (putl (cfg_n cfg) h) t)"

definition red_did :: "CollectiveConfig \<Rightarrow> bool \<Rightarrow> 'v World \<Rightarrow> nat \<Rightarrow> nat \<Rightarrow> nat \<Rightarrow> bool" where
  "red_did cfg ip W k t h \<longleftrightarrow> did cfg ip W (node (cfg_n cfg) k h) (TRed (RsReduce (h - 1)) t)"

definition snap_did :: "CollectiveConfig \<Rightarrow> bool \<Rightarrow> 'v World \<Rightarrow> nat \<Rightarrow> nat \<Rightarrow> nat \<Rightarrow> bool" where
  "snap_did cfg ip W k t h \<longleftrightarrow> did cfg ip W (node (cfg_n cfg) k h) (TSnap (RsReduce (h - 1)) t)"

lemma node_less [simp]: "0 < n \<Longrightarrow> node n k h < n"
  by (simp add: node_def)

lemma node_hop: "r < n \<Longrightarrow> step_of l < n - 1 \<Longrightarrow> node n (owner n r l) (hop n l) = r"
  by (simp add: node_def owner_hop)

lemma owner_node: "k < n \<Longrightarrow> step_of l < n - 1 \<Longrightarrow> owner n (node n k (hop n l)) l = k"
  by (intro owner_eqI) (simp_all add: node_def)

lemma hop_putl: "h \<le> 2 * n - 3 \<Longrightarrow> 2 \<le> n \<Longrightarrow> hop n (putl n h) = h \<and> step_of (putl n h) < n - 1 \<and> kind_of (putl n h) = Put"
  by (auto simp: putl_def)

lemma putl_hop: "kind_of l = Put \<Longrightarrow> step_of l < n - 1 \<Longrightarrow> putl n (hop n l) = l \<and> hop n l \<le> 2 * n - 3"
  by (cases l) (auto simp: putl_def)

lemma owner_putl: "k < n \<Longrightarrow> h \<le> 2 * n - 3 \<Longrightarrow> 2 \<le> n \<Longrightarrow> owner n (node n k h) (putl n h) = k"
  using owner_node [of k n "putl n h"] hop_putl [of h n] by simp

lemma owner_reduce: "k < n \<Longrightarrow> 1 \<le> h \<Longrightarrow> h < n \<Longrightarrow> owner n (node n k h) (RsReduce (h - 1)) = k"
  using owner_node [of k n "RsReduce (h - 1)"] by simp

lemma node_prev: "0 < n \<Longrightarrow> 1 \<le> h \<Longrightarrow> (node n k h + n - 1) mod n = node n k (h - 1)"
  using prev_mod [of n "k + h - 1"] by (simp add: node_def)

definition synced :: "CollectiveConfig \<Rightarrow> bool \<Rightarrow> 'v World \<Rightarrow> bool" where
  "synced cfg ip W \<longleftrightarrow> ring_job cfg ip \<and> closed cfg ip W \<and> sig_count cfg ip W"

lemma syncedD:
  assumes "synced cfg ip W"
  shows "ring_job cfg ip" "r < cfg_n cfg \<Longrightarrow> did cfg ip W r x \<Longrightarrow> y \<in> deps_of (rcfg cfg r) ip x \<Longrightarrow> did cfg ip W r y"
    "r < cfg_n cfg \<Longrightarrow> did cfg ip W r x \<Longrightarrow> waits x \<Longrightarrow> did cfg ip W (sender_rank (cfg_n cfg) r x) (sender x)" "2 \<le> cfg_n cfg"
proof -
  show j: "ring_job cfg ip" using assms by (simp add: synced_def)
  show "2 \<le> cfg_n cfg" by (rule ring_job_n(1) [OF j])
  show "did cfg ip W r y" if "r < cfg_n cfg" "did cfg ip W r x" "y \<in> deps_of (rcfg cfg r) ip x"
    using assms that unfolding synced_def closed_def by blast
  show "did cfg ip W (sender_rank (cfg_n cfg) r x) (sender x)" if "r < cfg_n cfg" "did cfg ip W r x" "waits x"
    by (rule did_sender [OF _ that]) (use assms in \<open>simp add: synced_def\<close>)
qed

lemma wait_put:
  assumes W: "synced cfg ip W" and r: "r < cfg_n cfg" and d: "did cfg ip W r (TWait l (t div grp cfg))"
    and t: "t < tiles cfg (owner (cfg_n cfg) r l)"
  shows "l = RsRecv s \<Longrightarrow> did cfg ip W ((r + cfg_n cfg - 1) mod cfg_n cfg) (TPut (RsPut s) t)"
    "l = AgRecv s \<Longrightarrow> did cfg ip W ((r + cfg_n cfg - 1) mod cfg_n cfg) (TPut (AgPut s) t)"
proof -
  let ?n = "cfg_n cfg" and ?p = "(r + cfg_n cfg - 1) mod cfg_n cfg"
  note S = syncedD(3) [OF W r d]
  have p: "?p < ?n" using r by simp
  have st: "step_of l < ?n - 1" using d by (simp add: did_def in_plan set_labels_rcfg)
  show "did cfg ip W ?p (TPut (RsPut s) t)" if l: "l = RsRecv s"
  proof -
    have "did cfg ip W ?p (TSig (RsPut s) (t div grp cfg))" using S by (simp add: l)
    moreover have "TPut (RsPut s) t \<in> deps_of (rcfg cfg ?p) ip (TSig (RsPut s) (t div grp cfg))"
      using t owner_mates(1) [OF r, of s] st by (simp add: deps_of_def l del: owner.simps)
    ultimately show ?thesis by (rule syncedD(2) [OF W p])
  qed
  show "did cfg ip W ?p (TPut (AgPut s) t)" if l: "l = AgRecv s"
  proof -
    have "did cfg ip W ?p (TSig (AgPut s) (t div grp cfg))" using S by (simp add: l)
    moreover have "TPut (AgPut s) t \<in> deps_of (rcfg cfg ?p) ip (TSig (AgPut s) (t div grp cfg))"
      using t owner_mates(2) [OF r, of s] st by (simp add: deps_of_def l del: owner.simps)
    ultimately show ?thesis by (rule syncedD(2) [OF W p])
  qed
qed

lemma red_wait:
  assumes W: "synced cfg ip W" and k: "k < cfg_n cfg" and t: "t < tiles cfg k" and h: "1 \<le> h" "h < cfg_n cfg"
    and d: "did cfg ip W (node (cfg_n cfg) k h) (TWait (RsRecv (h - 1)) (t div grp cfg))"
  shows "put_did cfg ip W k t (h - 1)"
proof -
  let ?n = "cfg_n cfg"
  have "owner ?n (node ?n k h) (RsRecv (h - 1)) = k" using owner_node [OF k, of "RsRecv (h - 1)"] h by simp
  then have "did cfg ip W ((node ?n k h + ?n - 1) mod ?n) (TPut (RsPut (h - 1)) t)"
    using t h by (intro wait_put(1) [OF W _ d _ refl]) simp_all
  moreover have "(node ?n k h + ?n - 1) mod ?n = node ?n k (h - 1)" using h by (intro node_prev) simp_all
  moreover have "putl ?n (h - 1) = RsPut (h - 1)" unfolding putl_def by (rule if_P) (use h in linarith)
  ultimately show ?thesis by (simp add: put_did_def)
qed

lemma red_put:
  assumes W: "synced cfg ip W" and k: "k < cfg_n cfg" and t: "t < tiles cfg k" and h: "1 \<le> h" "h < cfg_n cfg"
    and d: "red_did cfg ip W k t h"
  shows "put_did cfg ip W k t (h - 1)"
proof (rule red_wait [OF W k t h])
  have "TWait (RsRecv (h - 1)) (t div grp cfg) \<in> deps_of (rcfg cfg (node (cfg_n cfg) k h)) ip (TRed (RsReduce (h - 1)) t)"
    by (simp add: deps_of_def mapped_def)
  from syncedD(2) [OF W _ d [unfolded red_did_def] this]
  show "did cfg ip W (node (cfg_n cfg) k h) (TWait (RsRecv (h - 1)) (t div grp cfg))" using h by simp
qed

text \<open>What the put of hop \<open>h\<close> waits for.\<close>

lemma dep_red:
  assumes "1 \<le> h" "h < cfg_n cfg"
  shows "TRed (RsReduce (h - 1)) t \<in> deps_of (rcfg cfg r) ip (TPut (putl (cfg_n cfg) h) t)"
proof (cases "h < cfg_n cfg - 1")
  case False
  then have "h = cfg_n cfg - 1" using assms by simp
  then show ?thesis using assms by (simp add: deps_of_def mapped_def putl_def numeral_2_eq_2)
qed (use assms in \<open>simp add: deps_of_def mapped_def putl_def\<close>)

lemma dep_gather:
  assumes "cfg_n cfg \<le> h" "2 \<le> cfg_n cfg"
  shows "TWait (AgRecv (h - cfg_n cfg)) (t div grp cfg) \<in> deps_of (rcfg cfg r) ip (TPut (putl (cfg_n cfg) h) t)"
proof -
  have "putl (cfg_n cfg) h = AgPut (Suc (h - cfg_n cfg))" using assms by (simp add: putl_def Suc_diff_le)
  then show ?thesis by (simp add: deps_of_def mapped_def)
qed

lemma gather_wait:
  assumes W: "synced cfg ip W" and k: "k < cfg_n cfg" and t: "t < tiles cfg k" and h: "cfg_n cfg \<le> h" "h \<le> 2 * cfg_n cfg - 3"
    and w: "did cfg ip W (node (cfg_n cfg) k h) (TWait (AgRecv (h - cfg_n cfg)) (t div grp cfg))"
  shows "put_did cfg ip W k t (h - 1)"
proof -
  let ?n = "cfg_n cfg" and ?s = "h - cfg_n cfg"
  have n: "2 \<le> ?n" by (rule syncedD(4) [OF W])
  have l: "putl ?n (h - 1) = AgPut ?s" using h n by (simp add: putl_def Suc_diff_le)
  have "owner ?n (node ?n k h) (AgRecv ?s) = k" using owner_node [OF k, of "AgRecv ?s"] h n by simp
  then have "did cfg ip W ((node ?n k h + ?n - 1) mod ?n) (TPut (AgPut ?s) t)"
    using t n by (intro wait_put(2) [OF W _ w _ refl]) simp_all
  moreover have "(node ?n k h + ?n - 1) mod ?n = node ?n k (h - 1)" using h n by (intro node_prev) simp_all
  ultimately show ?thesis unfolding put_did_def l by simp
qed

lemma put_red:
  assumes W: "synced cfg ip W" and h: "1 \<le> h" "h < cfg_n cfg" and d: "put_did cfg ip W k t h"
  shows "red_did cfg ip W k t h"
  using syncedD(2) [OF W _ d [unfolded put_did_def] dep_red [OF h]] h by (simp add: red_did_def)

lemma put_put:
  assumes W: "synced cfg ip W" and k: "k < cfg_n cfg" and t: "t < tiles cfg k" and h: "cfg_n cfg \<le> h" "h \<le> 2 * cfg_n cfg - 3"
    and d: "put_did cfg ip W k t h"
  shows "put_did cfg ip W k t (h - 1)"
proof -
  have n: "2 \<le> cfg_n cfg" by (rule syncedD(4) [OF W])
  from syncedD(2) [OF W _ d [unfolded put_did_def] dep_gather [OF h(1) n]] n
  show ?thesis by (intro gather_wait [OF W k t h]) simp
qed

lemma put_down:
  assumes W: "synced cfg ip W" and k: "k < cfg_n cfg" and t: "t < tiles cfg k" and h: "h' \<le> h" "h \<le> 2 * cfg_n cfg - 3"
    and d: "put_did cfg ip W k t h"
  shows "put_did cfg ip W k t h'"
  using h d
proof (induction h rule: dec_induct)
  case (step h)
  have "put_did cfg ip W k t h"
  proof (cases "Suc h < cfg_n cfg")
    case True
    from red_put [OF W k t _ True put_red [OF W _ True step.prems(2)]] show ?thesis by simp
  next
    case False
    from put_put [OF W k t _ step.prems] False show ?thesis by simp
  qed
  then show ?case using step by simp
qed

lemma put_snap:
  assumes W: "synced cfg ip W" and k: "k < cfg_n cfg" and t: "t < tiles cfg k" and ip: ip and h: "h < cfg_n cfg - 1"
    and d: "put_did cfg ip W k t h"
  shows "snap_did cfg ip W k t (Suc h)"
proof -
  let ?n = "cfg_n cfg"
  have n: "0 < ?n" using k by simp
  have l: "putl ?n h = RsPut h" using h by (simp add: putl_def)
  have "TSnapWait (RsPut h) \<in> deps_of (rcfg cfg (node ?n k h)) ip (TPut (RsPut h) t)" using ip by (simp add: deps_of_def)
  from syncedD(2) [OF W _ d [unfolded put_did_def l] this]
  have "did cfg ip W (node ?n k h) (TSnapWait (RsPut h))" using n by simp
  from syncedD(3) [OF W _ this] have s: "did cfg ip W ((node ?n k h + 1) mod ?n) (TSnapSig (RsReduce h))" using n by simp
  have e: "(node ?n k h + 1) mod ?n = node ?n k (Suc h)" by (simp add: node_def mod_simps)
  have "owner ?n (node ?n k (Suc h)) (RsReduce h) = k" using owner_node [OF k, of "RsReduce h"] h by simp
  then have "TSnap (RsReduce h) t \<in> deps_of (rcfg cfg (node ?n k (Suc h))) ip (TSnapSig (RsReduce h))" using t by (simp add: deps_of_def)
  from syncedD(2) [OF W _ s [unfolded e] this] show ?thesis using n by (simp add: snap_did_def)
qed

section \<open>What the operations do to the data\<close>

lemma op_tile:
  "op_bytes (tile (cfg_tile_bytes cfg) (chunk_of (rcfg cfg r) l) t) = tile_len cfg (owner (cfg_n cfg) r l) t"
  "op_src_off (tile (cfg_tile_bytes cfg) (chunk_of (rcfg cfg r) l) t) = tile_lo cfg (owner (cfg_n cfg) r l) t"
  "op_dst_off (tile (cfg_tile_bytes cfg) (chunk_of (rcfg cfg r) l) t) = tile_lo cfg (owner (cfg_n cfg) r l) t"
  "op_src_peer (tile (cfg_tile_bytes cfg) (chunk_of (rcfg cfg r) l) t) = peer_of_rank (ch_src_rank (chunk_of (rcfg cfg r) l))"
  "op_dst_peer (tile (cfg_tile_bytes cfg) (chunk_of (rcfg cfg r) l) t) = peer_of_rank (ch_dst_rank (chunk_of (rcfg cfg r) l))"
  by (simp_all add: tile_def tile_len_def tile_lo_def) (simp_all add: chunk_of_def Let_def)

lemma put_move:
  assumes job: "ring_job cfg ip" and r: "r < cfg_n cfg" and l: "kind_of l = Put"
  shows "move_data red (esize cfg) ip r (op_of (rcfg cfg r) ip (TPut l t)) mem d b i =
    (if d = (r + 1) mod cfg_n cfg \<and> b = Output \<and> in_tile cfg (owner (cfg_n cfg) r l) t i
     then mem r (buf_of ip (if waits_for (cfg_n cfg) l = None then Input else Output)) i else mem d b i)"
proof -
  have "(r + 1) mod cfg_n cfg \<noteq> local_peer"
    using peer_small [of "(r + 1) mod cfg_n cfg" "cfg_n cfg"] ring_job_n [OF job] by simp
  then show ?thesis using op_peers(1,3) [OF job r l] l
    by (simp add: move_data_def Let_def op_tile at_rank_def in_tile_def TiledOp_new_def buf_of_def)
qed

lemma red_move:
  "move_data red (esize cfg) ip r (op_of (rcfg cfg r) ip (TRed l t)) mem d b i =
    (if d = r \<and> b = Output \<and> in_tile cfg (owner (cfg_n cfg) r l) t i
     then red (mem r Output i) (if ip then mem r Scratch (stage_idx cfg r l t i) else mem r Input i) else mem d b i)"
  by (simp add: move_data_def Let_def op_tile at_rank_def in_tile_def TiledOp_new_def buf_of_def stage_idx_def)

lemma snap_move:
  "move_data red (esize cfg) ip r (op_of (rcfg cfg r) ip (TSnap l t)) mem d b i =
    (if d = r \<and> b = Scratch \<and> stage_off (rcfg cfg r) l t div esize cfg \<le> i \<and>
        i < (stage_off (rcfg cfg r) l t + tile_len cfg (owner (cfg_n cfg) r l) t) div esize cfg
     then mem r Output (tile_lo cfg (owner (cfg_n cfg) r l) t div esize cfg + (i - stage_off (rcfg cfg r) l t div esize cfg)) else mem d b i)"
  by (simp add: move_data_def Let_def op_tile at_rank_def TiledOp_new_def buf_of_def)

lemma snap_range:
  assumes job: "ring_job cfg ip" and r: "r < cfg_n cfg"
    and l: "l \<in> set (labels (rcfg cfg r))" "kind_of l = RecvReduce" "t < tiles cfg (owner (cfg_n cfg) r l)"
    and l': "l' \<in> set (labels (rcfg cfg r))" "kind_of l' = RecvReduce" "t' < tiles cfg (owner (cfg_n cfg) r l')"
    and i: "in_tile cfg (owner (cfg_n cfg) r l) t i"
  shows "stage_off (rcfg cfg r) l' t' div esize cfg \<le> stage_idx cfg r l t i \<and>
      stage_idx cfg r l t i < (stage_off (rcfg cfg r) l' t' + tile_len cfg (owner (cfg_n cfg) r l') t') div esize cfg \<longleftrightarrow> l = l' \<and> t = t'"
    "tile_lo cfg (owner (cfg_n cfg) r l) t div esize cfg + (stage_idx cfg r l t i - stage_off (rcfg cfg r) l t div esize cfg) = i"
proof -
  let ?e = "esize cfg" and ?n = "cfg_n cfg" and ?k = "owner (cfg_n cfg) r l" and ?S = "stage_off (rcfg cfg r)"
  have al: "?e dvd cfg_tile_bytes cfg" using job by (simp add: ring_job_def)
  note e0 = elem_size_pos [of "cfg_dtype cfg"]
  have dS: "?e dvd ?S l t" for l t using esize_stage [of "rcfg cfg r"] al by simp
  have len: "tile_len cfg (owner ?n r l) t = min (cfg_tile_bytes (rcfg cfg r)) (ch_bytes (chunk_of (rcfg cfg r) l) - t * cfg_tile_bytes (rcfg cfg r))" for l t
    by (simp add: tile_len_def) (simp add: chunk_of_def Let_def)
  have tb: "t * cfg_tile_bytes (rcfg cfg r) \<le> ch_bytes (chunk_of (rcfg cfg r) l)" if "l \<in> set (labels (rcfg cfg r))" "t < tiles cfg (owner ?n r l)" for l t
    using tiles_iff [OF job, of "owner ?n r l" t] that r by (simp add: set_labels_rcfg chunk_of_def Let_def owner_less del: owner.simps)
  have i1: "tile_lo cfg ?k t div ?e \<le> i" using i by (simp add: in_tile_def)
  show "tile_lo cfg ?k t div ?e + (stage_idx cfg r l t i - ?S l t div ?e) = i" using i1 by (simp add: stage_idx_def)
  have "tile_lo cfg ?k t div ?e * ?e = tile_lo cfg ?k t" using esize_tile(1) [OF al] by simp
  then have x: "stage_idx cfg r l t i * ?e = ?S l t + (i * ?e - tile_lo cfg ?k t)"
    using dS [of l t] by (simp add: stage_idx_def add_mult_distrib diff_mult_distrib)
  have own: "?S l t \<le> stage_idx cfg r l t i * ?e" "stage_idx cfg r l t i * ?e < ?S l t + tile_len cfg ?k t"
    using i unfolding in_tile_iff [OF al] x by linarith+
  have "stage_off (rcfg cfg r) l' t' div ?e \<le> stage_idx cfg r l t i \<and> stage_idx cfg r l t i < (?S l' t' + tile_len cfg (owner ?n r l') t') div ?e \<longleftrightarrow>
      ?S l' t' \<le> stage_idx cfg r l t i * ?e \<and> stage_idx cfg r l t i * ?e < ?S l' t' + tile_len cfg (owner ?n r l') t'"
    using e0 dS esize_tile(2) [OF al] by (intro aligned_range) simp_all
  moreover have "l = l' \<and> t = t'" if "?S l' t' \<le> stage_idx cfg r l t i * ?e" "stage_idx cfg r l t i * ?e < ?S l' t' + tile_len cfg (owner ?n r l') t'"
    using stage_disjoint [OF l(1) l'(1) l(2) l'(2) tb [OF l(1,3)] tb [OF l'(1,3)] own(1) own(2) [unfolded len] that(1) that(2) [unfolded len]] by blast
  ultimately show "stage_off (rcfg cfg r) l' t' div ?e \<le> stage_idx cfg r l t i \<and>
      stage_idx cfg r l t i < (?S l' t' + tile_len cfg (owner ?n r l') t') div ?e \<longleftrightarrow> l = l' \<and> t = t'" using own by blast
qed

end
