(* ===== verification/CollAllReduce.thy ===== *)
theory CollAllReduce
  imports CollData
begin

text \<open>
  Correctness of the ring all-reduce, from the configuration to the data: the plans that the planner
  and the lowering build for the ranks, run in any interleaving, in place or out of place.
\<close>

section \<open>The invariant of the data\<close>

text \<open>The value of element \<open>i\<close> of shard \<open>k\<close> after \<open>j\<close> hops: the inputs of the ranks passed, combined in their order.\<close>

primrec ring_fold :: "('v \<Rightarrow> 'v \<Rightarrow> 'v) \<Rightarrow> nat \<Rightarrow> (nat \<Rightarrow> nat \<Rightarrow> 'v) \<Rightarrow> nat \<Rightarrow> nat \<Rightarrow> nat \<Rightarrow> 'v" where
  "ring_fold red n inp k i 0 = inp k i"
| "ring_fold red n inp k i (Suc j) = red (ring_fold red n inp k i j) (inp (node n k (Suc j)) i)"

text \<open>What the output of the rank \<open>j\<close> hops after the owner holds; nothing is known where no value is given.\<close>

definition expect ::
  "('v \<Rightarrow> 'v \<Rightarrow> 'v) \<Rightarrow> bool \<Rightarrow> CollectiveConfig \<Rightarrow> (nat \<Rightarrow> nat \<Rightarrow> 'v) \<Rightarrow> 'v World \<Rightarrow> nat \<Rightarrow> nat \<Rightarrow> nat \<Rightarrow> nat \<Rightarrow> 'v option" where
  "expect red ip cfg inp W k t i j =
     (let n = cfg_n cfg in
      if j + 2 \<le> n \<and> put_did cfg ip W k t (j + (n - 1)) then Some (ring_fold red n inp k i (n - 1))
      else if 1 \<le> j \<and> red_did cfg ip W k t j then Some (ring_fold red n inp k i j)
      else if 1 \<le> j \<and> put_did cfg ip W k t (j - 1) then Some (ring_fold red n inp k i (j - 1))
      else if ip then Some (inp (node n k j) i) else None)"

definition out_ok :: "('v \<Rightarrow> 'v \<Rightarrow> 'v) \<Rightarrow> bool \<Rightarrow> CollectiveConfig \<Rightarrow> (nat \<Rightarrow> nat \<Rightarrow> 'v) \<Rightarrow> 'v World \<Rightarrow> bool" where
  "out_ok red ip cfg inp W \<longleftrightarrow> (\<forall>k<cfg_n cfg. \<forall>t<tiles cfg k. \<forall>i. in_tile cfg k t i \<longrightarrow>
     (\<forall>j<cfg_n cfg. \<forall>v. expect red ip cfg inp W k t i j = Some v \<longrightarrow> w_mem W (node (cfg_n cfg) k j) Output i = v))"

definition scratch_ok :: "bool \<Rightarrow> CollectiveConfig \<Rightarrow> (nat \<Rightarrow> nat \<Rightarrow> 'v) \<Rightarrow> 'v World \<Rightarrow> bool" where
  "scratch_ok ip cfg inp W \<longleftrightarrow> (ip \<longrightarrow> (\<forall>k<cfg_n cfg. \<forall>t<tiles cfg k. \<forall>i. in_tile cfg k t i \<longrightarrow>
     (\<forall>j. 1 \<le> j \<longrightarrow> j < cfg_n cfg \<longrightarrow> snap_did cfg ip W k t j \<longrightarrow>
        w_mem W (node (cfg_n cfg) k j) Scratch (stage_idx cfg (node (cfg_n cfg) k j) (RsReduce (j - 1)) t i) = inp (node (cfg_n cfg) k j) i)))"

definition input_ok :: "bool \<Rightarrow> (nat \<Rightarrow> nat \<Rightarrow> 'v) \<Rightarrow> 'v World \<Rightarrow> bool" where
  "input_ok ip inp W \<longleftrightarrow> (\<not> ip \<longrightarrow> (\<forall>r i. w_mem W r Input i = inp r i))"

lemma out_okD:
  "out_ok red ip cfg inp W \<Longrightarrow> k < cfg_n cfg \<Longrightarrow> t < tiles cfg k \<Longrightarrow> in_tile cfg k t i \<Longrightarrow> j < cfg_n cfg \<Longrightarrow>
    expect red ip cfg inp W k t i j = Some v \<Longrightarrow> w_mem W (node (cfg_n cfg) k j) Output i = v"
  unfolding out_ok_def by blast

lemma scratch_okD:
  "scratch_ok ip cfg inp W \<Longrightarrow> ip \<Longrightarrow> k < cfg_n cfg \<Longrightarrow> t < tiles cfg k \<Longrightarrow> in_tile cfg k t i \<Longrightarrow> 1 \<le> j \<Longrightarrow> j < cfg_n cfg \<Longrightarrow>
    snap_did cfg ip W k t j \<Longrightarrow>
    w_mem W (node (cfg_n cfg) k j) Scratch (stage_idx cfg (node (cfg_n cfg) k j) (RsReduce (j - 1)) t i) = inp (node (cfg_n cfg) k j) i"
  unfolding scratch_ok_def by blast

lemma node_inj: "j < n \<Longrightarrow> j' < n \<Longrightarrow> node n k j = node n k j' \<Longrightarrow> j = j'"
  using mod_add_inj [of j n j' k] by (simp add: node_def add.commute)

text \<open>The three kinds of operations that move data, by the hop they belong to.\<close>

definition only_new :: "CollectiveConfig \<Rightarrow> bool \<Rightarrow> 'v World \<Rightarrow> 'v World \<Rightarrow> nat \<Rightarrow> tile_op \<Rightarrow> bool" where
  "only_new cfg ip W W' r x \<longleftrightarrow> (\<forall>r'<cfg_n cfg. \<forall>y. did cfg ip W' r' y \<longleftrightarrow> did cfg ip W r' y \<or> r' = r \<and> y = x)"

lemma did_new:
  assumes nw: "only_new cfg ip W W' r x" and n: "2 \<le> cfg_n cfg" and k: "k < cfg_n cfg"
  shows "h \<le> 2 * cfg_n cfg - 3 \<Longrightarrow> put_did cfg ip W' k t h \<longleftrightarrow> put_did cfg ip W k t h \<or>
      x = TPut (putl (cfg_n cfg) h) t \<and> r = node (cfg_n cfg) k h"
    "red_did cfg ip W' k t h \<longleftrightarrow> red_did cfg ip W k t h \<or> x = TRed (RsReduce (h - 1)) t \<and> r = node (cfg_n cfg) k h"
    "snap_did cfg ip W' k t h \<longleftrightarrow> snap_did cfg ip W k t h \<or> x = TSnap (RsReduce (h - 1)) t \<and> r = node (cfg_n cfg) k h"
  using nw n by (auto simp: only_new_def put_did_def red_did_def snap_did_def)

lemma put_new:
  assumes nw: "only_new cfg ip W W' r (TPut l t0)" and n: "2 \<le> cfg_n cfg" and k: "k < cfg_n cfg" and r: "r < cfg_n cfg"
    and l: "kind_of l = Put" "step_of l < cfg_n cfg - 1" and h: "h \<le> 2 * cfg_n cfg - 3"
  shows "put_did cfg ip W' k t h \<longleftrightarrow> put_did cfg ip W k t h \<or> k = owner (cfg_n cfg) r l \<and> t = t0 \<and> h = hop (cfg_n cfg) l"
proof -
  let ?n = "cfg_n cfg"
  have "TPut l t0 = TPut (putl ?n h) t \<and> r = node ?n k h \<longleftrightarrow> k = owner ?n r l \<and> t = t0 \<and> h = hop ?n l"
  proof
    assume "TPut l t0 = TPut (putl ?n h) t \<and> r = node ?n k h"
    then show "k = owner ?n r l \<and> t = t0 \<and> h = hop ?n l" using hop_putl [OF h n] owner_putl [OF k h n] by simp
  next
    assume "k = owner ?n r l \<and> t = t0 \<and> h = hop ?n l"
    then show "TPut l t0 = TPut (putl ?n h) t \<and> r = node ?n k h" using putl_hop [OF l] node_hop [OF r l(2)] by simp
  qed
  then show ?thesis unfolding did_new(1) [OF nw n k h] by blast
qed

text \<open>The value a put sends on.\<close>

lemma put_value:
  assumes W: "synced cfg ip W" and o: "out_ok red ip cfg inp W" and inok: "input_ok ip inp W"
    and k: "k < cfg_n cfg" and t: "t < tiles cfg k" and i: "in_tile cfg k t i" and h: "h \<le> 2 * cfg_n cfg - 3"
    and new: "\<not> put_did cfg ip W k t h"
    and deps: "\<And>y. y \<in> deps_of (rcfg cfg (node (cfg_n cfg) k h)) ip (TPut (putl (cfg_n cfg) h) t) \<Longrightarrow> did cfg ip W (node (cfg_n cfg) k h) y"
  shows "w_mem W (node (cfg_n cfg) k h) (buf_of ip (if waits_for (cfg_n cfg) (putl (cfg_n cfg) h) = None then Input else Output)) i =
    ring_fold red (cfg_n cfg) inp k i (min h (cfg_n cfg - 1))"
proof -
  let ?n = "cfg_n cfg"
  have n: "2 \<le> ?n" by (rule syncedD(4) [OF W])
  have later: "\<not> put_did cfg ip W k t h'" if "h \<le> h'" "h' \<le> 2 * ?n - 3" for h' using put_down [OF W k t that] new by blast
  consider "h = 0" | "1 \<le> h" "h < ?n" | "?n \<le> h" by linarith
  then show ?thesis
  proof cases
    case 1
    have p: "putl ?n h = RsPut 0" "node ?n k h = k" using 1 n k by (simp_all add: putl_def node_def)
    show ?thesis
    proof (cases ip)
      case True
      have "\<not> put_did cfg ip W k t (?n - 1)" using later [of "?n - 1"] 1 n by simp
      then have "expect red ip cfg inp W k t i 0 = Some (inp k i)" using True n k by (simp add: expect_def Let_def node_def)
      from out_okD [OF o k t i _ this] show ?thesis using p 1 True n k by (simp add: buf_of_def node_def)
    qed (use inok p 1 in \<open>simp add: input_ok_def buf_of_def\<close>)
  next
    case 2
    have w: "waits_for ?n (putl ?n h) \<noteq> None" using 2 by (simp add: putl_def)
    have "red_did cfg ip W k t h" using deps [OF dep_red [OF 2]] by (simp add: red_did_def)
    moreover have "\<not> put_did cfg ip W k t (h + (?n - 1))" if "h + 2 \<le> ?n" using later [of "h + (?n - 1)"] that by simp
    ultimately have "expect red ip cfg inp W k t i h = Some (ring_fold red ?n inp k i h)" using 2 by (auto simp: expect_def Let_def)
    moreover have "min h (?n - 1) = h" using 2 by simp
    ultimately show ?thesis using out_okD [OF o k t i 2(2)] w by (auto simp: buf_of_def)
  next
    case 3
    have w: "waits_for ?n (putl ?n h) \<noteq> None" using 3 by (simp add: putl_def)
    have "put_did cfg ip W k t (h - 1)" by (rule gather_wait [OF W k t 3 h deps [OF dep_gather [OF 3 n]]])
    moreover have "h - ?n + 2 \<le> ?n" "h - ?n + (?n - 1) = h - 1" using 3 n h by linarith+
    ultimately have "expect red ip cfg inp W k t i (h - ?n) = Some (ring_fold red ?n inp k i (?n - 1))"
      unfolding expect_def Let_def by metis
    from out_okD [OF o k t i _ this] have "w_mem W (node ?n k (h - ?n)) Output i = ring_fold red ?n inp k i (?n - 1)" using h n by simp
    moreover have "node ?n k (h - ?n) = node ?n k h" using 3 unfolding node_def by (metis le_add_diff_inverse2 add.assoc mod_add_self2)
    ultimately show ?thesis using w 3 n by (auto simp: buf_of_def min_def)
  qed
qed

section \<open>Steps\<close>

lemma expect_cong:
  assumes "j < cfg_n cfg" "j + 2 \<le> cfg_n cfg \<Longrightarrow> put_did cfg ip W' k t (j + (cfg_n cfg - 1)) = put_did cfg ip W k t (j + (cfg_n cfg - 1))"
    "1 \<le> j \<Longrightarrow> red_did cfg ip W' k t j = red_did cfg ip W k t j" "1 \<le> j \<Longrightarrow> put_did cfg ip W' k t (j - 1) = put_did cfg ip W k t (j - 1)"
  shows "expect red ip cfg inp W' k t i j = expect red ip cfg inp W k t i j"
  using assms unfolding expect_def Let_def by (simp cong: if_cong conj_cong)

lemma put_step:
  assumes W: "synced cfg ip W" and o: "out_ok red ip cfg inp W" and inok: "input_ok ip inp W" and r: "r < cfg_n cfg"
    and x: "TPut l t0 \<in> set (rplan cfg ip r)" "\<not> did cfg ip W r (TPut l t0)"
    and deps: "\<And>y. y \<in> deps_of (rcfg cfg r) ip (TPut l t0) \<Longrightarrow> did cfg ip W r y"
    and nw: "only_new cfg ip W W' r (TPut l t0)"
    and mem: "w_mem W' = move_data red (esize cfg) ip r (op_of (rcfg cfg r) ip (TPut l t0)) (w_mem W)"
  shows "out_ok red ip cfg inp W'"
proof -
  let ?n = "cfg_n cfg" and ?k = "owner (cfg_n cfg) r l" and ?h = "hop (cfg_n cfg) l"
  note job = syncedD(1) [OF W] and n = syncedD(4) [OF W]
  have l: "kind_of l = Put" "step_of l < ?n - 1" and t0: "t0 < tiles cfg ?k"
    using x(1) by (simp_all add: in_plan set_labels_rcfg)
  have k0: "?k < ?n" using r by (intro owner_less) simp
  have rn: "node ?n ?k ?h = r" by (rule node_hop [OF r l(2)])
  have lp: "putl ?n ?h = l" "?h \<le> 2 * ?n - 3" using putl_hop [OF l] by simp_all
  have al: "esize cfg dvd cfg_tile_bytes cfg" using job by (simp add: ring_job_def)
  have new: "\<not> put_did cfg ip W ?k t0 ?h" using x(2) by (simp add: put_did_def rn lp)
  have val: "w_mem W r (buf_of ip (if waits_for ?n l = None then Input else Output)) i = ring_fold red ?n inp ?k i (min ?h (?n - 1))"
    if "in_tile cfg ?k t0 i" for i
    using put_value [OF W o inok k0 t0 that lp(2) new] deps by (simp add: rn lp)
  have later: "\<not> put_did cfg ip W ?k t0 h'" if "?h \<le> h'" "h' \<le> 2 * ?n - 3" for h' using put_down [OF W k0 t0 that] new by blast
  define j' where "j' = (if ?h + 1 < ?n then ?h + 1 else ?h + 1 - ?n)"
  have j': "j' < ?n" "node ?n ?k j' = (r + 1) mod ?n"
  proof -
    show "j' < ?n" using lp(2) n by (auto simp: j'_def)
    have "node ?n ?k (?h + 1) = (node ?n ?k ?h + 1) mod ?n" by (simp add: node_def mod_simps)
    then have "node ?n ?k (?h + 1) = (r + 1) mod ?n" unfolding rn .
    moreover have "node ?n ?k (?h + 1 - ?n) = node ?n ?k (?h + 1)" if "?n \<le> ?h + 1"
      using that unfolding node_def by (metis le_add_diff_inverse2 add.assoc mod_add_self2)
    ultimately show "node ?n ?k j' = (r + 1) mod ?n" by (simp add: j'_def)
  qed
  note pn = put_new [OF nw n _ r l] and rd = did_new(2) [OF nw n]
  show ?thesis unfolding out_ok_def
  proof (intro allI impI)
    fix k t i j v assume a: "k < ?n" "t < tiles cfg k" "in_tile cfg k t i" "j < ?n" "expect red ip cfg inp W' k t i j = Some v"
    show "w_mem W' (node ?n k j) Output i = v"
    proof (cases "k = ?k \<and> t = t0 \<and> j = j'")
      case True
      have "expect red ip cfg inp W' ?k t0 i j' = Some (ring_fold red ?n inp ?k i (min ?h (?n - 1)))"
      proof (cases "?h + 1 < ?n")
        case h: True
        have "\<not> red_did cfg ip W ?k t0 (Suc ?h)" using red_put [OF W k0 t0, of "Suc ?h"] h new by auto
        moreover have "\<not> put_did cfg ip W ?k t0 (Suc ?h + (?n - 1))" if "Suc ?h + 2 \<le> ?n" using later [of "Suc ?h + (?n - 1)"] that by simp
        ultimately show ?thesis using h pn [OF k0] rd [OF k0] by (auto simp: expect_def Let_def j'_def min_def)
      next
        case h: False
        then have "j' + (?n - 1) = ?h" "j' + 2 \<le> ?n" using lp(2) n by (auto simp: j'_def)
        then show ?thesis using h pn [OF k0 lp(2)] by (simp add: expect_def Let_def)
      qed
      then have v: "v = ring_fold red ?n inp ?k i (min ?h (?n - 1))" using a(5) True by simp
      have i: "in_tile cfg ?k t0 i" using a(3) True by simp
      have nd: "node ?n k j = (r + 1) mod ?n" using True j'(2) by simp
      show ?thesis unfolding mem put_move [OF job r l(1)] nd val [OF i] v using i by simp
    next
      case False
      have "put_did cfg ip W' k t (j + (?n - 1)) = put_did cfg ip W k t (j + (?n - 1))" if "j + 2 \<le> ?n"
      proof -
        have "j = j'" if "j + (?n - 1) = ?h" using that n unfolding j'_def by presburger
        moreover have "j + (?n - 1) \<le> 2 * ?n - 3" using that by simp
        ultimately show ?thesis using pn [OF a(1), of "j + (?n - 1)" t] False by blast
      qed
      moreover have "put_did cfg ip W' k t (j - 1) = put_did cfg ip W k t (j - 1)" if "1 \<le> j"
      proof -
        have "j = j'" if "j - 1 = ?h" using that \<open>1 \<le> j\<close> a(4) unfolding j'_def by presburger
        moreover have "j - 1 \<le> 2 * ?n - 3" using a(4) n by simp
        ultimately show ?thesis using pn [OF a(1), of "j - 1" t] False by blast
      qed
      ultimately have "expect red ip cfg inp W k t i j = Some v"
        using expect_cong [OF a(4), of ip W' k t W red inp i] rd [OF a(1)] a(5) by simp
      from out_okD [OF o a(1-4) this] have old: "w_mem W (node ?n k j) Output i = v" .
      have "\<not> (node ?n k j = (r + 1) mod ?n \<and> in_tile cfg ?k t0 i)"
        using in_tile_unique [OF al a(3)] node_inj [OF a(4) j'(1), of ?k] j'(2) False by metis
      then show ?thesis unfolding mem put_move [OF job r l(1)] using old by auto
    qed
  qed
qed

lemma reduce_hop:
  assumes "k < n" "r < n" "kind_of l = RecvReduce" "step_of l < n - 1" "1 \<le> h" "h < n"
  shows "l = RsReduce (h - 1) \<and> r = node n k h \<longleftrightarrow> k = owner n r l \<and> h = hop n l"
proof
  assume "l = RsReduce (h - 1) \<and> r = node n k h"
  then show "k = owner n r l \<and> h = hop n l" using owner_reduce [OF assms(1,5,6)] assms(5) by simp
next
  assume a: "k = owner n r l \<and> h = hop n l"
  obtain s where "l = RsReduce s" using assms(3) by (cases l) simp_all
  then show "l = RsReduce (h - 1) \<and> r = node n k h" using a node_hop [OF assms(2,4)] by simp
qed

lemma red_step:
  assumes W: "synced cfg ip W" and o: "out_ok red ip cfg inp W" and inok: "input_ok ip inp W" and sc: "scratch_ok ip cfg inp W"
    and r: "r < cfg_n cfg" and x: "TRed l t0 \<in> set (rplan cfg ip r)" "\<not> did cfg ip W r (TRed l t0)"
    and deps: "\<And>y. y \<in> deps_of (rcfg cfg r) ip (TRed l t0) \<Longrightarrow> did cfg ip W r y"
    and nw: "only_new cfg ip W W' r (TRed l t0)"
    and mem: "w_mem W' = move_data red (esize cfg) ip r (op_of (rcfg cfg r) ip (TRed l t0)) (w_mem W)"
  shows "out_ok red ip cfg inp W'"
proof -
  let ?n = "cfg_n cfg" and ?k = "owner (cfg_n cfg) r l" and ?h = "hop (cfg_n cfg) l"
  note job = syncedD(1) [OF W] and n = syncedD(4) [OF W]
  have l: "kind_of l = RecvReduce" "step_of l < ?n - 1" and t0: "t0 < tiles cfg ?k"
    using x(1) by (simp_all add: in_plan set_labels_rcfg)
  have k0: "?k < ?n" using r by (intro owner_less) simp
  have h: "1 \<le> ?h" "?h < ?n" using l by (cases l; simp)+
  have rn: "node ?n ?k ?h = r" by (rule node_hop [OF r l(2)])
  have lh: "l = RsReduce (?h - 1)" using reduce_hop [OF k0 r l h] by blast
  have al: "esize cfg dvd cfg_tile_bytes cfg" using job by (simp add: ring_job_def)
  have new: "\<not> red_did cfg ip W ?k t0 ?h" using x(2) unfolding red_did_def rn lh [symmetric] .
  have "TWait (RsRecv (?h - 1)) (t0 div grp cfg) \<in> deps_of (rcfg cfg r) ip (TRed l t0)" by (subst lh) (simp add: deps_of_def mapped_def)
  from red_wait [OF W k0 t0 h] deps [OF this] have put: "put_did cfg ip W ?k t0 (?h - 1)" unfolding rn by blast
  have later: "\<not> put_did cfg ip W ?k t0 (?h + (?n - 1))" if "?h + 2 \<le> ?n"
    using put_down [OF W k0 t0, of ?h "?h + (?n - 1)"] put_red [OF W h] new that by auto
  have val: "red (w_mem W r Output i) (if ip then w_mem W r Scratch (stage_idx cfg r l t0 i) else w_mem W r Input i) =
      ring_fold red ?n inp ?k i ?h" if i: "in_tile cfg ?k t0 i" for i
  proof -
    have "expect red ip cfg inp W ?k t0 i ?h = Some (ring_fold red ?n inp ?k i (?h - 1))"
      using put new later h by (auto simp: expect_def Let_def)
    from out_okD [OF o k0 t0 i h(2) this] have "w_mem W r Output i = ring_fold red ?n inp ?k i (?h - 1)" unfolding rn .
    moreover have "(if ip then w_mem W r Scratch (stage_idx cfg r l t0 i) else w_mem W r Input i) = inp r i"
    proof (cases ip)
      case True
      have "TSnap l t0 \<in> deps_of (rcfg cfg r) ip (TRed l t0)" using True by (simp add: deps_of_def)
      from deps [OF this] have "snap_did cfg ip W ?k t0 ?h" unfolding snap_did_def rn lh [symmetric] .
      from scratch_okD [OF sc True k0 t0 i h this] show ?thesis using True unfolding rn lh [symmetric] by simp
    qed (use inok in \<open>simp add: input_ok_def\<close>)
    moreover have "ring_fold red ?n inp ?k i ?h = red (ring_fold red ?n inp ?k i (?h - 1)) (inp (node ?n ?k ?h) i)"
      using h(1) by (cases ?h) simp_all
    ultimately show ?thesis unfolding rn by simp
  qed
  have pd: "put_did cfg ip W' k t j = put_did cfg ip W k t j" if "k < ?n" "j \<le> 2 * ?n - 3" for k t j
    using did_new(1) [OF nw n that] by simp
  have pn: "put_did cfg ip W' k t (j + (?n - 1)) = put_did cfg ip W k t (j + (?n - 1))" if "k < ?n" "j + 2 \<le> ?n" for k t j
    using that by (intro pd) simp_all
  have rd: "red_did cfg ip W' k t j \<longleftrightarrow> red_did cfg ip W k t j \<or> k = ?k \<and> t = t0 \<and> j = ?h" if "k < ?n" "1 \<le> j" "j < ?n" for k t j
    using did_new(2) [OF nw n that(1), of t j] reduce_hop [OF that(1) r l that(2,3)] by auto
  show ?thesis unfolding out_ok_def
  proof (intro allI impI)
    fix k t i j v assume a: "k < ?n" "t < tiles cfg k" "in_tile cfg k t i" "j < ?n" "expect red ip cfg inp W' k t i j = Some v"
    show "w_mem W' (node ?n k j) Output i = v"
    proof (cases "k = ?k \<and> t = t0 \<and> j = ?h")
      case True
      have "expect red ip cfg inp W' ?k t0 i ?h = Some (ring_fold red ?n inp ?k i ?h)"
        using rd [OF k0 h, of t0] later pn [OF k0, of ?h t0] h by (auto simp: expect_def Let_def)
      then have v: "v = ring_fold red ?n inp ?k i ?h" using a(5) True by simp
      have i: "in_tile cfg ?k t0 i" using a(3) True by simp
      have nd: "node ?n k j = r" using True rn by simp
      show ?thesis unfolding mem red_move nd val [OF i] v using i by simp
    next
      case False
      have "expect red ip cfg inp W k t i j = Some v"
        using expect_cong [OF a(4) pn [OF a(1)], of t red inp i] pd [OF a(1), of "j - 1" t] rd [OF a(1) _ a(4), of t] False a(4,5) n
        by fastforce
      from out_okD [OF o a(1-4) this] have old: "w_mem W (node ?n k j) Output i = v" .
      have "\<not> (node ?n k j = r \<and> in_tile cfg ?k t0 i)"
        using in_tile_unique [OF al a(3)] node_inj [OF a(4) h(2), of ?k] rn False by metis
      then show ?thesis unfolding mem red_move using old by auto
    qed
  qed
qed

lemma snap_step:
  assumes W: "synced cfg ip W" and o: "out_ok red ip cfg inp W" and sc: "scratch_ok ip cfg inp W"
    and r: "r < cfg_n cfg" and x: "TSnap l t0 \<in> set (rplan cfg ip r)" "\<not> did cfg ip W r (TSnap l t0)"
    and nw: "only_new cfg ip W W' r (TSnap l t0)"
    and mem: "w_mem W' = move_data red (esize cfg) ip r (op_of (rcfg cfg r) ip (TSnap l t0)) (w_mem W)"
  shows "scratch_ok ip cfg inp W'"
proof -
  let ?n = "cfg_n cfg" and ?k = "owner (cfg_n cfg) r l" and ?h = "hop (cfg_n cfg) l"
  note job = syncedD(1) [OF W] and n = syncedD(4) [OF W]
  have l: "l \<in> set (labels (rcfg cfg r))" "kind_of l = RecvReduce" "step_of l < ?n - 1" and t0: "t0 < tiles cfg ?k" and ip: ip
    using x(1) by (simp_all add: in_plan set_labels_rcfg)
  have k0: "?k < ?n" using r by (intro owner_less) simp
  have h: "1 \<le> ?h" "?h < ?n" using l(2,3) by (cases l; simp)+
  have rn: "node ?n ?k ?h = r" by (rule node_hop [OF r l(3)])
  have lh: "l = RsReduce (?h - 1)" using reduce_hop [OF k0 r l(2,3) h] by blast
  have new: "\<not> snap_did cfg ip W ?k t0 ?h" using x(2) unfolding snap_did_def rn lh [symmetric] .
  have "?h - 1 < ?n - 1" "Suc (?h - 1) = ?h" using h by linarith+
  then have nput: "\<not> put_did cfg ip W ?k t0 (?h - 1)" using put_snap [OF W k0 t0 ip, of "?h - 1"] new by metis
  have val: "w_mem W r Output i = inp r i" if i: "in_tile cfg ?k t0 i" for i
  proof -
    have "\<not> put_did cfg ip W ?k t0 (?h + (?n - 1))" if "?h + 2 \<le> ?n"
    proof -
      have "?h - 1 \<le> ?h + (?n - 1)" "?h + (?n - 1) \<le> 2 * ?n - 3" using that by linarith+
      from put_down [OF W k0 t0 this] nput show ?thesis by blast
    qed
    then have "expect red ip cfg inp W ?k t0 i ?h = Some (inp (node ?n ?k ?h) i)"
      using red_put [OF W k0 t0 h] nput ip by (auto simp: expect_def Let_def)
    from out_okD [OF o k0 t0 i h(2) this] show ?thesis unfolding rn .
  qed
  show ?thesis unfolding scratch_ok_def
  proof (intro allI impI)
    fix k t i j assume a: "k < ?n" "t < tiles cfg k" "in_tile cfg k t i" "1 \<le> j" "j < ?n" "snap_did cfg ip W' k t j"
    let ?l = "RsReduce (j - 1)"
    have ko: "owner ?n (node ?n k j) ?l = k" by (rule owner_reduce [OF a(1,4,5)])
    show "w_mem W' (node ?n k j) Scratch (stage_idx cfg (node ?n k j) ?l t i) = inp (node ?n k j) i"
    proof (cases "node ?n k j = r")
      case True
      have kr: "owner ?n r ?l = k" using ko True by simp
      have "?l \<in> set (labels (rcfg cfg r))"
        using a(6) True by (simp add: snap_did_def did_def in_plan)
      note R = snap_range [OF job r this _ _ l(1,2) t0, unfolded kr, OF _ a(2,3)]
      show ?thesis
      proof (cases "?l = l \<and> t = t0")
        case same: True
        then have "k = ?k" using kr by simp
        then show ?thesis unfolding mem True snap_move using R same val a(3) by simp
      next
        case diff: False
        then have "snap_did cfg ip W k t j" using a(6) did_new(3) [OF nw n a(1)] by auto
        from scratch_okD [OF sc ip a(1-5) this] show ?thesis unfolding mem True snap_move using R(1) diff by auto
      qed
    next
      case False
      then have "snap_did cfg ip W k t j" using a(6) did_new(3) [OF nw n a(1)] by auto
      from scratch_okD [OF sc ip a(1-5) this] show ?thesis unfolding mem snap_move using False by simp
    qed
  qed
qed

text \<open>An operation that leaves the output alone, and one that leaves the scratch buffer alone.\<close>

lemma out_keep:
  assumes o: "out_ok red ip cfg inp W" and nw: "only_new cfg ip W W' r x" and n: "2 \<le> cfg_n cfg"
    and x: "\<And>l t. x \<noteq> TPut l t" "\<And>l t. x \<noteq> TRed l t" and mem: "\<And>r i. w_mem W' r Output i = w_mem W r Output i"
  shows "out_ok red ip cfg inp W'"
proof -
  have "expect red ip cfg inp W' k t i j = expect red ip cfg inp W k t i j" if "k < cfg_n cfg" "j < cfg_n cfg" for k t i j
    using did_new(1) [OF nw n that(1), of _ t] did_new(2) [OF nw n that(1), of t] x that by (intro expect_cong) auto
  then show ?thesis using o unfolding out_ok_def mem by metis
qed

lemma scratch_keep:
  assumes sc: "scratch_ok ip cfg inp W" and nw: "only_new cfg ip W W' r x" and n: "2 \<le> cfg_n cfg"
    and x: "\<And>l t. x \<noteq> TSnap l t" and mem: "\<And>r i. w_mem W' r Scratch i = w_mem W r Scratch i"
  shows "scratch_ok ip cfg inp W'"
proof -
  have sd: "snap_did cfg ip W' k t h = snap_did cfg ip W k t h" if "k < cfg_n cfg" for k t h
    using did_new(3) [OF nw n that, of t h] x by simp
  show ?thesis unfolding scratch_ok_def mem
  proof (intro impI allI)
    fix k t i j
    assume a: "ip" "k < cfg_n cfg" "t < tiles cfg k" "in_tile cfg k t i" "1 \<le> j" "j < cfg_n cfg" "snap_did cfg ip W' k t j"
    show "w_mem W (node (cfg_n cfg) k j) Scratch (stage_idx cfg (node (cfg_n cfg) k j) (RsReduce (j - 1)) t i) = inp (node (cfg_n cfg) k j) i"
      by (rule scratch_okD [OF sc a(1-6) a(7) [unfolded sd [OF a(2)]]])
  qed
qed

lemma input_keep: "input_ok ip inp W \<Longrightarrow> (\<And>r i. w_mem W' r Input i = w_mem W r Input i) \<Longrightarrow> input_ok ip inp W'"
  by (simp add: input_ok_def)

lemma data_step:
  assumes W: "synced cfg ip W" and o: "out_ok red ip cfg inp W" and inok: "input_ok ip inp W" and sc: "scratch_ok ip cfg inp W"
    and r: "r < cfg_n cfg" and m: "may_run (rank_ops cfg ip) r i W"
    and W': "W' = run_op red (esize cfg) ip (rank_ops cfg ip) r i W"
  shows "out_ok red ip cfg inp W' \<and> scratch_ok ip cfg inp W' \<and> input_ok ip inp W'"
proof -
  note job = syncedD(1) [OF W] and n = syncedD(4) [OF W]
  obtain x where x: "x \<in> set (rplan cfg ip r)" "\<not> did cfg ip W r x" "\<And>y. y \<in> deps_of (rcfg cfg r) ip x \<Longrightarrow> did cfg ip W r y"
    and new: "\<And>r' y. r' < cfg_n cfg \<Longrightarrow> did cfg ip W' r' y \<longleftrightarrow> did cfg ip W r' y \<or> r' = r \<and> y = x"
    and mem: "w_mem W' = (if moves (op_of (rcfg cfg r) ip x) then move_data red (esize cfg) ip r (op_of (rcfg cfg r) ip x) (w_mem W) else w_mem W)"
    by (rule run_label [OF job r m W'], rule that; blast)
  have nw: "only_new cfg ip W W' r x" unfolding only_new_def using new by blast
  note K = out_keep [OF o nw n] scratch_keep [OF sc nw n]
  show ?thesis
  proof (cases x)
    case (TPut l t)
    have kl: "kind_of l = Put" using x(1) TPut by (simp add: in_plan)
    have mv: "w_mem W' = move_data red (esize cfg) ip r (op_of (rcfg cfg r) ip (TPut l t)) (w_mem W)" using mem TPut op_kinds(3) [of "rcfg cfg r" ip x] by simp
    have "out_ok red ip cfg inp W'" using x nw mv unfolding TPut by (intro put_step [OF W o inok r]) auto
    moreover have "scratch_ok ip cfg inp W'" by (rule K(2)) (simp_all add: TPut mv put_move [OF job r kl] del: op_of.simps)
    moreover have "input_ok ip inp W'" by (rule input_keep [OF inok]) (simp add: mv put_move [OF job r kl] del: op_of.simps)
    ultimately show ?thesis by blast
  next
    case (TRed l t)
    have mv: "w_mem W' = move_data red (esize cfg) ip r (op_of (rcfg cfg r) ip (TRed l t)) (w_mem W)" using mem TRed op_kinds(3) [of "rcfg cfg r" ip x] by simp
    have "out_ok red ip cfg inp W'" using x nw mv unfolding TRed by (intro red_step [OF W o inok sc r]) auto
    moreover have "scratch_ok ip cfg inp W'" by (rule K(2)) (simp_all add: TRed mv red_move del: op_of.simps)
    moreover have "input_ok ip inp W'" by (rule input_keep [OF inok]) (simp add: mv red_move del: op_of.simps)
    ultimately show ?thesis by blast
  next
    case (TSnap l t)
    have mv: "w_mem W' = move_data red (esize cfg) ip r (op_of (rcfg cfg r) ip (TSnap l t)) (w_mem W)" using mem TSnap op_kinds(3) [of "rcfg cfg r" ip x] by simp
    have "scratch_ok ip cfg inp W'" using x nw mv unfolding TSnap by (intro snap_step [OF W o sc r]) auto
    moreover have "out_ok red ip cfg inp W'" by (rule K(1)) (simp_all add: TSnap mv snap_move del: op_of.simps)
    moreover have "input_ok ip inp W'" by (rule input_keep [OF inok]) (simp add: mv snap_move del: op_of.simps)
    ultimately show ?thesis by blast
  qed (use mem op_kinds(3) [of "rcfg cfg r" ip x] K input_keep [OF inok] in simp_all)
qed

lemma run_data:
  assumes "run_reach red e ip n (rank_ops cfg ip) inp W" "ring_job cfg ip" "n = cfg_n cfg" "e = esize cfg"
  shows "out_ok red ip cfg inp W \<and> scratch_ok ip cfg inp W \<and> input_ok ip inp W"
  using assms
proof (induction rule: run_reach.induct)
  case (run_start W)
  then have m: "w_mem W r (buf_of ip Input) i = inp r i" "w_done W r = {}" for r i by (simp_all add: starts_def)
  have no: "\<not> did cfg ip W r x" for r x by (simp add: did_def m)
  then have "out_ok red ip cfg inp W" "scratch_ok ip cfg inp W"
    using m(1) by (auto simp: out_ok_def scratch_ok_def expect_def put_did_def red_did_def snap_did_def buf_of_def Let_def)
  moreover have "input_ok ip inp W" using m(1) by (auto simp: input_ok_def buf_of_def)
  ultimately show ?case by blast
next
  case (run_step W r i)
  have "synced cfg ip W" using run_sync [OF run_step.hyps(1) run_step.prems(1,2)] run_step.prems(1) by (simp add: synced_def)
  from data_step [OF this _ _ _ _ run_step.hyps(3) refl] run_step show ?case by simp
qed

section \<open>Finished runs\<close>

lemma finished_did:
  assumes job: "ring_job cfg ip" and f: "finished (cfg_n cfg) (rank_ops cfg ip) W" and r: "r < cfg_n cfg" and x: "x \<in> set (rplan cfg ip r)"
  shows "did cfg ip W r x"
  using f r x ix_less [OF x] rank_ops_plan(1) [OF job r] by (simp add: finished_def did_def)

lemma node_find:
  assumes "k < n" "r < n"
  shows "\<exists>j<n. node n k j = r"
proof -
  have "node n k ((r + n - k) mod n) = (k + (r + n - k)) mod n" by (simp add: node_def mod_add_right_eq)
  also have "\<dots> = r" using assms by simp
  finally show ?thesis using assms by (intro exI [of _ "(r + n - k) mod n"]) simp
qed

lemma finished_data:
  assumes job: "ring_job cfg ip" and o: "out_ok red ip cfg inp W" and f: "finished (cfg_n cfg) (rank_ops cfg ip) W"
    and k: "k < cfg_n cfg" "0 < shard_size cfg k" and t: "t < tiles cfg k" and i: "in_tile cfg k t i" and r: "r < cfg_n cfg"
  shows "w_mem W r Output i = ring_fold red (cfg_n cfg) inp k i (cfg_n cfg - 1)"
proof -
  let ?n = "cfg_n cfg"
  have n: "2 \<le> ?n" by (rule ring_job_n(1) [OF job])
  obtain j where j: "j < ?n" "node ?n k j = r" using node_find [OF k(1) r] by blast
  have "expect red ip cfg inp W k t i j = Some (ring_fold red ?n inp k i (?n - 1))"
  proof (cases "j + 2 \<le> ?n")
    case True
    let ?h = "j + (?n - 1)"
    have h: "?h \<le> 2 * ?n - 3" using True by simp
    have "TPut (putl ?n ?h) t \<in> set (rplan cfg ip (node ?n k ?h))"
      using hop_putl [OF h n] owner_putl [OF k(1) h n] t k(2) by (simp add: in_plan set_labels_rcfg)
    from finished_did [OF job f _ this] have "put_did cfg ip W k t ?h" using n by (simp add: put_did_def)
    then show ?thesis using True by (simp add: expect_def Let_def)
  next
    case False
    then have jn: "j = ?n - 1" using j(1) by linarith
    have "TRed (RsReduce (j - 1)) t \<in> set (rplan cfg ip (node ?n k j))"
      using owner_reduce [OF k(1) _ j(1)] t k(2) jn n by (simp add: in_plan set_labels_rcfg)
    from finished_did [OF job f _ this] have "red_did cfg ip W k t j" using n by (simp add: red_did_def)
    moreover have "1 \<le> j" using jn n by linarith
    ultimately show ?thesis using False jn by (simp add: expect_def Let_def)
  qed
  from out_okD [OF o k(1) t i j(1) this] show ?thesis unfolding j(2) .
qed

lemma run_finishes:
  assumes job: "ring_job cfg ip" and W: "run_reach red e ip (cfg_n cfg) (rank_ops cfg ip) inp W"
  shows "\<exists>W'. run_reach red e ip (cfg_n cfg) (rank_ops cfg ip) inp W' \<and> finished (cfg_n cfg) (rank_ops cfg ip) W'"
  using W
proof (induction "(\<Sum>r<cfg_n cfg. length (rank_ops cfg ip r)) - ops_done (cfg_n cfg) W" arbitrary: W rule: less_induct)
  case less
  let ?n = "cfg_n cfg" and ?ops = "rank_ops cfg ip"
  show ?case
  proof (cases "finished ?n ?ops W")
    case False
    from run_sync [OF less.prems job refl] run_progress [OF job _ _ False]
    obtain r i where ri: "r < ?n" "may_run ?ops r i W" by blast
    let ?W = "run_op red e ip ?ops r i W"
    have reach: "run_reach red e ip ?n ?ops inp ?W" by (rule run_step [OF less.prems ri])
    have fin: "finite (w_done W r)" for r using run_done_bound [OF less.prems, of r] by (rule finite_subset) simp
    have "ops_done ?n ?W = Suc (ops_done ?n W)" by (rule ops_done_step [OF ri fin])
    moreover have "ops_done ?n ?W \<le> (\<Sum>r<?n. length (?ops r))" by (rule ops_done_le [OF reach])
    ultimately show ?thesis using less.hyps [OF _ reach] by simp
  qed (use less.prems in blast)
qed

text \<open>The sum of all ranks, where the reduction is addition.\<close>

lemma ring_fold_sum: "ring_fold (+) n inp k i j = inp k i + (\<Sum>h = 1..j. (inp (node n k h) i :: 'v :: comm_monoid_add))"
  by (induction j) (simp_all add: add.assoc)

lemma node_sum:
  assumes "k < n"
  shows "f k + (\<Sum>h = 1..n - 1. f (node n k h)) = (\<Sum>r<n. (f r :: 'v :: comm_monoid_add))"
proof -
  have "inj_on (node n k) {..<n}" by (auto intro: inj_onI node_inj)
  moreover have "node n k ` {..<n} = {..<n}" using node_find [OF assms] assms by (auto simp: image_iff)
  ultimately have "(\<Sum>h<n. f (node n k h)) = (\<Sum>r<n. f r)" by (metis (no_types, lifting) sum.reindex comp_apply sum.cong)
  moreover have "{..<n} = insert 0 {1..n - 1}" using assms by auto
  then have "(\<Sum>h<n. f (node n k h)) = f (node n k 0) + (\<Sum>h = 1..n - 1. f (node n k h))" by simp
  ultimately show ?thesis using assms by (simp add: node_def)
qed

section \<open>Properties\<close>

text \<open>An all-reduce of six elements over two ranks, in tiles of two elements.\<close>

definition pair_example :: CollectiveConfig where
  "pair_example = \<lparr>cfg_kind = AllReduceRing, cfg_nranks = 2, cfg_rank = 0, cfg_input_bytes = 24, cfg_output_bytes = 24,
     cfg_tile_bytes = 8, cfg_input_split_bytes = [], cfg_output_split_bytes = [], cfg_dtype = Float32, cfg_reduction = Sum,
     cfg_signal_group_tiles = 1\<rparr>"

lemma pair_example_job: "ring_job pair_example ip"
proof -
  have sel: "cfg_kind pair_example = AllReduceRing" "cfg_input_bytes pair_example = 24" "cfg_nranks pair_example = 2"
    "cfg_tile_bytes pair_example = 8" "cfg_dtype pair_example = Float32" "cfg_n pair_example = 2"
    by (simp_all add: pair_example_def cfg_n_def)
  have len: "length (rplan pair_example ip 0) \<le> 18" "length (rplan pair_example ip 1) \<le> 18"
    by (cases ip; simp only:; code_simp)+
  have cnt: "tile_counts (rcfg pair_example 0) = [2, 2, 2, 2, 2]" "tile_counts (rcfg pair_example 1) = [2, 2, 2, 2, 2]"
    by code_simp+
  have "\<forall>l\<in>set (labels (rcfg pair_example r)). ntiles (rcfg pair_example r) l = 2" if "r = 0 \<or> r = 1" for r
  proof -
    have "set (tile_counts (rcfg pair_example r)) = {2}" using that cnt by auto
    then show ?thesis by (auto simp: tile_counts_def)
  qed
  moreover have "small_plan (rcfg pair_example r) ip" if "r = 0 \<or> r = 1" for r
    using that len cnt by (auto simp: small_plan_def ring_ok_def sel kNoOp_def)
  moreover have "r = 0 \<or> r = 1" if "r < cfg_n pair_example" for r using that sel(6) by auto
  ultimately show ?thesis by (auto simp: ring_job_def sel Suc_le_eq)
qed

definition world_example :: "nat World" where
  "world_example = \<lparr>w_done = (\<lambda>_. {}), w_mem = (\<lambda>r b i. if r = 0 then i else 10 * i), w_sig = (\<lambda>_ _ _. 0)\<rparr>"

lemma world_example_starts: "starts 2 ip (\<lambda>r i. if r = 0 then i else 10 * i) world_example"
  by (simp add: starts_def world_example_def fun_eq_iff)

lemma pair_example_finishes:
  "\<exists>W. run_reach (+) 4 ip 2 (rank_ops pair_example ip) (\<lambda>r i. if r = 0 then i else 10 * i) W \<and> finished 2 (rank_ops pair_example ip) W"
proof -
  have n: "cfg_n pair_example = 2" by (simp add: pair_example_def cfg_n_def)
  from run_finishes [OF pair_example_job, unfolded n, OF run_start [OF world_example_starts]] show ?thesis by blast
qed

text \<open>
  C4: a ring all-reduce computes the reduction. Build the plans of all ranks for a configuration, run them in any
  interleaving, in place or out of place, with any reduction (no law is assumed of it): once all operations are done, every element
  of the output has the same value on all ranks, namely the inputs of the ranks combined in the order of the ring,
  beginning with the rank that owns the shard of the element.
\<close>

theorem allreduce_correct:
  assumes "ring_job cfg ip" "run_reach red (esize cfg) ip (cfg_n cfg) (rank_ops cfg ip) inp W" "finished (cfg_n cfg) (rank_ops cfg ip) W"
    "i < cfg_input_bytes cfg div esize cfg"
  shows "\<exists>k<cfg_n cfg. shard_off cfg k \<le> i * esize cfg \<and> i * esize cfg < shard_off cfg k + shard_size cfg k \<and>
    (\<forall>r<cfg_n cfg. w_mem W r Output i = ring_fold red (cfg_n cfg) inp k i (cfg_n cfg - 1))"
proof -
  obtain k t where kt: "k < cfg_n cfg" "0 < shard_size cfg k" "t < tiles cfg k" "in_tile cfg k t i"
    using in_tile_find [OF assms(1,4)] by blast
  have "out_ok red ip cfg inp W" using run_data [OF assms(2,1)] by simp
  from finished_data [OF assms(1) this assms(3) kt] show ?thesis using in_tile_shard [OF assms(1) kt(4)] kt(1) by blast
qed

theorem allreduce_correct_witness:
  "\<exists>W. finished 2 (rank_ops pair_example True) W \<and> w_mem W 0 Output 4 = (44 :: nat) \<and> w_mem W 1 Output 4 = 44"
proof -
  have sel: "cfg_n pair_example = 2" "cfg_input_bytes pair_example = 24" "esize pair_example = 4"
    by (simp_all add: pair_example_def cfg_n_def)
  obtain W where W: "run_reach (+) 4 True 2 (rank_ops pair_example True) (\<lambda>r i. if r = 0 then i else 10 * i) W"
    "finished 2 (rank_ops pair_example True) W" using pair_example_finishes by blast
  from allreduce_correct [OF pair_example_job, unfolded sel, OF W, of 4]
  obtain k where "k < 2" "\<forall>r<2. w_mem W r Output 4 = ring_fold (+) 2 (\<lambda>r i. if r = 0 then i else 10 * i) k 4 1" by auto
  moreover have "ring_fold (+) 2 (\<lambda>r i. if r = 0 then i else 10 * i) k 4 1 = (44 :: nat)" if "k < 2" for k
    using less_2_cases [OF that] by (elim disjE) (simp_all add: node_def)
  ultimately show ?thesis using W(2) by (intro exI [of _ W]) auto
qed





end
