(* ===== verification/Spec2Isabelle.thy ===== *)
theory Spec2Isabelle
  imports CircularBuffer SharedPool BuffPool EqdsPacer RdmaLink CollAllReduce
begin

text \<open>
  UCCL: verification of the core algorithms of the collective communication library.

  (the component overview is kept in this block)
\<close>

section \<open>The RDMA transport end to end\<close>

text \<open>A link of flow 3 whose sender has the message of \<open>tx_example\<close> to send.\<close>

definition link_example :: Link where
  "link_example = \<lparr>l_tx = tx_example, l_rx = rx_example, l_una = 0, l_nxt = 0, l_pkts = [], l_got = {}, l_tags = []\<rparr>"

lemma link_example_reach: "link_reach 3 link_example"
  unfolding link_example_def tx_example_def rx_example_def
  by (rule link_start) (simp_all add: kNumWr_def kWrSize_def)

lemma link_example_sent:
  obtains b cs xs where "tx_message (\<lambda>_. \<lparr>env_now = 5, env_pot = 1, env_wnd = 0, env_sum_tsc = 0\<rparr>) 0 tx_example = Some (Some (b, cs))"
    "message_sent 3 tx_pool {#} 0 0 (\<lambda>_. wr_ex_init) (\<lambda>_. 0) 0 tx_example b cs xs"
    "link_reach 3 (link_example\<lparr>l_tx := cs, l_pkts := map (Pair False) [0..<length (data_posted cs)]\<rparr>)" "data_posted cs \<noteq> []"
proof -
  let ?env = "\<lambda>_. \<lparr>env_now = 5, env_pot = 1, env_wnd = 0, env_sum_tsc = 0\<rparr>"
  obtain b cs xs where s: "tx_message ?env 0 tx_example = Some (Some (b, cs))"
    "message_sent 3 tx_pool {#} 0 0 (\<lambda>_. wr_ex_init) (\<lambda>_. 0) 0 tx_example b cs xs"
    using tx_message_ok [OF tx_example_rel(1) tx_example_sendable tx_example_sel(6)] by blast
  have "length (data_posted cs) \<le> chunks_left 0 tx_example" using s(2) by (auto simp: message_sent_def tx_example_sel)
  moreover have left: "chunks_left 0 tx_example = 2" by (simp add: chunks_left_def tx_example_sel)
  ultimately have "length (data_posted cs) \<le> l_una link_example + 127" by (simp add: link_example_def)
  moreover have tx: "l_tx link_example = tx_example" by (simp add: link_example_def)
  ultimately have "link_reach 3 (link_example\<lparr>l_tx := cs, l_pkts := l_pkts link_example @
      map (Pair False) [length (data_posted (l_tx link_example))..<length (data_posted cs)]\<rparr>)"
    using s(1) left by (intro link_send [OF link_example_reach refl, where r = 0]) (simp_all add: tx_example_sel)
  moreover have "fst (EventOnChunkSize 0 3 100000 tx_example) \<noteq> 0" 
    by (simp add: tx_example_def RDMAContext_new_def EventOnChunkSize_def chunk_size_timely_def Let_def
        kMaxUnAckedBytesPerEngineHigh_def kMaxUnAckedBytesPerEngineLow_def u32_wrap_def)
  then have "data_posted cs \<noteq> []" using s(2) by (auto simp: message_sent_def tx_example_sel)
  ultimately show thesis using that [OF s] by (simp add: tx tx_example_sel) (simp add: link_example_def)
qed





end
